(* ===== verification/Go_Prelude.thy ===== *)
theory Go_Prelude
  imports Main "HOL-Library.Multiset" "HOL-Library.Word"
begin

section \<open>Prelude: Go values, run-time errors and transition systems\<close>

text \<open>
  What every other theory of the development shares.
  \<^item> The run-time errors of Go (\<open>go_error\<close>) and computations that may end in one
    (\<open>'a go\<close>, sequenced by \<open>bindE\<close>). A panic, a \<open>log.Fatal\<close>, a \<open>t.Fatal\<close> of a test and a goroutine that can
    never be woken are error values, so that no branch of the source is lost.
  \<^item> Slices: indexing, assignment to an element and slice expressions over a \<open>int\<close>
    index, each with the check Go makes at run time. Go's \<open>int\<close> is modelled by
    \<open>int\<close>: the counters of the program (terms, log indices) grow by one per event and
    never come near the 64-bit bound; the places where the width matters use \<open>word\<close>.
  \<^item> Majorities: the interface \<open>quorum_system\<close> and its instance for the test
    \<open>vote*2 > peer_size\<close>.
  \<^item> Transition systems: reachability and the interface \<open>inductive_invariant\<close>, which
    turns a step-preserved predicate into a fact about every reachable state.
\<close>

subsection \<open>Run-time errors\<close>

datatype go_error =
    IndexOutOfRange
  | SliceBoundsOutOfRange
  | SlicePastLen
  | MakeSliceLenOutOfRange
  | NilPointer
  | TypeAssertion
  | DivideByZero
  | CloseOfClosedChannel
  | UnexportedField
  | LogFatal
  | TestFatal
  | Blocked

type_synonym 'a go = "go_error + 'a"

definition bindE :: "'a go \<Rightarrow> ('a \<Rightarrow> 'b go) \<Rightarrow> 'b go" where
  "bindE m f = (case m of Inl e \<Rightarrow> Inl e | Inr x \<Rightarrow> f x)"

definition isOk :: "'a go \<Rightarrow> bool" where
  "isOk m = (case m of Inl _ \<Rightarrow> False | Inr _ \<Rightarrow> True)"

named_theorems go_simps \<open>unfolding of the Go primitives\<close>
named_theorems wf_intros \<open>preservation of the well-formedness invariants\<close>

lemma bindE_Inr [simp]: "bindE (Inr x) f = f x"
  by (simp add: bindE_def)

lemma bindE_Inl [simp]: "bindE (Inl e) f = Inl e"
  by (simp add: bindE_def)

lemma bindE_eq_Inr_iff: "bindE m f = Inr y \<longleftrightarrow> (\<exists>x. m = Inr x \<and> f x = Inr y)"
  by (cases m) simp_all

lemma bindE_assoc: "bindE (bindE m f) g = bindE m (\<lambda>x. bindE (f x) g)"
  by (cases m) simp_all

lemma isOk_simps [simp]: "isOk (Inr x)" "\<not> isOk (Inl e)"
  by (simp_all add: isOk_def)

lemma isOk_iff: "isOk m \<longleftrightarrow> (\<exists>x. m = Inr x)"
  by (cases m) simp_all

lemma isOk_bindE: "isOk (bindE m f) \<longleftrightarrow> (\<exists>x. m = Inr x \<and> isOk (f x))"
  by (cases m) simp_all

text \<open>A loop that runs a fallible body on each element and collects the results.\<close>

fun mapE :: "('a \<Rightarrow> 'b go) \<Rightarrow> 'a list \<Rightarrow> 'b list go" where
  "mapE f [] = Inr []"
| "mapE f (x # xs) = bindE (f x) (\<lambda>y. bindE (mapE f xs) (\<lambda>ys. Inr (y # ys)))"

lemma mapE_Inr:
  "(\<And>x. x \<in> set xs \<Longrightarrow> f x = Inr (g x)) \<Longrightarrow> mapE f xs = Inr (map g xs)"
  by (induction xs) simp_all

text \<open>A loop whose body updates the state and may fail, which ends the loop.\<close>

fun foldE :: "('x \<Rightarrow> 's \<Rightarrow> 's go) \<Rightarrow> 'x list \<Rightarrow> 's \<Rightarrow> 's go" where
  "foldE f [] s = Inr s"
| "foldE f (x # xs) s = bindE (f x s) (foldE f xs)"

lemma foldE_eq: "(\<And>x u. x \<in> set xs \<Longrightarrow> f x u = g x u) \<Longrightarrow> foldE f xs s = foldE g xs s"
proof (induction xs arbitrary: s)
  case (Cons x xs)
  then show ?case by (cases "g x s") simp_all
qed simp

lemma foldE_cong [fundef_cong]:
  "xs = ys \<Longrightarrow> s = t \<Longrightarrow> (\<And>x u. x \<in> set ys \<Longrightarrow> f x u = g x u) \<Longrightarrow> foldE f xs s = foldE g ys t"
  by (simp add: foldE_eq [of ys f g])

lemma foldE_Inr:
  "(\<And>x t. x \<in> set xs \<Longrightarrow> f x t = Inr (g x t)) \<Longrightarrow> foldE f xs s = Inr (fold g xs s)"
  by (induction xs arbitrary: s) simp_all

lemma foldE_append: "foldE f (xs @ ys) s = bindE (foldE f xs s) (foldE f ys)"
proof (induction xs arbitrary: s)
  case (Cons x xs)
  then show ?case by (cases "f x s") simp_all
qed simp

text \<open>
  The rules for such a loop, each with an invariant over the elements done so far: a loop whose
  every turn succeeds and keeps the invariant ends with it, and a loop that has ended kept an
  invariant that every successful turn keeps.
\<close>

lemma upto_prefix:
  assumes "[0..n - 1] = dn @ i # rest"
  shows "i = int (length dn)" "i \<notin> set dn" "i \<in> {0..<n}" "set dn \<subseteq> {0..<n}"
proof -
  have "length [0..n - 1] = length (dn @ i # rest)" by (simp only: assms)
  then have "[0..n - 1] ! length dn = 0 + int (length dn)" by (intro nth_upto) simp
  then show "i = int (length dn)" by (simp add: assms)
  have "distinct (dn @ i # rest)" unfolding assms [symmetric] by simp
  then show "i \<notin> set dn" by simp
  have "set (dn @ i # rest) = {0..<n}" unfolding assms [symmetric] by auto
  then show "i \<in> {0..<n}" "set dn \<subseteq> {0..<n}" by auto
qed

lemma foldE_prefix_rule:
  assumes "I [] s"
    and "\<And>done x rest t. xs = done @ x # rest \<Longrightarrow> I done t \<Longrightarrow> \<exists>t'. f x t = Inr t' \<and> I (done @ [x]) t'"
  shows "\<exists>t. foldE f xs s = Inr t \<and> I xs t"
proof -
  have "\<exists>t. foldE f ys u = Inr t \<and> I (pre @ ys) t" if "xs = pre @ ys" "I pre u" for pre ys u
    using that
  proof (induction ys arbitrary: pre u)
    case (Cons y ys)
    with assms(2) [of pre y ys u] obtain u' where "f y u = Inr u'" "I (pre @ [y]) u'" by blast
    with Cons.IH [of "pre @ [y]" u'] Cons.prems show ?case by simp
  qed simp
  from this [of "[]" xs s] assms(1) show ?thesis by simp
qed

lemma foldE_rule:
  assumes "I [] s"
    and "\<And>done x t. I done t \<Longrightarrow> set done \<subseteq> set xs \<Longrightarrow> x \<in> set xs \<Longrightarrow> \<exists>t'. f x t = Inr t' \<and> I (done @ [x]) t'"
  shows "\<exists>t. foldE f xs s = Inr t \<and> I xs t"
  by (rule foldE_prefix_rule, rule assms(1)) (rule assms(2), auto)

lemma foldE_Inr_rule:
  assumes "foldE f xs s = Inr t" "I [] s"
    and "\<And>done x u u'. I done u \<Longrightarrow> set done \<subseteq> set xs \<Longrightarrow> x \<in> set xs \<Longrightarrow> f x u = Inr u' \<Longrightarrow> I (done @ [x]) u'"
  shows "I xs t"
proof -
  have "I (pre @ ys) t" if "foldE f ys u = Inr t" "I pre u" "set pre \<subseteq> set xs" "set ys \<subseteq> set xs" for pre ys u
    using that
  proof (induction ys arbitrary: pre u)
    case (Cons y ys)
    then obtain u' where "f y u = Inr u'" "foldE f ys u' = Inr t" by (auto simp: bindE_eq_Inr_iff)
    with Cons.IH [of u' "pre @ [y]"] Cons.prems assms(3) [of pre u y u'] show ?case by simp
  qed simp
  from this [OF assms(1,2)] show ?thesis by simp
qed

subsection \<open>Slices\<close>

definition go_nth :: "'a list \<Rightarrow> int \<Rightarrow> 'a go" where
  "go_nth xs i = (if 0 \<le> i \<and> i < int (length xs) then Inr (xs ! nat i) else Inl IndexOutOfRange)"

definition go_update :: "'a list \<Rightarrow> int \<Rightarrow> 'a \<Rightarrow> 'a list go" where
  "go_update xs i v =
     (if 0 \<le> i \<and> i < int (length xs) then Inr (xs[nat i := v]) else Inl IndexOutOfRange)"

text \<open>
  The slice expression \<open>xs[lo:hi]\<close>. Go checks \<open>hi\<close> against the capacity and not
  against the length: between the two it returns stale elements of the backing array,
  beyond the capacity it panics. The capacity is chosen by the run-time system, so both
  outcomes are the one error \<open>SlicePastLen\<close> here.
\<close>

definition go_slice :: "'a list \<Rightarrow> int \<Rightarrow> int \<Rightarrow> 'a list go" where
  "go_slice xs lo hi =
     (if lo < 0 \<or> hi < lo then Inl SliceBoundsOutOfRange
      else if int (length xs) < hi then Inl SlicePastLen
      else Inr (take (nat hi - nat lo) (drop (nat lo) xs)))"

definition go_swap :: "'a list \<Rightarrow> int \<Rightarrow> int \<Rightarrow> 'a list go" where
  "go_swap xs i j =
     bindE (go_nth xs i) (\<lambda>a. bindE (go_nth xs j) (\<lambda>b.
     Inr (xs[nat i := b, nat j := a])))"

lemma go_nth_Inr [simp]: "0 \<le> i \<Longrightarrow> i < int (length xs) \<Longrightarrow> go_nth xs i = Inr (xs ! nat i)"
  by (simp add: go_nth_def)

lemma go_nth_eq_Inr_iff:
  "go_nth xs i = Inr x \<longleftrightarrow> 0 \<le> i \<and> i < int (length xs) \<and> x = xs ! nat i"
  by (auto simp: go_nth_def)

lemma go_update_Inr [simp]:
  "0 \<le> i \<Longrightarrow> i < int (length xs) \<Longrightarrow> go_update xs i v = Inr (xs[nat i := v])"
  by (simp add: go_update_def)

lemma go_update_eq_Inr_iff:
  "go_update xs i v = Inr ys \<longleftrightarrow> 0 \<le> i \<and> i < int (length xs) \<and> ys = xs[nat i := v]"
  by (auto simp: go_update_def)

lemma go_slice_eq_Inr_iff:
  "go_slice xs lo hi = Inr ys \<longleftrightarrow>
     0 \<le> lo \<and> lo \<le> hi \<and> hi \<le> int (length xs) \<and> ys = take (nat hi - nat lo) (drop (nat lo) xs)"
  by (auto simp: go_slice_def)

lemma go_swap_eq_Inr_iff:
  "go_swap xs i j = Inr ys \<longleftrightarrow>
     0 \<le> i \<and> i < int (length xs) \<and> 0 \<le> j \<and> j < int (length xs) \<and>
     ys = xs[nat i := xs ! nat j, nat j := xs ! nat i]"
  by (auto simp: go_swap_def bindE_eq_Inr_iff go_nth_eq_Inr_iff)

lemmas go_inversions = bindE_eq_Inr_iff go_nth_eq_Inr_iff go_update_eq_Inr_iff
  go_slice_eq_Inr_iff go_swap_eq_Inr_iff

subsection \<open>Majorities\<close>

text \<open>
  The test \<open>vote*2 > peer_size\<close> of an election and the count
  \<open>len(rf.peers)/2 + 1\<close> of the commit rule single out the same sets of servers.
\<close>

definition majority :: "int \<Rightarrow> int set \<Rightarrow> bool" where
  "majority n S \<longleftrightarrow> 0 \<le> n \<and> S \<subseteq> {0..<n} \<and> n < 2 * int (card S)"

locale quorum_system =
  fixes quorum :: "'p set \<Rightarrow> bool"
  assumes quorum_meet: "quorum Q \<Longrightarrow> quorum R \<Longrightarrow> Q \<inter> R \<noteq> {}"
begin

text \<open>
  The argument every election rests on: when two candidates each hold the votes of a
  quorum and nobody voted for both, they are the same candidate.
\<close>

lemma quorum_winner_unique:
  assumes "quorum Q" "quorum R"
    and "\<And>v. v \<in> Q \<Longrightarrow> ballot v = Some c"
    and "\<And>v. v \<in> R \<Longrightarrow> ballot v = Some d"
  shows "c = d"
proof -
  from quorum_meet [OF assms(1,2)] obtain v where "v \<in> Q" "v \<in> R" by auto
  with assms(3) [of v] assms(4) [of v] show ?thesis by simp
qed

lemma quorum_nonempty: "quorum Q \<Longrightarrow> Q \<noteq> {}"
  using quorum_meet [of Q Q] by auto

end

lemma card_subset_int_interval: "S \<subseteq> {0..<n} \<Longrightarrow> finite S \<and> int (card S) \<le> max 0 n"
proof -
  assume S: "S \<subseteq> {0..<n}"
  then have "card S \<le> card {0..<n}" by (intro card_mono) auto
  with S show ?thesis using finite_subset [of S "{0..<n}"] by auto
qed

lemma majorities_meet: "majority n Q \<Longrightarrow> majority n R \<Longrightarrow> Q \<inter> R \<noteq> {}"
proof
  assume Q: "majority n Q" and R: "majority n R" and "Q \<inter> R = {}"
  then have "card (Q \<union> R) = card Q + card R"
    by (intro card_Un_disjoint) (auto simp: majority_def dest: card_subset_int_interval)
  moreover have "int (card (Q \<union> R)) \<le> max 0 n"
    using Q R by (intro card_subset_int_interval [THEN conjunct2]) (auto simp: majority_def)
  ultimately show False
    using Q R by (auto simp: majority_def max_def split: if_splits)
qed

interpretation majorities: quorum_system "majority n"
  by unfold_locales (rule majorities_meet)

subsection \<open>Transition systems\<close>

inductive reachable_from :: "('s \<Rightarrow> 's \<Rightarrow> bool) \<Rightarrow> 's \<Rightarrow> 's \<Rightarrow> bool"
  for step :: "'s \<Rightarrow> 's \<Rightarrow> bool" and s0 :: 's where
  reach_start: "reachable_from step s0 s0"
| reach_step: "reachable_from step s0 s \<Longrightarrow> step s t \<Longrightarrow> reachable_from step s0 t"

locale inductive_invariant =
  fixes start :: "'s \<Rightarrow> bool" and step :: "'s \<Rightarrow> 's \<Rightarrow> bool" and inv :: "'s \<Rightarrow> bool"
  assumes inv_start: "start s \<Longrightarrow> inv s"
    and inv_step: "inv s \<Longrightarrow> step s t \<Longrightarrow> inv t"
begin

lemma inv_reachable: "start s0 \<Longrightarrow> reachable_from step s0 s \<Longrightarrow> inv s"
  by (rotate_tac, induction rule: reachable_from.induct) (auto intro: inv_start inv_step)

end

end
