(* ===== verification/Raft_Util.thy ===== *)
theory Raft_Util
  imports Go_Prelude
begin

section \<open>raft/util.go: Max, Min and the selection of the k-th largest element\<close>

text \<open>
  \<open>Max\<close>, \<open>Min\<close> and \<open>findKthLargest\<close>, the quickselect that the leader runs over its
  \<open>matchIndex\<close> to find the highest index stored on a majority. The partition loop and
  the recursion are modelled on the array they permute in place, with every index
  check; the theorems show that for \<open>1 \<le> k \<le> len(nums)\<close> the routine returns (no panic,
  no infinite loop) the element that a descending sort puts at position \<open>k\<close>.
  The debugging output (\<open>DDEBUG\<close>, \<open>DPrintf\<close>) has no effect on the state and is left out.
\<close>

subsection \<open>Definitions\<close>

definition Max :: "int \<Rightarrow> int \<Rightarrow> int" where
  "Max a b = (if a > b then a else b)"

definition Min :: "int \<Rightarrow> int \<Rightarrow> int" where
  "Min a b = (if a > b then b else a)"

text \<open>
  The loop \<open>for i != j\<close>. The measure counts what is left to the right of \<open>cur\<close> and to
  the left of \<open>j\<close>: each iteration moves one of them, and an iteration whose index left
  the array panics, so the loop ends for every input.
\<close>

function partitionLoop :: "int list \<Rightarrow> int \<Rightarrow> int \<Rightarrow> int \<Rightarrow> int \<Rightarrow> (int list \<times> int \<times> int) go" where
  "partitionLoop nums pivot cur i j =
     (if i = j then Inr (nums, i, j)
      else case go_nth nums cur of
        Inl e \<Rightarrow> Inl e
      | Inr x \<Rightarrow>
          if x > pivot then
            (case go_swap nums cur j of
               Inl e \<Rightarrow> Inl e
             | Inr nums' \<Rightarrow> partitionLoop nums' pivot cur i (j - 1))
          else
            (case go_swap nums cur i of
               Inl e \<Rightarrow> Inl e
             | Inr nums' \<Rightarrow> partitionLoop nums' pivot (cur + 1) (i + 1) j))"
  by pat_completeness auto
termination
  by (relation "measure (\<lambda>(nums, pivot, cur, i, j). nat (int (length nums) - cur) + nat (j + 1))")
     (auto simp: go_inversions)

declare partitionLoop.simps [simp del]

lemma partitionLoop_unfold:
  "i \<noteq> j \<Longrightarrow> partitionLoop nums pivot cur i j =
     bindE (go_nth nums cur) (\<lambda>x.
       if x > pivot
       then bindE (go_swap nums cur j) (\<lambda>nums'. partitionLoop nums' pivot cur i (j - 1))
       else bindE (go_swap nums cur i) (\<lambda>nums'. partitionLoop nums' pivot (cur + 1) (i + 1) j))"
  by (subst partitionLoop.simps) (simp add: bindE_def split: sum.split)

lemma partitionLoop_done: "partitionLoop nums pivot cur i i = Inr (nums, i, i)"
  by (subst partitionLoop.simps) simp

text \<open>Where the loop stops: both indices meet between their start values.\<close>

lemma partitionLoop_bounds:
  "partitionLoop nums pivot cur i j = Inr (nums', i', j') \<Longrightarrow>
     i' = j' \<and> i \<le> i' \<and> i' \<le> j \<and> length nums' = length nums"
proof (induction nums pivot cur i j rule: partitionLoop.induct)
  case (1 nums pivot cur i j)
  show ?case
  proof (cases "i = j")
    case True
    with "1.prems" show ?thesis by (auto simp: partitionLoop_done)
  next
    case False
    with "1.prems" obtain x where x: "go_nth nums cur = Inr x" and
      rest: "(if x > pivot
         then bindE (go_swap nums cur j) (\<lambda>ns. partitionLoop ns pivot cur i (j - 1))
         else bindE (go_swap nums cur i) (\<lambda>ns. partitionLoop ns pivot (cur + 1) (i + 1) j))
       = Inr (nums', i', j')"
      by (auto simp: partitionLoop_unfold bindE_eq_Inr_iff)
    show ?thesis
    proof (cases "x > pivot")
      case True
      with rest obtain ns where ns: "go_swap nums cur j = Inr ns"
        and "partitionLoop ns pivot cur i (j - 1) = Inr (nums', i', j')"
        by (auto simp: bindE_eq_Inr_iff)
      with "1.IH"(1) [OF False x True ns] show ?thesis by (auto simp: go_swap_eq_Inr_iff)
    next
      case le: False
      with rest obtain ns where ns: "go_swap nums cur i = Inr ns"
        and "partitionLoop ns pivot (cur + 1) (i + 1) j = Inr (nums', i', j')"
        by (auto simp: bindE_eq_Inr_iff)
      with "1.IH"(2) [OF False x le ns] show ?thesis by (auto simp: go_swap_eq_Inr_iff)
    qed
  qed
qed

text \<open>The closure \<open>QuickSort\<close>; \<open>begin\<close> and \<open>end\<close> are keywords here, so \<open>lo\<close> and \<open>hi\<close>.\<close>

function QuickSort :: "int list \<Rightarrow> int \<Rightarrow> int \<Rightarrow> int \<Rightarrow> int go" where
  "QuickSort nums lo hi k =
     (if lo + 1 = hi then go_nth nums lo
      else case go_nth nums lo of
        Inl e \<Rightarrow> Inl e
      | Inr pivot \<Rightarrow>
          (case partitionLoop nums pivot (lo + 1) lo (hi - 1) of
             Inl e \<Rightarrow> Inl e
           | Inr (nums', i, j) \<Rightarrow>
               (let big_part_size = hi - j - 1 in
                if big_part_size + 1 = k then Inr pivot
                else if big_part_size \<ge> k then QuickSort nums' (j + 1) hi k
                else QuickSort nums' lo i (k - big_part_size - 1))))"
  by pat_completeness auto
termination
  by (relation "measure (\<lambda>(nums, lo, hi, k). nat (hi - lo))")
     (auto dest!: partitionLoop_bounds)

declare QuickSort.simps [simp del]

definition findKthLargest :: "int list \<Rightarrow> int \<Rightarrow> int go" where
  "findKthLargest nums k = QuickSort nums 0 (int (length nums)) k"


subsection \<open>Correctness of the partition\<close>

text \<open>
  \<open>partitioned p ns lo m hi\<close>: position \<open>m\<close> of the segment \<open>[lo, hi)\<close> holds the pivot,
  nothing before it is larger and everything after it is.
\<close>

definition partitioned :: "int \<Rightarrow> int list \<Rightarrow> nat \<Rightarrow> nat \<Rightarrow> nat \<Rightarrow> nat \<Rightarrow> bool" where
  "partitioned p ns lo i j hi \<longleftrightarrow>
     lo \<le> i \<and> i \<le> j \<and> j < hi \<and> hi \<le> length ns \<and> ns ! i = p \<and>
     (\<forall>m. lo \<le> m \<and> m < i \<longrightarrow> ns ! m \<le> p) \<and> (\<forall>m. j < m \<and> m < hi \<longrightarrow> p < ns ! m)"

definition same_outside :: "int list \<Rightarrow> int list \<Rightarrow> nat \<Rightarrow> nat \<Rightarrow> bool" where
  "same_outside ns ns' lo hi \<longleftrightarrow>
     mset ns' = mset ns \<and> take lo ns' = take lo ns \<and> drop hi ns' = drop hi ns"

lemma same_outside_refl [simp]: "same_outside ns ns lo hi"
  by (simp add: same_outside_def)

lemma same_outside_trans:
  "same_outside a b lo hi \<Longrightarrow> same_outside b c lo hi \<Longrightarrow> same_outside a c lo hi"
  by (simp add: same_outside_def)

lemma same_outside_swap:
  "lo \<le> x \<Longrightarrow> lo \<le> y \<Longrightarrow> x < hi \<Longrightarrow> y < hi \<Longrightarrow> hi \<le> length ns \<Longrightarrow>
     same_outside ns (ns[x := ns ! y, y := ns ! x]) lo hi"
  by (simp add: same_outside_def mset_swap)

lemma partitionLoop_partitions:
  assumes "partitioned p ns lo i j hi"
  shows "\<exists>ns' m. partitionLoop ns p (int i + 1) (int i) (int j) = Inr (ns', int m, int m) \<and>
           partitioned p ns' lo m m hi \<and> same_outside ns ns' lo hi"
  using assms
proof (induction "j - i" arbitrary: ns i j)
  case 0
  then have "i = j" by (simp add: partitioned_def)
  with 0 show ?case by (auto simp: partitionLoop_done)
next
  case (Suc d)
  note P = Suc.prems [unfolded partitioned_def]
  from Suc.hyps(2) have ij: "i < j" by simp
  with P have cur: "go_nth ns (int i + 1) = Inr (ns ! Suc i)"
    by (simp add: go_nth_def nat_add_distrib)
  show ?case
  proof (cases "ns ! Suc i > p")
    case True
    let ?ns = "ns[Suc i := ns ! j, j := ns ! Suc i]"
    from ij P have sw: "go_swap ns (int i + 1) (int j) = Inr ?ns"
      by (simp add: go_swap_eq_Inr_iff nat_add_distrib)
    have "partitioned p ?ns lo i (j - 1) hi"
      using P ij True by (auto simp: partitioned_def nth_list_update)
    moreover have "d = (j - 1) - i" using Suc.hyps(2) by simp
    ultimately obtain ns' m where
      IH: "partitionLoop ?ns p (int i + 1) (int i) (int (j - 1)) = Inr (ns', int m, int m)"
      "partitioned p ns' lo m m hi" "same_outside ?ns ns' lo hi"
      using Suc.hyps(1) by blast
    moreover have "same_outside ns ?ns lo hi"
      using P ij by (intro same_outside_swap) auto
    moreover have "int (j - 1) = int j - 1" using ij by simp
    ultimately show ?thesis
      using ij cur sw True by (auto simp: partitionLoop_unfold intro: same_outside_trans)
  next
    case False
    let ?ns = "ns[Suc i := ns ! i, i := ns ! Suc i]"
    from ij P have sw: "go_swap ns (int i + 1) (int i) = Inr ?ns"
      by (simp add: go_swap_eq_Inr_iff nat_add_distrib)
    have "partitioned p ?ns lo (Suc i) j hi"
      using P ij False by (auto simp: partitioned_def nth_list_update less_Suc_eq)
    moreover have "d = j - Suc i" using Suc.hyps(2) by simp
    ultimately obtain ns' m where
      IH: "partitionLoop ?ns p (int (Suc i) + 1) (int (Suc i)) (int j) = Inr (ns', int m, int m)"
      "partitioned p ns' lo m m hi" "same_outside ?ns ns' lo hi"
      using Suc.hyps(1) by blast
    moreover have "same_outside ns ?ns lo hi"
      using P ij by (intro same_outside_swap) auto
    ultimately show ?thesis
      using ij cur sw False by (auto simp: partitionLoop_unfold add.commute intro: same_outside_trans)
  qed
qed

subsection \<open>Correctness of the selection\<close>

definition segment :: "'a list \<Rightarrow> nat \<Rightarrow> nat \<Rightarrow> 'a list" where
  "segment xs lo hi = take (hi - lo) (drop lo xs)"

text \<open>The specification: the element that a descending sort puts at position \<open>k\<close> from 1.\<close>

definition kth_largest :: "int list \<Rightarrow> nat \<Rightarrow> int" where
  "kth_largest xs k = rev (sort xs) ! (k - 1)"

lemma length_segment: "hi \<le> length xs \<Longrightarrow> length (segment xs lo hi) = hi - lo"
  by (simp add: segment_def)

lemma segment_split:
  "lo \<le> m \<Longrightarrow> m < hi \<Longrightarrow> hi \<le> length xs \<Longrightarrow>
     segment xs lo hi = segment xs lo m @ xs ! m # segment xs (Suc m) hi"
proof -
  assume a: "lo \<le> m" "m < hi" "hi \<le> length xs"
  have "hi - lo = (m - lo) + (hi - m)" using a by simp
  then have "take (hi - lo) (drop lo xs) =
      take (m - lo) (drop lo xs) @ take (hi - m) (drop (m - lo) (drop lo xs))"
    by (simp only: take_add)
  also have "drop (m - lo) (drop lo xs) = xs ! m # drop (Suc m) xs"
    using a by (simp add: Cons_nth_drop_Suc)
  finally show ?thesis
    using a by (simp add: segment_def take_Cons' Suc_diff_Suc)
qed

lemma set_segment: "x \<in> set (segment xs lo hi) \<Longrightarrow> hi \<le> length xs \<Longrightarrow> \<exists>m. lo \<le> m \<and> m < hi \<and> x = xs ! m"
proof -
  assume "x \<in> set (segment xs lo hi)" and hi: "hi \<le> length xs"
  then obtain i where "i < hi - lo" "x = xs ! (lo + i)"
    by (auto simp: segment_def in_set_conv_nth)
  with hi show ?thesis by (intro exI [of _ "lo + i"]) auto
qed

lemma mset_segment_cong:
  assumes "same_outside ns ns' lo hi" "lo \<le> hi" "hi \<le> length ns"
  shows "mset (segment ns' lo hi) = mset (segment ns lo hi)"
proof -
  have split: "mset xs = mset (take lo xs) + mset (segment xs lo hi) + mset (drop hi xs)"
    if "hi \<le> length xs" for xs :: "int list"
  proof -
    have "drop lo xs = take (hi - lo) (drop lo xs) @ drop hi xs"
      using assms(2) by (metis append_take_drop_id drop_drop le_add_diff_inverse add.commute)
    then show ?thesis
      by (metis append_take_drop_id mset_append segment_def add.assoc)
  qed
  have "length ns' = length ns"
    using assms(1) by (metis same_outside_def size_mset)
  then have "mset (take lo ns') + mset (segment ns' lo hi) + mset (drop hi ns') =
      mset (take lo ns) + mset (segment ns lo hi) + mset (drop hi ns)"
    using split [of ns] split [of ns'] assms by (metis same_outside_def)
  with assms(1) show ?thesis by (simp add: same_outside_def)
qed

lemma kth_largest_mset_cong: "mset xs = mset ys \<Longrightarrow> kth_largest xs k = kth_largest ys k"
  by (metis kth_largest_def sorted_list_of_multiset_mset)

lemma kth_largest_around_pivot:
  assumes "\<And>x. x \<in> set L \<Longrightarrow> x \<le> p" "\<And>x. x \<in> set R \<Longrightarrow> p < x"
    and "1 \<le> k" "k \<le> length L + 1 + length R"
  shows "kth_largest (L @ p # R) k =
     (if k = length R + 1 then p
      else if k \<le> length R then kth_largest R k
      else kth_largest L (k - length R - 1))"
proof -
  have "sort (L @ p # R) = sort L @ p # sort R"
    using assms(1,2) by (intro properties_for_sort) (fastforce simp: sorted_append)+
  then have "rev (sort (L @ p # R)) = rev (sort R) @ p # rev (sort L)" by simp
  then show ?thesis
    using assms(3,4) by (auto simp: kth_largest_def nth_append nth_Cons' le_imp_less_Suc)
qed

lemma QuickSort_selects:
  assumes "lo < hi" "hi \<le> length ns" "1 \<le> k" "k \<le> hi - lo"
  shows "QuickSort ns (int lo) (int hi) (int k) = Inr (kth_largest (segment ns lo hi) k)"
  using assms
proof (induction "hi - lo" arbitrary: ns lo hi k rule: less_induct)
  case less
  show ?case
  proof (cases "hi = lo + 1")
    case True
    then have "segment ns lo hi = [ns ! lo]"
      using less.prems segment_split [of lo lo hi ns] by (simp add: segment_def)
    with True less.prems show ?thesis
      by (subst QuickSort.simps) (simp add: kth_largest_def go_nth_def)
  next
    case False
    let ?p = "ns ! lo"
    have "partitioned ?p ns lo lo (hi - 1) hi"
      using less.prems by (auto simp: partitioned_def)
    from partitionLoop_partitions [OF this] less.prems obtain ns' m where
      loop: "partitionLoop ns ?p (int lo + 1) (int lo) (int hi - 1) = Inr (ns', int m, int m)"
      and part: "partitioned ?p ns' lo m m hi" and same: "same_outside ns ns' lo hi"
      by (auto simp: of_nat_diff)
    note P = part [unfolded partitioned_def]
    let ?L = "segment ns' lo m" and ?R = "segment ns' (Suc m) hi"
    have lens: "length ?L = m - lo" "length ?R = hi - Suc m"
      using P by (simp_all add: length_segment)
    have L: "x \<le> ?p" if "x \<in> set ?L" for x
      using set_segment [OF that] P by auto
    have R: "?p < x" if "x \<in> set ?R" for x
      using set_segment [OF that] P by auto
    have "kth_largest (segment ns lo hi) k = kth_largest (?L @ ?p # ?R) k"
      using mset_segment_cong [OF same] less.prems P segment_split [of lo m hi ns']
      by (intro kth_largest_mset_cong) simp
    also have "\<dots> = (if k = length ?R + 1 then ?p else if k \<le> length ?R then kth_largest ?R k
        else kth_largest ?L (k - length ?R - 1))"
      using L R less.prems P lens by (intro kth_largest_around_pivot) auto
    finally have spec: "kth_largest (segment ns lo hi) k =
        (if k = hi - m then ?p else if k \<le> hi - Suc m then kth_largest ?R k
         else kth_largest ?L (k - (hi - m)))"
      using P lens by (auto simp: Suc_diff_Suc)
    have right: "QuickSort ns' (int m + 1) (int hi) (int k) = Inr (kth_largest ?R k)"
      if "k \<le> hi - Suc m"
      using less.hyps [of hi "Suc m" ns' k] that less.prems P by (auto simp: add.commute)
    have left: "QuickSort ns' (int lo) (int m) (int k - (int hi - int m - 1) - 1) =
        Inr (kth_largest ?L (k - (hi - m)))" if "hi - m < k"
      using less.hyps [of m lo ns' "k - (hi - m)"] that less.prems P
      by (auto simp: of_nat_diff algebra_simps)
    have pivot: "go_nth ns (int lo) = Inr ?p" using less.prems by simp
    have "int hi \<noteq> int lo + 1" using False by simp
    then show ?thesis
      using less.prems P spec right left pivot loop
      by (subst QuickSort.simps) (auto simp: Let_def of_nat_diff)
  qed
qed

lemma findKthLargest_selects:
  assumes "1 \<le> k" "k \<le> length nums"
  shows "findKthLargest nums (int k) = Inr (kth_largest nums k)"
proof -
  have "0 < length nums" using assms by linarith
  with QuickSort_selects [of 0 "length nums" nums k] assms show ?thesis
    by (simp add: findKthLargest_def segment_def)
qed

lemma length_filter_sort: "length (filter P (rev (sort xs))) = length (filter P xs)"
  by (metis filter_sort length_rev length_sort rev_filter)

text \<open>
  How many elements lie at or above the selected one: at least \<open>k\<close>, and fewer than
  \<open>k\<close> lie strictly above it.
\<close>

lemma kth_largest_count:
  fixes xs :: "int list"
  assumes "1 \<le> k" "k \<le> length xs"
  shows "k \<le> length (filter (\<lambda>x. kth_largest xs k \<le> x) xs)"
    and "length (filter (\<lambda>x. kth_largest xs k < x) xs) < k"
proof -
  let ?ys = "rev (sort xs)" and ?v = "kth_largest xs k"
  have desc: "?ys ! j \<le> ?ys ! i" if "i \<le> j" "j < length xs" for i j
    using that sorted_sort [of xs] by (auto simp: rev_nth intro: sorted_nth_mono)
  have ge: "\<And>x. x \<in> set (take k ?ys) \<Longrightarrow> ?v \<le> x"
    using assms desc by (auto simp: kth_largest_def in_set_conv_nth)
  have le: "\<And>x. x \<in> set (drop (k - 1) ?ys) \<Longrightarrow> x \<le> ?v"
    using assms desc by (auto simp: kth_largest_def in_set_conv_nth)
  have "filter (\<lambda>x. ?v \<le> x) (take k ?ys) = take k ?ys" using ge by simp
  then have "k \<le> length (filter (\<lambda>x. ?v \<le> x) (take k ?ys @ drop k ?ys))"
    using assms by (simp only: filter_append length_append) simp
  then show "k \<le> length (filter (\<lambda>x. ?v \<le> x) xs)"
    using length_filter_sort [of "\<lambda>x. ?v \<le> x" xs] by simp
  have "filter (\<lambda>x. ?v < x) (drop (k - 1) ?ys) = []" using le by (auto simp: filter_empty_conv not_less)
  then have "length (filter (\<lambda>x. ?v < x) (take (k - 1) ?ys @ drop (k - 1) ?ys)) \<le> k - 1"
    by (simp only: filter_append length_append)
       (metis (no_types, lifting) add.right_neutral le_trans length_filter_le length_take list.size(3) min.cobounded2)
  then show "length (filter (\<lambda>x. ?v < x) xs) < k"
    using assms length_filter_sort [of "\<lambda>x. ?v < x" xs] by simp
qed

subsection \<open>Properties\<close>

text \<open>
  Claim C8. For every array and every \<open>k\<close> from 1 to its length, the quickselect
  \<open>findKthLargest\<close> terminates without an index panic and returns the element at position
  \<open>k\<close> of the array sorted in descending order.
\<close>

theorem findKthLargest_correct:
  assumes "1 \<le> k" "k \<le> length nums"
  shows "findKthLargest nums (int k) = Inr (rev (sort nums) ! (k - 1))"
  using findKthLargest_selects [OF assms] by (simp add: kth_largest_def)

theorem findKthLargest_correct_witness:
  "findKthLargest [5, 1, 4, 4, 9] 3 = Inr (rev (sort [5, 1, 4, 4, 9]) ! (3 - 1)) \<and>
   findKthLargest [5, 1, 4, 4, 9] 3 = Inr 4"
  using findKthLargest_correct [of 3 "[5, 1, 4, 4, 9]"] by simp

end
