(* ===== verification/Persister.thy ===== *)
theory Persister
  imports Go_Prelude
begin

section \<open>raft/persister.go: the store that survives a crash\<close>

text \<open>
  The persister keeps two byte strings, the Raft state and the snapshot. Their contents
  are written by one component and read back by the same component, so the type \<open>'b\<close>
  of a stored blob is a parameter; the nil slice of a fresh persister is \<open>None\<close>. Every
  method of the source runs under the persister's mutex, so each is one atomic operation.
\<close>

record 'b Persister =
  raftstate :: "'b option"
  snapshot :: "'b option"

definition MakePersister :: "'b Persister" where
  "MakePersister = \<lparr>raftstate = None, snapshot = None\<rparr>"

definition Copy :: "'b Persister \<Rightarrow> 'b Persister" where
  "Copy ps = MakePersister\<lparr>raftstate := raftstate ps, snapshot := snapshot ps\<rparr>"

definition SaveRaftState :: "'b \<Rightarrow> 'b Persister \<Rightarrow> 'b Persister" where
  "SaveRaftState st ps = ps\<lparr>raftstate := Some st\<rparr>"

definition ReadRaftState :: "'b Persister \<Rightarrow> 'b option" where
  "ReadRaftState ps = raftstate ps"

definition RaftStateSize :: "('b \<Rightarrow> nat) \<Rightarrow> 'b Persister \<Rightarrow> nat" where
  "RaftStateSize len ps = (case raftstate ps of None \<Rightarrow> 0 | Some st \<Rightarrow> len st)"

definition SaveStateAndSnapshot :: "'b \<Rightarrow> 'b \<Rightarrow> 'b Persister \<Rightarrow> 'b Persister" where
  "SaveStateAndSnapshot st snap ps = ps\<lparr>raftstate := Some st, snapshot := Some snap\<rparr>"

definition ReadSnapshot :: "'b Persister \<Rightarrow> 'b option" where
  "ReadSnapshot ps = snapshot ps"

definition SnapshotSize :: "('b \<Rightarrow> nat) \<Rightarrow> 'b Persister \<Rightarrow> nat" where
  "SnapshotSize len ps = (case snapshot ps of None \<Rightarrow> 0 | Some snap \<Rightarrow> len snap)"

subsection \<open>The interface a client of the store relies on\<close>

text \<open>
  What Raft needs of its store: a save is what the next read returns, and a copy (the
  tester hands a copy to the restarted server) reads the same.
\<close>

locale stable_store =
  fixes save :: "'b \<Rightarrow> 's \<Rightarrow> 's" and load :: "'s \<Rightarrow> 'b option" and dup :: "'s \<Rightarrow> 's"
  assumes load_save: "load (save x s) = Some x"
    and load_dup: "load (dup s) = load s"
begin

lemma load_dup_save: "load (dup (save x s)) = Some x"
  by (simp add: load_dup load_save)

lemma load_after_saves: "load (fold save (xs @ [x]) s) = Some x"
  by (simp add: load_save)

end

interpretation raft_store: stable_store SaveRaftState ReadRaftState Copy
  by unfold_locales (simp_all add: SaveRaftState_def ReadRaftState_def Copy_def MakePersister_def)

lemma SaveRaftState_keeps_snapshot: "ReadSnapshot (SaveRaftState st ps) = ReadSnapshot ps"
  by (simp add: SaveRaftState_def ReadSnapshot_def)

lemma SaveStateAndSnapshot_reads:
  "ReadRaftState (SaveStateAndSnapshot st snap ps) = Some st"
  "ReadSnapshot (SaveStateAndSnapshot st snap ps) = Some snap"
  by (simp_all add: SaveStateAndSnapshot_def ReadRaftState_def ReadSnapshot_def)

end
