(* ===== verification/Raft_Node.thy ===== *)
theory Raft_Node
  imports Raft_Util Persister
begin

section \<open>raft/raft.go: one Raft server\<close>

text \<open>
  The state of one server and every operation that changes it, in the order of the source.
  An operation is the body that runs under \<open>rf.mu\<close>; it takes the server's record and
  returns the new record with the reply, or the run-time error that ends it.

  What is not a field of the struct but local to its goroutines is kept in the record too:
  \<^item> \<open>hbs\<close>: the running \<open>heartbeatRoutine\<close> goroutines, each at one of the two \<open>select\<close>
    statements that can receive from \<open>notLeaderCh\<close> (the one of \<open>heartbeatRoutine\<close>, or the
    one in the loop of \<open>leaderAppendLog\<close>, with the next peer and the captured term);
  \<^item> \<open>votes\<close>: the closure variable \<open>vote\<close> of each call of \<open>candidateRequestVote\<close>, found
    by the term the call started (each call starts a new term);
  \<^item> \<open>electionTimer\<close>: whether the timer is armed;
  \<^item> \<open>shutDown\<close>: whether \<open>shutDownCh\<close> is closed.

  A send on the unbuffered \<open>notLeaderCh\<close> completes only with a receiver, so the operations
  that may send take the position \<open>recv\<close> of the goroutine that receives; with no such
  goroutine the sender waits for ever while it holds the mutex (\<open>Blocked\<close>).

  Commands (\<open>interface{}\<close>) are a type parameter \<open>'c\<close>. The encoding of the persistent state
  is the sequence of the values that \<open>persist\<close> hands to the encoder, in order.
\<close>

subsection \<open>Data\<close>

datatype ServerState = Follower | Candidate | Leader

record 'c LogEntry =
  Term :: int
  Index :: int
  Command :: 'c

record 'c ApplyMsg =
  CommandValid :: bool
  MsgCommand :: 'c
  CommandIndex :: int

datatype 'c gobval = GobState ServerState | GobInt int | GobLogs "'c LogEntry list"

datatype hb_pc = HbSelect | HbSend int int

record 'c Raft =
  peers :: int
  me :: int
  state :: ServerState
  currentTerm :: int
  votedFor :: int
  logs :: "'c LogEntry list"
  leader :: int
  electionTimer :: bool
  commitIndex :: int
  lastApplied :: int
  nextIndex :: "int list"
  matchIndex :: "int list"
  persister :: "'c gobval list Persister"
  votes :: "int \<Rightarrow> int"
  hbs :: "hb_pc list"
  shutDown :: bool

record RequestVoteArgs =
  CandidateTerm :: int
  CandidateID :: int
  LastLogIndex :: int
  LastLogTerm :: int
  RVA_MsgNo :: "64 word"

record RequestVoteReply =
  CurrentTerm :: int
  VoteGranted :: bool
  RVR_MsgNo :: "64 word"

record 'c AppendEntryArg =
  AE_Term :: int
  AE_Leader :: int
  PrevLogIndex :: int
  PrevLogTerm :: int
  Entries :: "'c LogEntry list"
  LeaderCommitIndex :: int
  AEA_MsgNo :: "64 word"

record AppendEntryReply =
  AER_Term :: int
  FirstIndex :: int
  Success :: bool
  AER_MsgNo :: "64 word"

subsection \<open>Small operations\<close>

definition getMsgNo :: "64 word \<Rightarrow> 64 word" where
  "getMsgNo msgNo = msgNo + 1"

definition GetState :: "'c Raft \<Rightarrow> int \<times> bool" where
  "GetState rf = (currentTerm rf, leader rf = me rf)"

definition lastEntry :: "'c Raft \<Rightarrow> 'c LogEntry go" where
  "lastEntry rf = go_nth (logs rf) (int (length (logs rf)) - 1)"

definition resetTimer :: "'c Raft \<Rightarrow> 'c Raft" where
  "resetTimer rf = rf\<lparr>electionTimer := True\<rparr>"

definition stopTimer :: "'c Raft \<Rightarrow> 'c Raft" where
  "stopTimer rf = rf\<lparr>electionTimer := False\<rparr>"

definition remove_nth :: "nat \<Rightarrow> 'a list \<Rightarrow> 'a list" where
  "remove_nth k xs = take k xs @ drop (Suc k) xs"

text \<open>
  \<open>rf.notLeaderCh <- struct{}{}\<close>: a goroutine at the \<open>select\<close> of \<open>heartbeatRoutine\<close>
  returns; one in the loop of \<open>leaderAppendLog\<close> only leaves that call and goes back to
  \<open>heartbeatRoutine\<close>.
\<close>

definition notLeaderSend :: "nat \<Rightarrow> 'c Raft \<Rightarrow> 'c Raft go" where
  "notLeaderSend recv rf =
     (if recv < length (hbs rf) then
        (case hbs rf ! recv of
           HbSelect \<Rightarrow> Inr (rf\<lparr>hbs := remove_nth recv (hbs rf)\<rparr>)
         | HbSend p t \<Rightarrow>
             if p < peers rf then Inr (rf\<lparr>hbs := (hbs rf)[recv := HbSelect]\<rparr>) else Inl Blocked)
      else Inl Blocked)"

definition turnToFollower :: "nat \<Rightarrow> int \<Rightarrow> 'c Raft \<Rightarrow> 'c Raft go" where
  "turnToFollower recv trm rf =
     bindE (if state rf = Leader then notLeaderSend recv rf else Inr rf) (\<lambda>rf.
     Inr (resetTimer (rf\<lparr>state := Follower, currentTerm := trm, votedFor := -1, leader := -1\<rparr>)))"

subsection \<open>Persistence\<close>

definition persist :: "'c Raft \<Rightarrow> 'c Raft" where
  "persist rf = rf\<lparr>persister := SaveRaftState
     [GobState (state rf), GobInt (currentTerm rf), GobInt (votedFor rf), GobLogs (logs rf)]
     (persister rf)\<rparr>"

text \<open>
  \<open>Decode(&x)\<close> takes the next value of the stream; at the end of the stream, or when
  the value has another type, it returns an error that the source ignores and \<open>x\<close> keeps
  its value.
\<close>

fun decodeState :: "'c gobval list \<Rightarrow> ServerState \<Rightarrow> ServerState \<times> 'c gobval list" where
  "decodeState (GobState s # d) _ = (s, d)"
| "decodeState (_ # d) s = (s, d)"
| "decodeState [] s = (s, [])"

fun decodeInt :: "'c gobval list \<Rightarrow> int \<Rightarrow> int \<times> 'c gobval list" where
  "decodeInt (GobInt i # d) _ = (i, d)"
| "decodeInt (_ # d) i = (i, d)"
| "decodeInt [] i = (i, [])"

fun decodeLogs :: "'c gobval list \<Rightarrow> 'c LogEntry list \<Rightarrow> 'c LogEntry list \<times> 'c gobval list" where
  "decodeLogs (GobLogs l # d) _ = (l, d)"
| "decodeLogs (_ # d) l = (l, d)"
| "decodeLogs [] l = (l, [])"

definition readPersist :: "'c gobval list option \<Rightarrow> 'c Raft \<Rightarrow> 'c Raft" where
  "readPersist data rf =
     (case data of
        None \<Rightarrow> rf
      | Some d \<Rightarrow>
          if length d < 1 then rf
          else
            (let (s, d) = decodeState d (state rf);
                 (t, d) = decodeInt d (currentTerm rf);
                 (v, d) = decodeInt d (votedFor rf);
                 (l, d) = decodeLogs d (logs rf)
             in rf\<lparr>state := s, currentTerm := t, votedFor := v, logs := l\<rparr>))"

subsection \<open>Elections\<close>

text \<open>
  \<open>RequestVote\<close> first adopts a newer term; unlike \<open>turnToFollower\<close> this resets the timer
  only when the server was the leader.
\<close>

definition adoptTerm :: "nat \<Rightarrow> int \<Rightarrow> 'c Raft \<Rightarrow> 'c Raft go" where
  "adoptTerm recv trm rf =
     (if currentTerm rf < trm then
        bindE (if state rf = Leader
               then bindE (notLeaderSend recv rf) (\<lambda>rf. Inr (resetTimer rf))
               else Inr rf) (\<lambda>rf.
        Inr (rf\<lparr>state := Follower, currentTerm := trm, votedFor := -1, leader := -1\<rparr>))
      else Inr rf)"

definition RequestVote ::
  "nat \<Rightarrow> RequestVoteArgs \<Rightarrow> 'c Raft \<Rightarrow> ('c Raft \<times> RequestVoteReply) go" where
  "RequestVote recv args rf =
     (let reply = \<lparr>CurrentTerm = 0, VoteGranted = False, RVR_MsgNo = RVA_MsgNo args\<rparr> in
      bindE (adoptTerm recv (CandidateTerm args) rf) (\<lambda>rf.
      if currentTerm rf > CandidateTerm args then
        Inr (persist rf, reply\<lparr>CurrentTerm := currentTerm rf, VoteGranted := False\<rparr>)
      else if votedFor rf = -1 \<or> votedFor rf = CandidateID args then
        bindE (lastEntry rf) (\<lambda>lst.
        let vote = (if LastLogTerm args = Term lst then LastLogIndex args \<ge> Index lst
                    else LastLogTerm args > Term lst) in
        if vote then
          Inr (persist (resetTimer (rf\<lparr>state := Follower, currentTerm := CandidateTerm args,
                                       votedFor := CandidateID args, leader := CandidateID args\<rparr>)),
               reply\<lparr>VoteGranted := True\<rparr>)
        else
          Inr (persist rf, reply\<lparr>VoteGranted := False, CurrentTerm := -1\<rparr>))
      else
        Inr (persist rf, reply\<lparr>VoteGranted := False\<rparr>)))"

definition electionSuccessReset :: "'c Raft \<Rightarrow> 'c Raft go" where
  "electionSuccessReset rf =
     (let rf = rf\<lparr>state := Leader, leader := me rf\<rparr>; n = nat (peers rf) in
      bindE (lastEntry rf) (\<lambda>lst.
      if length (nextIndex rf) < n \<or> length (matchIndex rf) < n then Inl IndexOutOfRange
      else
        bindE (go_update (replicate n 0 @ drop n (matchIndex rf)) (me rf) (Index lst)) (\<lambda>mi.
        Inr (rf\<lparr>nextIndex := replicate n (Index lst + 1) @ drop n (nextIndex rf),
                matchIndex := mi\<rparr>))))"

text \<open>The part of \<open>candidateRequestVote\<close> under the mutex, with the request for every peer.\<close>

definition candidateRequestVote :: "64 word \<Rightarrow> 'c Raft \<Rightarrow> ('c Raft \<times> RequestVoteArgs) go" where
  "candidateRequestVote no rf =
     (let rf = resetTimer rf;
          rf = rf\<lparr>state := Candidate, currentTerm := currentTerm rf + 1, votedFor := me rf\<rparr> in
      bindE (lastEntry rf) (\<lambda>lst.
      Inr (rf\<lparr>votes := (votes rf)(currentTerm rf := 1)\<rparr>,
           \<lparr>CandidateTerm = currentTerm rf, CandidateID = me rf,
            LastLogIndex = Index lst, LastLogTerm = Term lst, RVA_MsgNo = no\<rparr>)))"

text \<open>
  The closure \<open>replyHandler\<close>; \<open>trm\<close> is the term captured when the election began. A call
  whose RPC failed hands it a zero reply.
\<close>

definition replyHandler :: "nat \<Rightarrow> RequestVoteReply \<Rightarrow> int \<Rightarrow> 'c Raft \<Rightarrow> 'c Raft go" where
  "replyHandler recv reply trm rf =
     (if currentTerm rf > trm then Inr rf
      else
        bindE (if VoteGranted reply = False \<and> CurrentTerm reply > currentTerm rf
               then turnToFollower recv (CurrentTerm reply) rf else Inr rf) (\<lambda>rf.
        if state rf = Candidate \<and> VoteGranted reply then
          (let vote = votes rf trm + 1;
               rf = rf\<lparr>votes := (votes rf)(trm := vote)\<rparr> in
           if vote * 2 > peers rf then
             bindE (electionSuccessReset (stopTimer rf)) (\<lambda>rf.
             Inr (rf\<lparr>hbs := hbs rf @ [HbSelect]\<rparr>))
           else Inr rf)
        else Inr rf))"

subsection \<open>Log replication\<close>

definition applyMsgOf :: "'c LogEntry \<Rightarrow> 'c ApplyMsg" where
  "applyMsgOf e = \<lparr>CommandValid = True, MsgCommand = Command e, CommandIndex = Index e\<rparr>"

text \<open>
  One iteration of \<open>applyEntryRoutine\<close>: it waits (\<open>Blocked\<close>) until something committed is
  not applied, takes it under the mutex and then sends it on \<open>applyCh\<close>.
\<close>

definition applyEntryRoutine :: "'c Raft \<Rightarrow> ('c Raft \<times> 'c ApplyMsg list) go" where
  "applyEntryRoutine rf =
     (if shutDown rf then Inr (rf, [])
      else if lastApplied rf < commitIndex rf then
        bindE (go_slice (logs rf) (lastApplied rf + 1) (commitIndex rf + 1)) (\<lambda>es.
        Inr (rf\<lparr>lastApplied := commitIndex rf\<rparr>, map applyMsgOf es))
      else Inl Blocked)"

text \<open>The search for the first entry with the term of the collision.\<close>

fun firstIndexOf :: "int \<Rightarrow> 'c LogEntry list \<Rightarrow> int" where
  "firstIndexOf t [] = 1"
| "firstIndexOf t (e # es) = (if Term e = t then Index e else firstIndexOf t es)"

text \<open>A message of the current leader ends a candidacy in the same term and resets the timer.\<close>

definition acceptLeader :: "'c Raft \<Rightarrow> 'c Raft" where
  "acceptLeader rf = resetTimer (if state rf = Candidate then rf\<lparr>state := Follower\<rparr> else rf)"

definition AppendEntry ::
  "nat \<Rightarrow> 'c AppendEntryArg \<Rightarrow> 'c Raft \<Rightarrow> ('c Raft \<times> AppendEntryReply) go" where
  "AppendEntry recv args rf =
     (let reply = \<lparr>AER_Term = 0, FirstIndex = 0, Success = False, AER_MsgNo = AEA_MsgNo args\<rparr> in
      bindE (if AE_Term args > currentTerm rf then turnToFollower recv (AE_Term args) rf
             else Inr rf) (\<lambda>rf.
      if AE_Term args < currentTerm rf then
        Inr (persist rf, reply\<lparr>Success := False, AER_Term := currentTerm rf\<rparr>)
      else
        (let rf = acceptLeader rf in
         bindE (lastEntry rf) (\<lambda>lst.
         bindE (if PrevLogIndex args \<le> Index lst
                then bindE (go_nth (logs rf) (PrevLogIndex args)) (\<lambda>e.
                     Inr (PrevLogTerm args = Term e))
                else Inr False) (\<lambda>ok.
         if ok then
           bindE (go_slice (logs rf) 0 (PrevLogIndex args + 1)) (\<lambda>kept.
           let rf = rf\<lparr>logs := kept @ Entries args\<rparr>;
               rf = (if LeaderCommitIndex args > commitIndex rf
                     then rf\<lparr>commitIndex := LeaderCommitIndex args\<rparr> else rf)
           in Inr (persist rf, reply\<lparr>Success := True\<rparr>))
         else
           Inr (persist rf, reply\<lparr>AER_Term := -1, Success := False,
                                  FirstIndex := firstIndexOf (PrevLogTerm args) (logs rf)\<rparr>))))))"

definition leaderTryUpdateCommitIndex :: "'c Raft \<Rightarrow> 'c Raft go" where
  "leaderTryUpdateCommitIndex rf =
     (let majority = peers rf div 2 + 1 in
      bindE (findKthLargest (matchIndex rf) majority) (\<lambda>majority_commit_index.
      if commitIndex rf < majority_commit_index then
        bindE (go_nth (logs rf) majority_commit_index) (\<lambda>e.
        if Term e = currentTerm rf
        then Inr (rf\<lparr>commitIndex := majority_commit_index\<rparr>)
        else Inr rf)
      else Inr rf))"

definition AppendLogReplyHandler ::
  "nat \<Rightarrow> int \<Rightarrow> AppendEntryReply \<Rightarrow> int \<Rightarrow> 'c Raft \<Rightarrow> 'c Raft go" where
  "AppendLogReplyHandler recv peerID reply curIndex rf =
     bindE (if Success reply = False \<and> AER_Term reply \<noteq> -1 \<and> AER_Term reply > currentTerm rf
            then turnToFollower recv (AER_Term reply) rf else Inr rf) (\<lambda>rf.
     if state rf = Leader then
       (if Success reply = False \<and> AER_Term reply = -1 then
          bindE (go_nth (nextIndex rf) peerID) (\<lambda>nx.
          bindE (go_nth (matchIndex rf) peerID) (\<lambda>mt.
          bindE (go_update (nextIndex rf) peerID
                   (Max (Min (nx - 1) (FirstIndex reply - 1)) (mt + 1))) (\<lambda>ni.
          Inr (rf\<lparr>nextIndex := ni\<rparr>))))
        else if Success reply = True then
          bindE (go_nth (nextIndex rf) peerID) (\<lambda>nx.
          bindE (go_update (nextIndex rf) peerID (Max (curIndex + 1) nx)) (\<lambda>ni.
          bindE (go_nth (matchIndex rf) peerID) (\<lambda>mt.
          bindE (go_update (matchIndex rf) peerID (Max curIndex mt)) (\<lambda>mi.
          leaderTryUpdateCommitIndex (rf\<lparr>nextIndex := ni, matchIndex := mi\<rparr>)))))
        else Inr rf)
     else Inr rf)"

text \<open>The closure \<open>sendEntry\<close>: the request built for one peer.\<close>

definition sendEntry :: "int \<Rightarrow> int \<Rightarrow> 64 word \<Rightarrow> 'c Raft \<Rightarrow> 'c AppendEntryArg go" where
  "sendEntry peerID trm no rf =
     bindE (go_nth (nextIndex rf) peerID) (\<lambda>nx.
     bindE (go_nth (logs rf) (nx - 1)) (\<lambda>prev.
     if int (length (logs rf)) - nx < 0 then Inl MakeSliceLenOutOfRange
     else
       bindE (go_slice (logs rf) nx (int (length (logs rf)))) (\<lambda>es.
       Inr \<lparr>AE_Term = trm, AE_Leader = me rf, PrevLogIndex = nx - 1, PrevLogTerm = Term prev,
            Entries = es, LeaderCommitIndex = commitIndex rf, AEA_MsgNo = no\<rparr>)))"

text \<open>
  One step of a \<open>heartbeatRoutine\<close> goroutine. From its own \<open>select\<close> it returns when the
  server is shut down and otherwise enters \<open>leaderAppendLog\<close>, which captures the term.
  There each round of the loop skips the server itself and sends to every other peer;
  once \<open>shutDownCh\<close> is closed the rounds send nothing.
\<close>

definition heartbeatStep ::
  "nat \<Rightarrow> 64 word \<Rightarrow> 'c Raft \<Rightarrow> ('c Raft \<times> (int \<times> 'c AppendEntryArg) option) go" where
  "heartbeatStep k no rf =
     (if length (hbs rf) \<le> k then Inl Blocked
      else case hbs rf ! k of
        HbSelect \<Rightarrow>
          if shutDown rf then Inr (rf\<lparr>hbs := remove_nth k (hbs rf)\<rparr>, None)
          else Inr (rf\<lparr>hbs := (hbs rf)[k := HbSend 0 (currentTerm rf)]\<rparr>, None)
      | HbSend p t \<Rightarrow>
          if peers rf \<le> p then Inr (rf\<lparr>hbs := (hbs rf)[k := HbSelect]\<rparr>, None)
          else
            (let rf' = rf\<lparr>hbs := (hbs rf)[k := HbSend (p + 1) t]\<rparr> in
             if shutDown rf \<or> p = me rf then Inr (rf', None)
             else bindE (sendEntry p t no rf) (\<lambda>args. Inr (rf', Some (p, args)))))"

subsection \<open>The interface to the service\<close>

definition Start :: "'c \<Rightarrow> 'c Raft \<Rightarrow> ('c Raft \<times> int \<times> int \<times> bool) go" where
  "Start command rf =
     (if state rf \<noteq> Leader then Inr (rf, -1, -1, False)
      else
        (let index = int (length (logs rf)); trm = currentTerm rf;
             rf = rf\<lparr>logs := logs rf @ [\<lparr>Term = trm, Index = index, Command = command\<rparr>]\<rparr> in
         bindE (go_update (nextIndex rf) (me rf) (index + 1)) (\<lambda>ni.
         bindE (go_update (matchIndex rf) (me rf) index) (\<lambda>mi.
         Inr (persist (rf\<lparr>nextIndex := ni, matchIndex := mi\<rparr>), index, trm, True)))))"

definition Kill :: "'c Raft \<Rightarrow> 'c Raft go" where
  "Kill rf = (if shutDown rf then Inl CloseOfClosedChannel else Inr (rf\<lparr>shutDown := True\<rparr>))"

text \<open>\<open>Make\<close>; \<open>zero\<close> is the command \<open>0\<close> of the dummy entry.\<close>

definition freshRaft :: "'c \<Rightarrow> int \<Rightarrow> int \<Rightarrow> 'c gobval list Persister \<Rightarrow> 'c Raft" where
  "freshRaft zero n i ps =
     \<lparr>peers = n, me = i, state = Follower, currentTerm = 0, votedFor = -1,
      logs = [\<lparr>Term = 0, Index = 0, Command = zero\<rparr>], leader = -1, electionTimer = False,
      commitIndex = -1, lastApplied = -1,
      nextIndex = replicate (nat n) 0, matchIndex = replicate (nat n) 0,
      persister = ps, votes = (\<lambda>_. 0), hbs = [], shutDown = False\<rparr>"

definition Make :: "'c \<Rightarrow> int \<Rightarrow> int \<Rightarrow> 'c gobval list Persister \<Rightarrow> 'c Raft go" where
  "Make zero n i ps =
     (let rf = freshRaft zero n i ps;
          rf = readPersist (ReadRaftState ps) rf;
          rf = rf\<lparr>electionTimer := True\<rparr> in
      if state rf = Leader then
        bindE (electionSuccessReset (stopTimer rf)) (\<lambda>rf.
        Inr (rf\<lparr>hbs := hbs rf @ [HbSelect]\<rparr>))
      else Inr rf)"

end
