(* ===== verification/Raft_Ops.thy ===== *)
theory Raft_Ops
  imports Raft_Node
begin

section \<open>What the operations of a Raft server do\<close>

text \<open>
  \<open>node_ok\<close> is what every operation of a server keeps: the log starts with the dummy
  entry and numbers its entries consecutively, the index arrays have one element per
  peer, and a leader has a heartbeat goroutine and index arrays that stay inside its log.
  For each operation of \<open>Raft_Node\<close> this theory has its outcome on every branch (as an
  equation or on the fields of the record), that it does not panic on a well-formed
  server, and that it keeps \<open>node_ok\<close>.
\<close>

subsection \<open>Well-formed servers and messages\<close>

definition log_ok :: "'c LogEntry list \<Rightarrow> bool" where
  "log_ok l \<longleftrightarrow> l \<noteq> [] \<and> (\<forall>i < length l. Index (l ! i) = int i)"

definition ae_ok :: "'c AppendEntryArg \<Rightarrow> bool" where
  "ae_ok args \<longleftrightarrow> 0 \<le> PrevLogIndex args \<and>
     (\<forall>k < length (Entries args). Index (Entries args ! k) = PrevLogIndex args + 1 + int k)"

definition leader_ok :: "'c Raft \<Rightarrow> bool" where
  "leader_ok rf \<longleftrightarrow> hbs rf \<noteq> [] \<and> votedFor rf = me rf \<and>
     (\<forall>x \<in> set (nextIndex rf). 1 \<le> x \<and> x \<le> int (length (logs rf))) \<and>
     (\<forall>m \<in> set (matchIndex rf). 0 \<le> m \<and> m < int (length (logs rf)))"

definition node_ok :: "'c Raft \<Rightarrow> bool" where
  "node_ok rf \<longleftrightarrow> 0 \<le> me rf \<and> me rf < peers rf \<and> log_ok (logs rf) \<and>
     length (nextIndex rf) = nat (peers rf) \<and> length (matchIndex rf) = nat (peers rf) \<and>
     -1 \<le> lastApplied rf \<and> lastApplied rf \<le> commitIndex rf \<and> -1 \<le> votedFor rf \<and>
     (state rf = Candidate \<longrightarrow> votedFor rf = me rf) \<and> (state rf = Leader \<longrightarrow> leader_ok rf)"

text \<open>A goroutine that can take the message of \<open>notLeaderCh\<close>.\<close>

definition recv_ok :: "nat \<Rightarrow> 'c Raft \<Rightarrow> bool" where
  "recv_ok recv rf \<longleftrightarrow> recv < length (hbs rf) \<and>
     (case hbs rf ! recv of HbSelect \<Rightarrow> True | HbSend p t \<Rightarrow> p < peers rf)"

lemmas node_defs = node_ok_def leader_ok_def

lemmas handler_defs = RequestVote_def candidateRequestVote_def replyHandler_def AppendEntry_def
  AppendLogReplyHandler_def leaderTryUpdateCommitIndex_def heartbeatStep_def sendEntry_def
  Start_def Kill_def applyEntryRoutine_def

subsection \<open>Logs\<close>

lemma log_ok_last [simp]: "log_ok l \<Longrightarrow> Index (last l) = int (length l) - 1"
  by (cases l rule: rev_cases) (auto simp: log_ok_def nth_append)

lemma lastEntry_log_ok: "log_ok (logs rf) \<Longrightarrow> lastEntry rf = Inr (last (logs rf))"
  by (auto simp: log_ok_def lastEntry_def go_nth_def last_conv_nth nat_diff_distrib Suc_le_eq)

lemma lastEntry_cong [simp]:
  "lastEntry (rf\<lparr>state := s\<rparr>) = lastEntry rf" "lastEntry (rf\<lparr>leader := l\<rparr>) = lastEntry rf"
  "lastEntry (rf\<lparr>votedFor := v\<rparr>) = lastEntry rf" "lastEntry (rf\<lparr>currentTerm := t\<rparr>) = lastEntry rf"
  "lastEntry (rf\<lparr>electionTimer := b\<rparr>) = lastEntry rf" "lastEntry (rf\<lparr>hbs := h\<rparr>) = lastEntry rf"
  "lastEntry (rf\<lparr>votes := w\<rparr>) = lastEntry rf"
  by (simp_all add: lastEntry_def)

lemma log_ok_snoc:
  "log_ok l \<Longrightarrow> log_ok (l @ [\<lparr>Term = t, Index = int (length l), Command = c\<rparr>])"
  by (auto simp: log_ok_def nth_append less_Suc_eq)

lemma log_ok_splice:
  assumes "log_ok l" "0 \<le> p" "p < int (length l)"
    and "\<forall>k < length es. Index (es ! k) = p + 1 + int k"
  shows "log_ok (take (nat (p + 1)) l @ es)"
  using assms by (auto simp: log_ok_def nth_append min_def nat_add_distrib)

subsection \<open>The small operations\<close>

lemma resetTimer_simps [simp]:
  "state (resetTimer rf) = state rf" "currentTerm (resetTimer rf) = currentTerm rf"
  "votedFor (resetTimer rf) = votedFor rf" "logs (resetTimer rf) = logs rf"
  "peers (resetTimer rf) = peers rf" "me (resetTimer rf) = me rf" "votes (resetTimer rf) = votes rf"
  "hbs (resetTimer rf) = hbs rf" "nextIndex (resetTimer rf) = nextIndex rf"
  "matchIndex (resetTimer rf) = matchIndex rf" "commitIndex (resetTimer rf) = commitIndex rf"
  "lastApplied (resetTimer rf) = lastApplied rf" "lastEntry (resetTimer rf) = lastEntry rf"
  "shutDown (resetTimer rf) = shutDown rf" "persister (resetTimer rf) = persister rf"
  "leader (resetTimer rf) = leader rf"
  by (simp_all add: resetTimer_def)

lemma stopTimer_simps [simp]:
  "state (stopTimer rf) = state rf" "currentTerm (stopTimer rf) = currentTerm rf"
  "votedFor (stopTimer rf) = votedFor rf" "logs (stopTimer rf) = logs rf"
  "peers (stopTimer rf) = peers rf" "me (stopTimer rf) = me rf" "votes (stopTimer rf) = votes rf"
  "hbs (stopTimer rf) = hbs rf" "nextIndex (stopTimer rf) = nextIndex rf"
  "matchIndex (stopTimer rf) = matchIndex rf" "commitIndex (stopTimer rf) = commitIndex rf"
  "lastApplied (stopTimer rf) = lastApplied rf" "lastEntry (stopTimer rf) = lastEntry rf"
  "shutDown (stopTimer rf) = shutDown rf" "persister (stopTimer rf) = persister rf"
  by (simp_all add: stopTimer_def)

lemma persist_simps [simp]:
  "state (persist rf) = state rf" "currentTerm (persist rf) = currentTerm rf"
  "votedFor (persist rf) = votedFor rf" "logs (persist rf) = logs rf"
  "peers (persist rf) = peers rf" "me (persist rf) = me rf" "votes (persist rf) = votes rf"
  "hbs (persist rf) = hbs rf" "nextIndex (persist rf) = nextIndex rf"
  "matchIndex (persist rf) = matchIndex rf" "commitIndex (persist rf) = commitIndex rf"
  "lastApplied (persist rf) = lastApplied rf" "shutDown (persist rf) = shutDown rf"
  "leader (persist rf) = leader rf"
  by (simp_all add: persist_def)

lemma node_ok_persist [simp]: "node_ok (persist rf) = node_ok rf"
  by (simp add: node_defs)

lemma notLeaderSend_frame: "notLeaderSend recv rf = Inr rf' \<Longrightarrow> rf' = rf\<lparr>hbs := hbs rf'\<rparr>"
  unfolding notLeaderSend_def by (auto split: if_splits hb_pc.splits)

lemma notLeaderSend_ok: "recv_ok recv rf \<Longrightarrow> isOk (notLeaderSend recv rf)"
  by (auto simp: notLeaderSend_def recv_ok_def split: hb_pc.splits)

text \<open>What \<open>turnToFollower\<close> leaves in every field; only the goroutines depend on \<open>recv\<close>.\<close>

lemma turnToFollower_fields:
  assumes "turnToFollower recv t rf = Inr rf'"
  shows "state rf' = Follower" "currentTerm rf' = t" "votedFor rf' = -1" "leader rf' = -1"
    "peers rf' = peers rf" "me rf' = me rf" "logs rf' = logs rf" "commitIndex rf' = commitIndex rf"
    "lastApplied rf' = lastApplied rf" "nextIndex rf' = nextIndex rf"
    "matchIndex rf' = matchIndex rf" "persister rf' = persister rf" "votes rf' = votes rf"
    "shutDown rf' = shutDown rf" "state rf \<noteq> Leader \<Longrightarrow> hbs rf' = hbs rf"
proof -
  from assms obtain rf1 where
    send: "(if state rf = Leader then notLeaderSend recv rf else Inr rf) = Inr rf1" and
    rf': "rf' = resetTimer (rf1\<lparr>state := Follower, currentTerm := t, votedFor := -1, leader := -1\<rparr>)"
    by (auto simp: turnToFollower_def bindE_eq_Inr_iff)
  have rf1: "rf1 = rf\<lparr>hbs := hbs rf1\<rparr>" and same: "state rf \<noteq> Leader \<Longrightarrow> rf1 = rf"
    using send notLeaderSend_frame [of recv rf rf1] by (auto split: if_splits)
  show "state rf' = Follower" "currentTerm rf' = t" "votedFor rf' = -1" "leader rf' = -1"
    by (simp_all add: rf')
  show "peers rf' = peers rf" "me rf' = me rf" "logs rf' = logs rf" "commitIndex rf' = commitIndex rf"
    "lastApplied rf' = lastApplied rf" "nextIndex rf' = nextIndex rf"
    "matchIndex rf' = matchIndex rf" "persister rf' = persister rf" "votes rf' = votes rf"
    "shutDown rf' = shutDown rf"
    by (subst rf', subst rf1, simp)+
  show "hbs rf' = hbs rf" if "state rf \<noteq> Leader"
    using same [OF that] by (simp add: rf')
qed

lemma turnToFollower_ok:
  "(state rf = Leader \<Longrightarrow> recv_ok recv rf) \<Longrightarrow> isOk (turnToFollower recv t rf)"
  using notLeaderSend_ok [of recv rf]
  by (cases "state rf = Leader") (auto simp: turnToFollower_def isOk_bindE isOk_iff)

lemma node_ok_turnToFollower:
  "node_ok rf \<Longrightarrow> turnToFollower recv t rf = Inr rf' \<Longrightarrow> node_ok rf'"
  by (simp add: node_ok_def turnToFollower_fields)

lemma electionSuccessReset_node_ok:
  assumes "node_ok rf"
  shows "electionSuccessReset rf = Inr (rf\<lparr>state := Leader, leader := me rf,
     nextIndex := replicate (nat (peers rf)) (int (length (logs rf))),
     matchIndex := (replicate (nat (peers rf)) 0)[nat (me rf) := int (length (logs rf)) - 1]\<rparr>)"
  using assms by (simp add: electionSuccessReset_def node_ok_def lastEntry_log_ok Let_def)

lemma adoptTerm_fields:
  assumes "adoptTerm recv t rf = Inr rf'"
  shows "currentTerm rf' = max (currentTerm rf) t"
    "state rf' = (if currentTerm rf < t then Follower else state rf)"
    "votedFor rf' = (if currentTerm rf < t then -1 else votedFor rf)"
    "peers rf' = peers rf" "me rf' = me rf" "logs rf' = logs rf" "commitIndex rf' = commitIndex rf"
    "lastApplied rf' = lastApplied rf" "nextIndex rf' = nextIndex rf"
    "matchIndex rf' = matchIndex rf" "votes rf' = votes rf"
    "shutDown rf' = shutDown rf" "state rf' = Leader \<Longrightarrow> hbs rf' = hbs rf"
    "state rf \<noteq> Leader \<Longrightarrow> hbs rf' = hbs rf" "persister rf' = persister rf"
proof -
  show "currentTerm rf' = max (currentTerm rf) t"
    "state rf' = (if currentTerm rf < t then Follower else state rf)"
    "votedFor rf' = (if currentTerm rf < t then -1 else votedFor rf)"
    "state rf' = Leader \<Longrightarrow> hbs rf' = hbs rf"
    "state rf \<noteq> Leader \<Longrightarrow> hbs rf' = hbs rf"
    using assms by (auto simp: adoptTerm_def bindE_eq_Inr_iff max_def split: if_splits)
  have "\<exists>rf1 h. rf1 = rf\<lparr>hbs := h\<rparr> \<and>
     (rf' = rf \<or> rf' = (resetTimer rf1)\<lparr>state := Follower, currentTerm := t, votedFor := -1, leader := -1\<rparr> \<or>
      rf' = rf\<lparr>state := Follower, currentTerm := t, votedFor := -1, leader := -1\<rparr>)"
    using assms by (auto simp: adoptTerm_def bindE_eq_Inr_iff split: if_splits dest: notLeaderSend_frame)
  then show "peers rf' = peers rf" "me rf' = me rf" "logs rf' = logs rf" "commitIndex rf' = commitIndex rf"
    "lastApplied rf' = lastApplied rf" "nextIndex rf' = nextIndex rf"
    "matchIndex rf' = matchIndex rf" "votes rf' = votes rf"
    "shutDown rf' = shutDown rf" "persister rf' = persister rf"
    by auto
qed

lemma isOk_bindE_Inr [simp]: "isOk (bindE m (\<lambda>x. Inr (f x))) = isOk m"
  by (cases m) simp_all

lemma leader_ok_persist [simp]: "leader_ok (persist rf) = leader_ok rf"
  by (simp add: leader_ok_def)

lemma adoptTerm_ok:
  "(state rf = Leader \<Longrightarrow> recv_ok recv rf) \<Longrightarrow> isOk (adoptTerm recv t rf)"
  using notLeaderSend_ok [of recv rf]
  by (cases "state rf = Leader") (auto simp: adoptTerm_def isOk_bindE isOk_iff)

lemma node_ok_adoptTerm: "node_ok rf \<Longrightarrow> adoptTerm recv t rf = Inr rf' \<Longrightarrow> node_ok rf'"
  by (auto simp: node_ok_def leader_ok_def adoptTerm_fields split: if_splits)

subsection \<open>RequestVote\<close>

definition up_to_date :: "RequestVoteArgs \<Rightarrow> 'c LogEntry \<Rightarrow> bool" where
  "up_to_date args lst \<longleftrightarrow>
     (if LastLogTerm args = Term lst then LastLogIndex args \<ge> Index lst
      else LastLogTerm args > Term lst)"

definition persisted_state :: "'c Raft \<Rightarrow> 'c gobval list" where
  "persisted_state rf =
     [GobState (state rf), GobInt (currentTerm rf), GobInt (votedFor rf), GobLogs (logs rf)]"

lemma ReadRaftState_persist [simp]:
  "ReadRaftState (persister (persist rf)) = Some (persisted_state (persist rf))"
  by (simp add: persist_def persisted_state_def raft_store.load_save)

lemma RequestVote_outcome:
  assumes ok: "log_ok (logs rf)" and rv: "RequestVote recv args rf = Inr (rf', reply)"
  obtains rf1 where "adoptTerm recv (CandidateTerm args) rf = Inr rf1"
    "VoteGranted reply \<longleftrightarrow> currentTerm rf1 = CandidateTerm args \<and>
       (votedFor rf1 = -1 \<or> votedFor rf1 = CandidateID args) \<and> up_to_date args (last (logs rf))"
    "rf' = (if VoteGranted reply
            then persist (resetTimer (rf1\<lparr>state := Follower, currentTerm := CandidateTerm args,
                   votedFor := CandidateID args, leader := CandidateID args\<rparr>))
            else persist rf1)"
    "CurrentTerm reply \<le> 0 \<or> CurrentTerm reply = currentTerm rf1 \<and> CandidateTerm args < currentTerm rf1"
proof -
  from rv obtain rf1 where ad: "adoptTerm recv (CandidateTerm args) rf = Inr rf1"
    by (auto simp: RequestVote_def Let_def bindE_eq_Inr_iff)
  have lst: "lastEntry rf1 = Inr (last (logs rf))"
    using ok adoptTerm_fields(6) [OF ad] by (simp add: lastEntry_log_ok)
  have ct: "CandidateTerm args \<le> currentTerm rf1"
    using adoptTerm_fields(1) [OF ad] by simp
  show ?thesis
    by (rule that [of rf1])
       (use rv ad lst ct in \<open>auto simp: RequestVote_def Let_def up_to_date_def split: if_splits\<close>)
qed

lemma RequestVote_ok:
  assumes "log_ok (logs rf)" "state rf = Leader \<Longrightarrow> recv_ok recv rf"
  shows "isOk (RequestVote recv args rf)"
proof -
  from adoptTerm_ok assms(2) obtain rf1 where ad: "adoptTerm recv (CandidateTerm args) rf = Inr rf1"
    by (meson isOk_iff)
  have "lastEntry rf1 = Inr (last (logs rf))"
    using assms(1) adoptTerm_fields(6) [OF ad] by (simp add: lastEntry_log_ok)
  with ad show ?thesis by (simp add: RequestVote_def Let_def)
qed

lemma node_ok_RequestVote:
  assumes ok: "node_ok rf" and id: "0 \<le> CandidateID args"
    and rv: "RequestVote recv args rf = Inr (rf', reply)"
  shows "node_ok rf'"
proof -
  from ok have "log_ok (logs rf)" by (simp add: node_ok_def)
  from this rv obtain rf1 where ad: "adoptTerm recv (CandidateTerm args) rf = Inr rf1" and
    rf': "rf' = (if VoteGranted reply
            then persist (resetTimer (rf1\<lparr>state := Follower, currentTerm := CandidateTerm args,
                   votedFor := CandidateID args, leader := CandidateID args\<rparr>))
            else persist rf1)"
    by (rule RequestVote_outcome)
  from node_ok_adoptTerm [OF ok ad] id show ?thesis
    by (auto simp: rf' node_ok_def)
qed

subsection \<open>Elections\<close>

lemma candidateRequestVote_outcome:
  assumes "log_ok (logs rf)"
  shows "candidateRequestVote no rf = Inr
     (rf\<lparr>electionTimer := True, state := Candidate, currentTerm := currentTerm rf + 1,
        votedFor := me rf, votes := (votes rf)(currentTerm rf + 1 := 1)\<rparr>,
      \<lparr>CandidateTerm = currentTerm rf + 1, CandidateID = me rf,
       LastLogIndex = Index (last (logs rf)), LastLogTerm = Term (last (logs rf)), RVA_MsgNo = no\<rparr>)"
  using assms by (simp add: candidateRequestVote_def lastEntry_log_ok Let_def resetTimer_def)

lemma node_ok_candidateRequestVote:
  "node_ok rf \<Longrightarrow> candidateRequestVote no rf = Inr (rf', args) \<Longrightarrow> node_ok rf'"
  by (auto simp: node_ok_def candidateRequestVote_outcome)

text \<open>The five ways a vote reply can be handled.\<close>

definition countVote :: "int \<Rightarrow> 'c Raft \<Rightarrow> 'c Raft" where
  "countVote t rf = rf\<lparr>votes := (votes rf)(t := votes rf t + 1)\<rparr>"

definition becomeLeader :: "'c Raft \<Rightarrow> 'c Raft" where
  "becomeLeader rf = rf\<lparr>electionTimer := False, state := Leader, leader := me rf,
     nextIndex := replicate (nat (peers rf)) (int (length (logs rf))),
     matchIndex := (replicate (nat (peers rf)) 0)[nat (me rf) := int (length (logs rf)) - 1],
     hbs := hbs rf @ [HbSelect]\<rparr>"

lemma countVote_simps [simp]:
  "state (countVote t rf) = state rf" "currentTerm (countVote t rf) = currentTerm rf"
  "votedFor (countVote t rf) = votedFor rf" "logs (countVote t rf) = logs rf"
  "peers (countVote t rf) = peers rf" "me (countVote t rf) = me rf" "hbs (countVote t rf) = hbs rf"
  "nextIndex (countVote t rf) = nextIndex rf" "matchIndex (countVote t rf) = matchIndex rf"
  "commitIndex (countVote t rf) = commitIndex rf" "lastApplied (countVote t rf) = lastApplied rf"
  "votes (countVote t rf) = (votes rf)(t := votes rf t + 1)" "shutDown (countVote t rf) = shutDown rf"
  by (simp_all add: countVote_def)

lemma becomeLeader_simps [simp]:
  "state (becomeLeader rf) = Leader" "currentTerm (becomeLeader rf) = currentTerm rf"
  "votedFor (becomeLeader rf) = votedFor rf" "logs (becomeLeader rf) = logs rf"
  "peers (becomeLeader rf) = peers rf" "me (becomeLeader rf) = me rf"
  "hbs (becomeLeader rf) = hbs rf @ [HbSelect]" "votes (becomeLeader rf) = votes rf"
  "commitIndex (becomeLeader rf) = commitIndex rf" "lastApplied (becomeLeader rf) = lastApplied rf"
  "shutDown (becomeLeader rf) = shutDown rf"
  by (simp_all add: becomeLeader_def)

lemma node_ok_countVote [simp]: "node_ok (countVote t rf) = node_ok rf"
  by (simp add: node_ok_def leader_ok_def)

lemma node_ok_becomeLeader: "node_ok rf \<Longrightarrow> state rf = Candidate \<Longrightarrow> node_ok (becomeLeader rf)"
proof -
  assume ok: "node_ok rf" and cand: "state rf = Candidate"
  from ok have "logs rf \<noteq> []" by (simp add: node_ok_def log_ok_def)
  then have len: "1 \<le> int (length (logs rf))" by (cases "logs rf") auto
  have mem: "m = 0 \<or> m = v" if "m \<in> set ((replicate n 0)[k := v])" for m v :: int and n k
    using that set_update_subset_insert [of "replicate n (0 :: int)" k v]
    by (cases "n = 0") auto
  show ?thesis
    using ok cand len
    by (auto simp: node_ok_def leader_ok_def becomeLeader_def dest!: mem)
qed

lemma replyHandler_late: "currentTerm rf > t \<Longrightarrow> replyHandler recv reply t rf = Inr rf"
  by (simp add: replyHandler_def)

lemma replyHandler_newer:
  assumes "currentTerm rf \<le> t" "\<not> VoteGranted reply" "CurrentTerm reply > currentTerm rf"
  shows "replyHandler recv reply t rf = turnToFollower recv (CurrentTerm reply) rf"
  using assms by (cases "turnToFollower recv (CurrentTerm reply) rf") (auto simp: replyHandler_def)

lemma replyHandler_ignored:
  assumes "currentTerm rf \<le> t" "VoteGranted reply \<longrightarrow> state rf \<noteq> Candidate"
    "VoteGranted reply \<or> CurrentTerm reply \<le> currentTerm rf"
  shows "replyHandler recv reply t rf = Inr rf"
  using assms by (auto simp: replyHandler_def)

lemma replyHandler_counted:
  assumes "currentTerm rf \<le> t" "VoteGranted reply" "state rf = Candidate"
    "(votes rf t + 1) * 2 \<le> peers rf"
  shows "replyHandler recv reply t rf = Inr (countVote t rf)"
  using assms by (simp add: replyHandler_def Let_def countVote_def)

lemma replyHandler_won:
  assumes "node_ok rf" "currentTerm rf \<le> t" "VoteGranted reply" "state rf = Candidate"
    "(votes rf t + 1) * 2 > peers rf"
  shows "replyHandler recv reply t rf = Inr (becomeLeader (countVote t rf))"
proof -
  have "node_ok (stopTimer (countVote t rf))"
    using assms(1,4) by (simp add: node_ok_def)
  from electionSuccessReset_node_ok [OF this] assms show ?thesis
    by (simp add: replyHandler_def Let_def becomeLeader_def stopTimer_def countVote_def)
qed

lemma replyHandler_cases:
  assumes "node_ok rf"
  obtains "replyHandler recv reply t rf = Inr rf"
  | "currentTerm rf < CurrentTerm reply" "\<not> VoteGranted reply"
    "replyHandler recv reply t rf = turnToFollower recv (CurrentTerm reply) rf"
  | "currentTerm rf \<le> t" "VoteGranted reply" "state rf = Candidate"
    "(votes rf t + 1) * 2 \<le> peers rf" "replyHandler recv reply t rf = Inr (countVote t rf)"
  | "currentTerm rf \<le> t" "VoteGranted reply" "state rf = Candidate"
    "(votes rf t + 1) * 2 > peers rf"
    "replyHandler recv reply t rf = Inr (becomeLeader (countVote t rf))"
  using assms by (metis linorder_not_le replyHandler_late replyHandler_newer replyHandler_ignored
      replyHandler_counted replyHandler_won)

lemma replyHandler_ok:
  assumes ok: "node_ok rf" and recv: "state rf = Leader \<Longrightarrow> recv_ok recv rf"
  shows "isOk (replyHandler recv reply t rf)"
  using ok by (rule replyHandler_cases [of rf recv reply t]) (use recv turnToFollower_ok in auto)

lemma node_ok_replyHandler:
  assumes ok: "node_ok rf" and rh: "replyHandler recv reply t rf = Inr rf'"
  shows "node_ok rf'"
  using ok by (rule replyHandler_cases [of rf recv reply t])
    (use ok rh in \<open>auto simp: node_ok_turnToFollower node_ok_becomeLeader\<close>)

subsection \<open>AppendEntry\<close>

definition log_matches :: "'c AppendEntryArg \<Rightarrow> 'c LogEntry list \<Rightarrow> bool" where
  "log_matches args l \<longleftrightarrow> PrevLogIndex args < int (length l) \<and>
     Term (l ! nat (PrevLogIndex args)) = PrevLogTerm args"

definition spliced :: "'c AppendEntryArg \<Rightarrow> 'c LogEntry list \<Rightarrow> 'c LogEntry list" where
  "spliced args l = take (nat (PrevLogIndex args + 1)) l @ Entries args"

lemma acceptLeader_simps [simp]:
  "state (acceptLeader rf) = (if state rf = Candidate then Follower else state rf)"
  "currentTerm (acceptLeader rf) = currentTerm rf"
  "votedFor (acceptLeader rf) = votedFor rf" "logs (acceptLeader rf) = logs rf"
  "peers (acceptLeader rf) = peers rf" "me (acceptLeader rf) = me rf" "votes (acceptLeader rf) = votes rf"
  "hbs (acceptLeader rf) = hbs rf" "nextIndex (acceptLeader rf) = nextIndex rf"
  "matchIndex (acceptLeader rf) = matchIndex rf" "commitIndex (acceptLeader rf) = commitIndex rf"
  "lastApplied (acceptLeader rf) = lastApplied rf" "lastEntry (acceptLeader rf) = lastEntry rf"
  "shutDown (acceptLeader rf) = shutDown rf"
  by (simp_all add: acceptLeader_def)

lemma AppendEntry_stale:
  "AE_Term args < currentTerm rf \<Longrightarrow> AppendEntry recv args rf =
     Inr (persist rf, \<lparr>AER_Term = currentTerm rf, FirstIndex = 0, Success = False,
                       AER_MsgNo = AEA_MsgNo args\<rparr>)"
  by (simp add: AppendEntry_def Let_def)

lemma AppendEntry_turn_fields:
  assumes "currentTerm rf \<le> AE_Term args"
    "(if AE_Term args > currentTerm rf then turnToFollower recv (AE_Term args) rf else Inr rf) = Inr rf1"
  shows "logs rf1 = logs rf" "commitIndex rf1 = commitIndex rf" "currentTerm rf1 = AE_Term args"
    "peers rf1 = peers rf" "me rf1 = me rf" "lastApplied rf1 = lastApplied rf"
    "nextIndex rf1 = nextIndex rf" "matchIndex rf1 = matchIndex rf" "votes rf1 = votes rf"
    "shutDown rf1 = shutDown rf"
    "votedFor rf1 = (if currentTerm rf < AE_Term args then -1 else votedFor rf)"
    "state rf1 = (if currentTerm rf < AE_Term args then Follower else state rf)"
    "state rf \<noteq> Leader \<or> currentTerm rf = AE_Term args \<Longrightarrow> hbs rf1 = hbs rf"
  using assms by (auto simp: turnToFollower_fields split: if_splits)

lemma AppendEntry_accept:
  assumes "currentTerm rf \<le> AE_Term args"
    "(if AE_Term args > currentTerm rf then turnToFollower recv (AE_Term args) rf else Inr rf) = Inr rf1"
    "log_ok (logs rf)" "0 \<le> PrevLogIndex args" "log_matches args (logs rf)"
  shows "AppendEntry recv args rf = Inr
     (persist ((acceptLeader rf1)\<lparr>logs := spliced args (logs rf),
                commitIndex := max (commitIndex rf) (LeaderCommitIndex args)\<rparr>),
      \<lparr>AER_Term = 0, FirstIndex = 0, Success = True, AER_MsgNo = AEA_MsgNo args\<rparr>)"
proof -
  note f = AppendEntry_turn_fields [OF assms(1,2)]
  have lst: "lastEntry rf1 = Inr (last (logs rf))" "Index (last (logs rf)) = int (length (logs rf)) - 1"
    using assms(3) f by (simp_all add: lastEntry_log_ok)
  have prev: "go_nth (logs rf) (PrevLogIndex args) = Inr (logs rf ! nat (PrevLogIndex args))"
    "go_slice (logs rf) 0 (PrevLogIndex args + 1) = Inr (take (nat (PrevLogIndex args + 1)) (logs rf))"
    using assms(4,5) by (simp_all add: log_matches_def go_slice_def)
  have max: "(if commitIndex rf < LeaderCommitIndex args then r\<lparr>commitIndex := LeaderCommitIndex args\<rparr> else r) =
     r\<lparr>commitIndex := max (commitIndex rf) (LeaderCommitIndex args)\<rparr>"
    if "commitIndex r = commitIndex rf" for r :: "'a Raft"
    using that by (simp add: max_def)
  have "\<not> AE_Term args < currentTerm rf1" using f by simp
  then show ?thesis
    using assms(2,5) f lst prev
    by (simp add: AppendEntry_def Let_def log_matches_def spliced_def max)
qed

lemma AppendEntry_reject:
  assumes "currentTerm rf \<le> AE_Term args"
    "(if AE_Term args > currentTerm rf then turnToFollower recv (AE_Term args) rf else Inr rf) = Inr rf1"
    "log_ok (logs rf)" "0 \<le> PrevLogIndex args" "\<not> log_matches args (logs rf)"
  shows "AppendEntry recv args rf = Inr
     (persist (acceptLeader rf1),
      \<lparr>AER_Term = -1, FirstIndex = firstIndexOf (PrevLogTerm args) (logs rf), Success = False,
       AER_MsgNo = AEA_MsgNo args\<rparr>)"
proof -
  note f = AppendEntry_turn_fields [OF assms(1,2)]
  have lst: "lastEntry rf1 = Inr (last (logs rf))" "Index (last (logs rf)) = int (length (logs rf)) - 1"
    using assms(3) f by (simp_all add: lastEntry_log_ok)
  have "\<not> AE_Term args < currentTerm rf1" using f by simp
  then show ?thesis
    using assms(2,4,5) f lst
    by (cases "PrevLogIndex args < int (length (logs rf))")
       (auto simp: AppendEntry_def Let_def log_matches_def)
qed

text \<open>The three outcomes, on the fields: a stale leader, a match and a mismatch.\<close>

lemma AppendEntry_fields:
  assumes ok: "log_ok (logs rf)" and prev: "0 \<le> PrevLogIndex args"
    and ae: "AppendEntry recv args rf = Inr (rf', reply)"
  shows "(Success reply \<longleftrightarrow> currentTerm rf \<le> AE_Term args \<and> log_matches args (logs rf)) \<and>
    logs rf' = (if Success reply then spliced args (logs rf) else logs rf) \<and>
    commitIndex rf' =
       (if Success reply then max (commitIndex rf) (LeaderCommitIndex args) else commitIndex rf) \<and>
    currentTerm rf' = max (currentTerm rf) (AE_Term args) \<and>
    votedFor rf' = (if currentTerm rf < AE_Term args then -1 else votedFor rf) \<and>
    state rf' = (if currentTerm rf < AE_Term args \<or> currentTerm rf = AE_Term args \<and> state rf = Candidate
                  then Follower else state rf) \<and>
    peers rf' = peers rf \<and> me rf' = me rf \<and> lastApplied rf' = lastApplied rf \<and>
    nextIndex rf' = nextIndex rf \<and> matchIndex rf' = matchIndex rf \<and> votes rf' = votes rf \<and>
    shutDown rf' = shutDown rf \<and>
    (state rf' = Leader \<or> state rf \<noteq> Leader \<longrightarrow> hbs rf' = hbs rf) \<and>
    AER_Term reply = (if AE_Term args < currentTerm rf then currentTerm rf
        else if Success reply then 0 else -1) \<and>
    FirstIndex reply = (if AE_Term args < currentTerm rf \<or> Success reply then 0
        else firstIndexOf (PrevLogTerm args) (logs rf)) \<and>
    ReadRaftState (persister rf') = Some (persisted_state rf')"
proof (cases "AE_Term args < currentTerm rf")
  case True
  with ae AppendEntry_stale [of args rf recv] show ?thesis by auto
next
  case False
  then have cur: "currentTerm rf \<le> AE_Term args" by simp
  from ae obtain rf1 where turn:
    "(if AE_Term args > currentTerm rf then turnToFollower recv (AE_Term args) rf else Inr rf) = Inr rf1"
    by (auto simp: AppendEntry_def Let_def bindE_eq_Inr_iff)
  note f = AppendEntry_turn_fields [OF cur turn]
  show ?thesis
  proof (cases "log_matches args (logs rf)")
    case True
    from AppendEntry_accept [OF cur turn ok prev True] ae f cur True show ?thesis
      by (auto simp: max_def)
  next
    case False
    from AppendEntry_reject [OF cur turn ok prev False] ae f cur False show ?thesis
      by (auto simp: max_def)
  qed
qed

lemma AppendEntry_ok:
  assumes "log_ok (logs rf)" "0 \<le> PrevLogIndex args" "state rf = Leader \<Longrightarrow> recv_ok recv rf"
  shows "isOk (AppendEntry recv args rf)"
proof (cases "AE_Term args < currentTerm rf")
  case True
  then show ?thesis by (simp add: AppendEntry_stale)
next
  case False
  then have cur: "currentTerm rf \<le> AE_Term args" by simp
  obtain rf1 where turn:
    "(if AE_Term args > currentTerm rf then turnToFollower recv (AE_Term args) rf else Inr rf) = Inr rf1"
    using turnToFollower_ok [of rf recv "AE_Term args"] assms(3)
    by (cases "currentTerm rf < AE_Term args") (auto simp: isOk_iff)
  show ?thesis
    using AppendEntry_accept [OF cur turn assms(1,2)] AppendEntry_reject [OF cur turn assms(1,2)]
    by (cases "log_matches args (logs rf)") simp_all
qed

lemma node_ok_AppendEntry:
  assumes ok: "node_ok rf" and args: "ae_ok args"
    and leader: "state rf = Leader \<Longrightarrow> AE_Term args \<noteq> currentTerm rf"
    and ae: "AppendEntry recv args rf = Inr (rf', reply)"
  shows "node_ok rf'"
proof -
  from ok have lok: "log_ok (logs rf)" by (simp add: node_ok_def)
  from args have prev: "0 \<le> PrevLogIndex args" by (simp add: ae_ok_def)
  note f = AppendEntry_fields [OF lok prev ae]
  have "log_ok (logs rf')"
    using lok args log_ok_splice [OF lok prev, of "Entries args"]
    by (auto simp: f spliced_def ae_ok_def log_matches_def)
  moreover have "leader_ok rf'" if "state rf' = Leader"
    using that ok leader by (auto simp: node_ok_def leader_ok_def f split: if_splits)
  ultimately show ?thesis
    using ok by (auto simp: node_ok_def f)
qed

subsection \<open>The leader's side\<close>

definition majorityIndex :: "'c Raft \<Rightarrow> int" where
  "majorityIndex rf = kth_largest (matchIndex rf) (nat (peers rf div 2 + 1))"

lemma kth_largest_in_set: "1 \<le> k \<Longrightarrow> k \<le> length xs \<Longrightarrow> kth_largest xs k \<in> set xs"
proof -
  assume "1 \<le> k" "k \<le> length xs"
  then have "rev (sort xs) ! (k - 1) \<in> set (rev (sort xs))" by (intro nth_mem) simp
  then show ?thesis by (simp add: kth_largest_def)
qed

lemma findKthLargest_majority:
  assumes "node_ok rf"
  shows "findKthLargest (matchIndex rf) (peers rf div 2 + 1) = Inr (majorityIndex rf)"
    "majorityIndex rf \<in> set (matchIndex rf)"
proof -
  have k: "1 \<le> nat (peers rf div 2 + 1)" "nat (peers rf div 2 + 1) \<le> length (matchIndex rf)"
    and int: "int (nat (peers rf div 2 + 1)) = peers rf div 2 + 1"
    using assms by (auto simp: node_ok_def)
  show "findKthLargest (matchIndex rf) (peers rf div 2 + 1) = Inr (majorityIndex rf)"
    using findKthLargest_selects [OF k] int by (simp add: majorityIndex_def)
  show "majorityIndex rf \<in> set (matchIndex rf)"
    using kth_largest_in_set [OF k] by (simp add: majorityIndex_def)
qed

lemma leaderTryUpdateCommitIndex_outcome:
  assumes "node_ok rf" "leader_ok rf"
  shows "leaderTryUpdateCommitIndex rf = Inr
     (if commitIndex rf < majorityIndex rf \<and> Term (logs rf ! nat (majorityIndex rf)) = currentTerm rf
      then rf\<lparr>commitIndex := majorityIndex rf\<rparr> else rf)"
proof -
  have "0 \<le> majorityIndex rf" "majorityIndex rf < int (length (logs rf))"
    using assms findKthLargest_majority(2) [OF assms(1)] by (auto simp: leader_ok_def)
  then show ?thesis
    using findKthLargest_majority(1) [OF assms(1)]
    by (simp add: leaderTryUpdateCommitIndex_def Let_def)
qed

text \<open>A reply of the current leadership: its index is one of the leader's own log.\<close>

definition reply_ok :: "int \<Rightarrow> AppendEntryReply \<Rightarrow> int \<Rightarrow> 'c Raft \<Rightarrow> bool" where
  "reply_ok peerID reply curIndex rf \<longleftrightarrow> 0 \<le> peerID \<and> peerID < peers rf \<and>
     (Success reply \<longrightarrow> 0 \<le> curIndex \<and> curIndex < int (length (logs rf)))"

lemma AppendLogReplyHandler_follower:
  assumes "state rf \<noteq> Leader"
  shows "AppendLogReplyHandler recv peerID reply curIndex rf =
     (if \<not> Success reply \<and> AER_Term reply \<noteq> -1 \<and> AER_Term reply > currentTerm rf
      then turnToFollower recv (AER_Term reply) rf else Inr rf)"
  using assms turnToFollower_fields(1) [of recv "AER_Term reply" rf]
  by (cases "turnToFollower recv (AER_Term reply) rf") (auto simp: AppendLogReplyHandler_def)

lemma AppendLogReplyHandler_turn:
  assumes "\<not> Success reply" "AER_Term reply \<noteq> -1" "AER_Term reply > currentTerm rf"
  shows "AppendLogReplyHandler recv peerID reply curIndex rf = turnToFollower recv (AER_Term reply) rf"
  using assms turnToFollower_fields(1) [of recv "AER_Term reply" rf]
  by (cases "turnToFollower recv (AER_Term reply) rf") (auto simp: AppendLogReplyHandler_def)

text \<open>A leader that stays one: nothing to do, a step back in \<open>nextIndex\<close>, or progress.\<close>

definition stepBack :: "int \<Rightarrow> AppendEntryReply \<Rightarrow> 'c Raft \<Rightarrow> 'c Raft" where
  "stepBack p reply rf = rf\<lparr>nextIndex := (nextIndex rf)[nat p :=
     max (min (nextIndex rf ! nat p - 1) (FirstIndex reply - 1)) (matchIndex rf ! nat p + 1)]\<rparr>"

definition advance :: "int \<Rightarrow> int \<Rightarrow> 'c Raft \<Rightarrow> 'c Raft" where
  "advance p curIndex rf =
     rf\<lparr>nextIndex := (nextIndex rf)[nat p := max (curIndex + 1) (nextIndex rf ! nat p)],
        matchIndex := (matchIndex rf)[nat p := max curIndex (matchIndex rf ! nat p)]\<rparr>"

lemma stepBack_simps [simp]:
  "state (stepBack p reply rf) = state rf" "currentTerm (stepBack p reply rf) = currentTerm rf"
  "votedFor (stepBack p reply rf) = votedFor rf" "logs (stepBack p reply rf) = logs rf"
  "peers (stepBack p reply rf) = peers rf" "me (stepBack p reply rf) = me rf"
  "votes (stepBack p reply rf) = votes rf" "hbs (stepBack p reply rf) = hbs rf"
  "matchIndex (stepBack p reply rf) = matchIndex rf"
  "commitIndex (stepBack p reply rf) = commitIndex rf"
  "lastApplied (stepBack p reply rf) = lastApplied rf"
  by (simp_all add: stepBack_def)

lemma advance_simps [simp]:
  "state (advance p c rf) = state rf" "currentTerm (advance p c rf) = currentTerm rf"
  "votedFor (advance p c rf) = votedFor rf" "logs (advance p c rf) = logs rf"
  "peers (advance p c rf) = peers rf" "me (advance p c rf) = me rf"
  "votes (advance p c rf) = votes rf" "hbs (advance p c rf) = hbs rf"
  "commitIndex (advance p c rf) = commitIndex rf" "lastApplied (advance p c rf) = lastApplied rf"
  "matchIndex (advance p c rf) = (matchIndex rf)[nat p := max c (matchIndex rf ! nat p)]"
  by (simp_all add: advance_def)

lemma Max_Min [simp]: "Max a b = max a b" "Min a b = min a b"
  by (simp_all add: Max_def Min_def max_def min_def)

lemma AppendLogReplyHandler_leader:
  assumes ok: "node_ok rf" and lead: "state rf = Leader" and r: "reply_ok p reply curIndex rf"
    and stay: "Success reply \<or> AER_Term reply \<le> currentTerm rf \<or> AER_Term reply = -1"
  shows "AppendLogReplyHandler recv p reply curIndex rf =
     (if Success reply then leaderTryUpdateCommitIndex (advance p curIndex rf)
      else if AER_Term reply = -1 then Inr (stepBack p reply rf) else Inr rf)"
  using assms
  by (auto simp: AppendLogReplyHandler_def reply_ok_def node_ok_def stepBack_def advance_def)

lemma leader_bounds:
  assumes "node_ok rf" "state rf = Leader" "0 \<le> p" "p < peers rf"
  shows "1 \<le> nextIndex rf ! nat p" "nextIndex rf ! nat p \<le> int (length (logs rf))"
    "0 \<le> matchIndex rf ! nat p" "matchIndex rf ! nat p < int (length (logs rf))"
  using assms by (auto simp: node_ok_def leader_ok_def)

lemma node_ok_nextIndex:
  "node_ok rf \<Longrightarrow> 1 \<le> v \<Longrightarrow> v \<le> int (length (logs rf)) \<Longrightarrow>
     node_ok (rf\<lparr>nextIndex := (nextIndex rf)[k := v]\<rparr>)"
  by (auto simp: node_ok_def leader_ok_def dest!: set_update_subset_insert [THEN subsetD])

lemma node_ok_matchIndex:
  "node_ok rf \<Longrightarrow> 0 \<le> v \<Longrightarrow> v < int (length (logs rf)) \<Longrightarrow>
     node_ok (rf\<lparr>matchIndex := (matchIndex rf)[k := v]\<rparr>)"
  by (auto simp: node_ok_def leader_ok_def dest!: set_update_subset_insert [THEN subsetD])

lemma node_ok_stepBack:
  assumes "node_ok rf" "state rf = Leader" "0 \<le> p" "p < peers rf"
  shows "node_ok (stepBack p reply rf)"
  unfolding stepBack_def using leader_bounds [OF assms]
  by (intro node_ok_nextIndex assms) linarith+

lemma node_ok_advance:
  assumes "node_ok rf" "state rf = Leader" "0 \<le> p" "p < peers rf"
    "0 \<le> curIndex" "curIndex < int (length (logs rf))"
  shows "node_ok (advance p curIndex rf)"
proof -
  let ?rf = "rf\<lparr>nextIndex := (nextIndex rf)[nat p := max (curIndex + 1) (nextIndex rf ! nat p)]\<rparr>"
  have "node_ok ?rf"
    using leader_bounds [OF assms(1-4)] assms(5,6) by (intro node_ok_nextIndex assms(1)) linarith+
  then have "node_ok (?rf\<lparr>matchIndex := (matchIndex ?rf)[nat p := max curIndex (matchIndex rf ! nat p)]\<rparr>)"
    using leader_bounds [OF assms(1-4)] assms(5,6)
    by (intro node_ok_matchIndex) auto
  then show ?thesis by (simp add: advance_def)
qed

lemma node_ok_leaderTryUpdateCommitIndex:
  assumes "node_ok rf" "state rf = Leader"
  shows "\<exists>rf'. leaderTryUpdateCommitIndex rf = Inr rf' \<and> node_ok rf'"
  using assms leaderTryUpdateCommitIndex_outcome [of rf]
  by (auto simp: node_ok_def leader_ok_def)

lemma AppendLogReplyHandler_preserves:
  assumes ok: "node_ok rf" and r: "reply_ok p reply curIndex rf"
    and recv: "state rf = Leader \<Longrightarrow> recv_ok recv rf"
  shows "\<exists>rf'. AppendLogReplyHandler recv p reply curIndex rf = Inr rf' \<and> node_ok rf'"
proof (cases "\<not> Success reply \<and> AER_Term reply \<noteq> -1 \<and> AER_Term reply > currentTerm rf")
  case True
  with turnToFollower_ok [of rf recv "AER_Term reply"] recv node_ok_turnToFollower [OF ok]
  show ?thesis by (auto simp: AppendLogReplyHandler_turn isOk_iff)
next
  case stay: False
  show ?thesis
  proof (cases "state rf = Leader")
    case True
    from stay have "Success reply \<or> AER_Term reply \<le> currentTerm rf \<or> AER_Term reply = -1" by auto
    from AppendLogReplyHandler_leader [OF ok True r this]
      node_ok_leaderTryUpdateCommitIndex [of "advance p curIndex rf"]
      node_ok_advance [OF ok True, of p curIndex] node_ok_stepBack [OF ok True, of p reply] r ok True
    show ?thesis by (auto simp: reply_ok_def)
  next
    case False
    with stay ok show ?thesis by (auto simp: AppendLogReplyHandler_follower)
  qed
qed

subsection \<open>Heartbeats, new commands, applying, stopping\<close>

lemma heartbeatStep_frame:
  assumes "heartbeatStep k no rf = Inr (rf', msg)"
  shows "rf' = rf\<lparr>hbs := hbs rf'\<rparr>" "state rf = Leader \<Longrightarrow> \<not> shutDown rf \<Longrightarrow> hbs rf' \<noteq> []"
  using assms
  by (auto simp: heartbeatStep_def bindE_eq_Inr_iff Let_def split: if_splits hb_pc.splits)

lemma heartbeatStep_msg:
  assumes "heartbeatStep k no rf = Inr (rf', Some (p, args))"
  obtains t where "k < length (hbs rf)" "hbs rf ! k = HbSend p t" "p < peers rf" "p \<noteq> me rf"
    "\<not> shutDown rf" "sendEntry p t no rf = Inr args"
    "rf' = rf\<lparr>hbs := (hbs rf)[k := HbSend (p + 1) t]\<rparr>"
  using assms
  by (auto simp: heartbeatStep_def bindE_eq_Inr_iff Let_def split: if_splits hb_pc.splits)

lemma sendEntry_outcome:
  assumes "sendEntry p t no rf = Inr args"
  obtains nx where "0 \<le> p" "p < int (length (nextIndex rf))" "nx = nextIndex rf ! nat p"
    "1 \<le> nx" "nx \<le> int (length (logs rf))"
    "args = \<lparr>AE_Term = t, AE_Leader = me rf, PrevLogIndex = nx - 1,
       PrevLogTerm = Term (logs rf ! nat (nx - 1)), Entries = drop (nat nx) (logs rf),
       LeaderCommitIndex = commitIndex rf, AEA_MsgNo = no\<rparr>"
  using assms by (auto simp: sendEntry_def go_inversions split: if_splits)

lemma sendEntry_ae_ok:
  assumes "log_ok (logs rf)" "sendEntry p t no rf = Inr args"
  shows "ae_ok args"
  using assms(2)
  by (elim sendEntry_outcome) (use assms(1) in \<open>auto simp: ae_ok_def log_ok_def nth_drop\<close>)

lemma sendEntry_ok:
  assumes "node_ok rf" "state rf = Leader" "0 \<le> p" "p < peers rf"
  shows "isOk (sendEntry p t no rf)"
  using assms leader_bounds [OF assms]
  by (auto simp: sendEntry_def node_ok_def go_slice_def isOk_iff)

lemma Start_leader:
  assumes "node_ok rf" "state rf = Leader"
  shows "Start c rf = Inr
     (persist (rf\<lparr>logs := logs rf @ [\<lparr>Term = currentTerm rf, Index = int (length (logs rf)), Command = c\<rparr>],
        nextIndex := (nextIndex rf)[nat (me rf) := int (length (logs rf)) + 1],
        matchIndex := (matchIndex rf)[nat (me rf) := int (length (logs rf))]\<rparr>),
      int (length (logs rf)), currentTerm rf, True)"
  using assms by (simp add: Start_def Let_def node_ok_def)

lemma Start_ok: "node_ok rf \<Longrightarrow> isOk (Start c rf)"
  using Start_leader [of rf c] by (cases "state rf = Leader") (simp_all add: Start_def)

lemma node_ok_Start:
  assumes "node_ok rf" "Start c rf = Inr (rf', r)"
  shows "node_ok rf'"
proof (cases "state rf = Leader")
  case True
  let ?rf = "rf\<lparr>logs := logs rf @ [\<lparr>Term = currentTerm rf, Index = int (length (logs rf)), Command = c\<rparr>]\<rparr>"
  have "node_ok ?rf" using assms(1) log_ok_snoc by (fastforce simp: node_ok_def leader_ok_def)
  then have "node_ok (?rf\<lparr>nextIndex := (nextIndex ?rf)[nat (me rf) := int (length (logs rf)) + 1]\<rparr>)"
    by (rule node_ok_nextIndex) auto
  from node_ok_matchIndex [OF this, of "int (length (logs rf))" "nat (me rf)"]
  show ?thesis using Start_leader [OF assms(1) True, of c] assms(2) by auto
qed (use assms in \<open>simp add: Start_def\<close>)

lemma node_ok_applyEntryRoutine:
  "node_ok rf \<Longrightarrow> applyEntryRoutine rf = Inr (rf', ms) \<Longrightarrow> node_ok rf'"
  by (auto simp: applyEntryRoutine_def node_ok_def leader_ok_def bindE_eq_Inr_iff split: if_splits)

end
