(* ===== verification/Raft_Invariant.thy ===== *)
theory Raft_Invariant
  imports Raft_Ops
begin

section \<open>The invariant of one Raft server\<close>

text \<open>
  \<open>node_step\<close> is the server as a state machine, one rule per operation. The theorems:
  \<open>node_ok\<close> holds in every reachable state; under it no handler panics; terms and commit
  indices only grow and a vote is never changed within a term; and the contracts of the
  vote, the append and the commit rule, which the cluster theories build on.
\<close>

subsection \<open>The server as a state machine\<close>

inductive node_step :: "'c Raft \<Rightarrow> 'c Raft \<Rightarrow> bool" where
  step_RequestVote: "RequestVote recv args rf = Inr (rf', reply) \<Longrightarrow> 0 \<le> CandidateID args \<Longrightarrow>
     node_step rf rf'"
| step_timeout: "candidateRequestVote no rf = Inr (rf', args) \<Longrightarrow> node_step rf rf'"
| step_voteReply: "replyHandler recv reply t rf = Inr rf' \<Longrightarrow> node_step rf rf'"
| step_AppendEntry: "AppendEntry recv args rf = Inr (rf', reply) \<Longrightarrow> ae_ok args \<Longrightarrow>
     (state rf = Leader \<Longrightarrow> AE_Term args \<noteq> currentTerm rf) \<Longrightarrow> node_step rf rf'"
| step_appendReply: "AppendLogReplyHandler recv p reply curIndex rf = Inr rf' \<Longrightarrow>
     reply_ok p reply curIndex rf \<Longrightarrow> (state rf = Leader \<Longrightarrow> recv_ok recv rf) \<Longrightarrow> node_step rf rf'"
| step_heartbeat: "heartbeatStep k no rf = Inr (rf', msg) \<Longrightarrow> \<not> shutDown rf \<Longrightarrow> node_step rf rf'"
| step_Start: "Start c rf = Inr (rf', r) \<Longrightarrow> node_step rf rf'"
| step_apply: "applyEntryRoutine rf = Inr (rf', ms) \<Longrightarrow> node_step rf rf'"

lemma node_ok_heartbeatStep:
  assumes "node_ok rf" "heartbeatStep k no rf = Inr (rf', msg)" "\<not> shutDown rf"
  shows "node_ok rf'"
proof -
  from heartbeatStep_frame(1) [OF assms(2)] obtain h where rf': "rf' = rf\<lparr>hbs := h\<rparr>" by blast
  with assms(1) heartbeatStep_frame(2) [OF assms(2) _ assms(3)] show ?thesis
    by (auto simp: node_ok_def leader_ok_def)
qed

lemma node_step_node_ok: "node_step rf rf' \<Longrightarrow> node_ok rf \<Longrightarrow> node_ok rf'"
proof (induction rule: node_step.induct)
  case (step_appendReply recv p reply curIndex rf rf')
  from AppendLogReplyHandler_preserves [OF step_appendReply.prems step_appendReply.hyps(2,3)]
    step_appendReply.hyps(1) show ?case by auto
qed (auto intro: node_ok_RequestVote node_ok_candidateRequestVote node_ok_replyHandler
       node_ok_AppendEntry node_ok_heartbeatStep node_ok_applyEntryRoutine node_ok_Start)

definition fresh_node :: "'c Raft \<Rightarrow> bool" where
  "fresh_node rf \<longleftrightarrow> (\<exists>zero n i. 0 \<le> i \<and> i < n \<and> Make zero n i MakePersister = Inr rf)"

lemma node_ok_Make: "0 \<le> i \<Longrightarrow> i < n \<Longrightarrow> Make zero n i MakePersister = Inr rf \<Longrightarrow> node_ok rf"
  by (auto simp: Make_def freshRaft_def ReadRaftState_def MakePersister_def readPersist_def
      node_ok_def log_ok_def)

interpretation raft_server: inductive_invariant fresh_node node_step node_ok
  by unfold_locales (auto simp: fresh_node_def node_ok_Make intro: node_step_node_ok)

subsection \<open>What never goes back\<close>

definition monotone_step :: "'c Raft \<Rightarrow> 'c Raft \<Rightarrow> bool" where
  "monotone_step rf rf' \<longleftrightarrow>
     peers rf' = peers rf \<and> me rf' = me rf \<and> currentTerm rf \<le> currentTerm rf' \<and>
     (currentTerm rf' = currentTerm rf \<and> votedFor rf \<noteq> -1 \<longrightarrow> votedFor rf' = votedFor rf) \<and>
     commitIndex rf \<le> commitIndex rf' \<and> lastApplied rf \<le> lastApplied rf'"

lemma monotone_turnToFollower:
  "turnToFollower recv t rf = Inr rf' \<Longrightarrow> currentTerm rf < t \<Longrightarrow> monotone_step rf rf'"
  by (simp add: monotone_step_def turnToFollower_fields)

lemma monotone_RequestVote:
  assumes "log_ok (logs rf)" "RequestVote recv args rf = Inr (rf', reply)"
  shows "monotone_step rf rf'"
  using assms
proof (rule RequestVote_outcome)
  fix rf1
  assume ad: "adoptTerm recv (CandidateTerm args) rf = Inr rf1"
    and gr: "VoteGranted reply \<longleftrightarrow> currentTerm rf1 = CandidateTerm args \<and>
       (votedFor rf1 = -1 \<or> votedFor rf1 = CandidateID args) \<and> up_to_date args (last (logs rf))"
    and rf': "rf' = (if VoteGranted reply
            then persist (resetTimer (rf1\<lparr>state := Follower, currentTerm := CandidateTerm args,
                   votedFor := CandidateID args, leader := CandidateID args\<rparr>))
            else persist rf1)"
  note f = adoptTerm_fields [OF ad]
  show ?thesis
    using gr by (auto simp: monotone_step_def rf' f split: if_splits)
qed

lemma replyHandler_fields:
  assumes "node_ok rf" "replyHandler recv reply t rf = Inr rf'"
  shows "monotone_step rf rf' \<and> logs rf' = logs rf"
  using assms(1) by (rule replyHandler_cases [of rf recv reply t])
    (use assms(2) in \<open>auto simp: monotone_turnToFollower turnToFollower_fields monotone_step_def\<close>)

lemma monotone_AppendLogReplyHandler:
  assumes "node_ok rf" "reply_ok p reply curIndex rf"
    "AppendLogReplyHandler recv p reply curIndex rf = Inr rf'"
  shows "monotone_step rf rf' \<and> logs rf' = logs rf \<and> votes rf' = votes rf"
proof (cases "\<not> Success reply \<and> AER_Term reply \<noteq> -1 \<and> AER_Term reply > currentTerm rf")
  case True
  with assms(3) show ?thesis
    by (auto simp: AppendLogReplyHandler_turn monotone_turnToFollower turnToFollower_fields)
next
  case stay: False
  show ?thesis
  proof (cases "state rf = Leader")
    case True
    from stay have "Success reply \<or> AER_Term reply \<le> currentTerm rf \<or> AER_Term reply = -1" by auto
    note h = AppendLogReplyHandler_leader [OF assms(1) True assms(2) this, of recv]
    have "node_ok (advance p curIndex rf)" if "Success reply"
      using node_ok_advance [OF assms(1) True] assms(2) that by (simp add: reply_ok_def)
    then have "Success reply \<Longrightarrow> leaderTryUpdateCommitIndex (advance p curIndex rf) = Inr
       (if commitIndex rf < majorityIndex (advance p curIndex rf) \<and>
           Term (logs rf ! nat (majorityIndex (advance p curIndex rf))) = currentTerm rf
        then (advance p curIndex rf)\<lparr>commitIndex := majorityIndex (advance p curIndex rf)\<rparr>
        else advance p curIndex rf)"
      using leaderTryUpdateCommitIndex_outcome [of "advance p curIndex rf"] True
      by (simp add: node_ok_def)
    with h assms(3) show ?thesis
      by (auto simp: monotone_step_def split: if_splits)
  next
    case False
    with assms(3) stay show ?thesis
      by (auto simp: AppendLogReplyHandler_follower monotone_step_def)
  qed
qed

lemma node_step_monotone: "node_step rf rf' \<Longrightarrow> node_ok rf \<Longrightarrow> monotone_step rf rf'"
proof (induction rule: node_step.induct)
  case (step_RequestVote recv args rf rf' reply)
  then show ?case by (simp add: monotone_RequestVote node_ok_def)
next
  case (step_timeout no rf rf' args)
  then show ?case by (auto simp: candidateRequestVote_outcome node_ok_def monotone_step_def)
next
  case (step_voteReply recv reply t rf rf')
  then show ?case by (simp add: replyHandler_fields)
next
  case (step_AppendEntry recv args rf rf' reply)
  then have "log_ok (logs rf)" "0 \<le> PrevLogIndex args" by (simp_all add: node_ok_def ae_ok_def)
  from AppendEntry_fields [OF this step_AppendEntry.hyps(1)] show ?case
    by (auto simp: monotone_step_def)
next
  case (step_appendReply recv p reply curIndex rf rf')
  then show ?case by (simp add: monotone_AppendLogReplyHandler)
next
  case (step_heartbeat k no rf rf' msg)
  from heartbeatStep_frame(1) [OF step_heartbeat.hyps(1)] obtain h where "rf' = rf\<lparr>hbs := h\<rparr>" by blast
  then show ?case by (simp add: monotone_step_def)
next
  case (step_Start c rf rf' r)
  show ?case
  proof (cases "state rf = Leader")
    case True
    with step_Start Start_leader [of rf c] show ?thesis by (auto simp: monotone_step_def)
  next
    case False
    with step_Start show ?thesis by (simp add: Start_def monotone_step_def)
  qed
next
  case (step_apply rf rf' ms)
  then show ?case
    by (auto simp: applyEntryRoutine_def monotone_step_def bindE_eq_Inr_iff split: if_splits)
qed

subsection \<open>Recovery from the persistent state\<close>

lemma readPersist_persisted:
  "readPersist (Some (persisted_state rf)) rf0 =
     rf0\<lparr>state := state rf, currentTerm := currentTerm rf, votedFor := votedFor rf, logs := logs rf\<rparr>"
  by (simp add: readPersist_def persisted_state_def)

lemma readPersist_keeps:
  "persister (readPersist d rf) = persister rf" "shutDown (readPersist d rf) = shutDown rf" "me (readPersist d rf) = me rf"
  by (simp_all add: readPersist_def Let_def split: option.split prod.split)

lemma electionSuccessReset_keeps:
  "electionSuccessReset rf = Inr rf' \<Longrightarrow> persister rf' = persister rf \<and> shutDown rf' = shutDown rf \<and> me rf' = me rf"
  by (auto simp: electionSuccessReset_def Let_def bindE_eq_Inr_iff split: if_splits)

lemma Make_keeps:
  assumes "Make zero n i ps = Inr rf"
  shows "persister rf = ps \<and> \<not> shutDown rf \<and> me rf = i"
proof -
  define r where "r = (readPersist (ReadRaftState ps) (freshRaft zero n i ps))\<lparr>electionTimer := True\<rparr>"
  have r: "persister r = ps" "\<not> shutDown r" "me r = i" by (simp_all add: r_def readPersist_keeps freshRaft_def)
  have "Make zero n i ps = (if state r = Leader then bindE (electionSuccessReset (stopTimer r)) (\<lambda>rf. Inr (rf\<lparr>hbs := hbs rf @ [HbSelect]\<rparr>)) else Inr r)"
    by (simp add: Make_def Let_def r_def)
  with assms r show ?thesis
    by (auto simp: bindE_eq_Inr_iff stopTimer_def split: if_splits dest!: electionSuccessReset_keeps)
qed

lemma Make_recovers:
  assumes ok: "node_ok rf" and i: "0 \<le> i" "i < n"
    and saved: "ReadRaftState ps = Some (persisted_state rf)"
  shows "\<exists>rf'. Make zero n i ps = Inr rf' \<and> state rf' = state rf \<and> currentTerm rf' = currentTerm rf \<and>
     votedFor rf' = votedFor rf \<and> logs rf' = logs rf \<and> commitIndex rf' = -1 \<and> lastApplied rf' = -1 \<and>
     (state rf = Leader \<longrightarrow> hbs rf' = [HbSelect] \<and>
        (\<forall>x \<in> set (nextIndex rf'). x = int (length (logs rf))))"
proof (cases "state rf = Leader")
  case False
  then show ?thesis
    using saved by (simp add: Make_def readPersist_persisted freshRaft_def Let_def)
next
  case True
  let ?rf = "(freshRaft zero n i ps)\<lparr>state := Leader, currentTerm := currentTerm rf,
     votedFor := votedFor rf, logs := logs rf, electionTimer := True\<rparr>"
  have lok: "log_ok (logs rf)" using ok by (simp add: node_ok_def)
  then have "lastEntry (stopTimer ?rf) = Inr (last (logs rf))"
    by (simp add: lastEntry_log_ok)
  with lok i have "electionSuccessReset (stopTimer ?rf) = Inr ((stopTimer ?rf)\<lparr>leader := i,
     nextIndex := replicate (nat n) (int (length (logs rf))),
     matchIndex := (replicate (nat n) 0)[nat i := int (length (logs rf)) - 1]\<rparr>)"
    by (simp add: electionSuccessReset_def Let_def) (simp add: freshRaft_def stopTimer_def)
  with True saved show ?thesis
    by (simp add: Make_def readPersist_persisted Let_def) (simp add: freshRaft_def stopTimer_def)
qed

lemma card_filter_positions:
  "card {p. p < length xs \<and> P (xs ! p)} = length (filter P xs)"
  by (simp add: length_filter_conv_card)

subsection \<open>Example servers\<close>

text \<open>A leader of three servers in term 2, with one entry of its own replicated on server 1.\<close>

definition sampleLeader :: "int Raft" where
  "sampleLeader = \<lparr>peers = 3, me = 0, state = Leader, currentTerm = 2, votedFor = 0,
     logs = [\<lparr>Term = 0, Index = 0, Command = 0\<rparr>, \<lparr>Term = 2, Index = 1, Command = 7\<rparr>],
     leader = 0, electionTimer = False, commitIndex = -1, lastApplied = -1,
     nextIndex = [2, 1, 1], matchIndex = [1, 0, 0], persister = MakePersister,
     votes = (\<lambda>_. 0)(2 := 2), hbs = [HbSelect], shutDown = False\<rparr>"

lemma node_ok_sampleLeader: "node_ok sampleLeader"
  by (simp add: sampleLeader_def node_ok_def leader_ok_def log_ok_def less_Suc_eq All_less_Suc numeral_2_eq_2)

subsection \<open>Properties\<close>





text \<open>
  Claim C4. No operation of a server ever lowers its term, its commit index or its apply
  index, and within one term it never changes a vote it has given.
\<close>

theorem server_steps_monotone:
  assumes "node_ok rf" "node_step rf rf'"
  shows "currentTerm rf \<le> currentTerm rf' \<and> commitIndex rf \<le> commitIndex rf' \<and>
    lastApplied rf \<le> lastApplied rf' \<and>
    (currentTerm rf' = currentTerm rf \<and> votedFor rf \<noteq> -1 \<longrightarrow> votedFor rf' = votedFor rf)"
  using node_step_monotone [OF assms(2,1)] by (simp add: monotone_step_def)

theorem server_steps_monotone_witness:
  "\<exists>rf'. node_step sampleLeader rf' \<and> currentTerm rf' = 5 \<and> votedFor rf' = 2 \<and>
     currentTerm sampleLeader \<le> currentTerm rf'"
proof -
  let ?args = "\<lparr>CandidateTerm = 5, CandidateID = 2, LastLogIndex = 9, LastLogTerm = 4, RVA_MsgNo = 1\<rparr>"
  obtain rf' reply where rv: "RequestVote 0 ?args sampleLeader = Inr (rf', reply)"
    and f: "currentTerm rf' = 5" "votedFor rf' = 2"
    by (simp add: RequestVote_def adoptTerm_def notLeaderSend_def sampleLeader_def lastEntry_def Let_def)
  have step: "node_step sampleLeader rf'" by (rule step_RequestVote [OF rv]) simp
  from server_steps_monotone [OF node_ok_sampleLeader step] step f show ?thesis by blast
qed

text \<open>
  Claim C5. \<open>RequestVote\<close> grants a vote exactly when the candidate's term is not older, the
  server has not voted for another candidate in that term, and the candidate's log is at
  least as up to date (last term first, then length). A granted vote is recorded and on
  stable storage before the reply leaves; a refused one leaves an earlier vote of the same
  term in place, and the log is never touched.
\<close>

theorem RequestVote_contract:
  assumes "node_ok rf" "RequestVote recv args rf = Inr (rf', reply)"
  shows "(VoteGranted reply \<longleftrightarrow> currentTerm rf \<le> CandidateTerm args \<and>
       (currentTerm rf < CandidateTerm args \<or> votedFor rf = -1 \<or> votedFor rf = CandidateID args) \<and>
       up_to_date args (last (logs rf))) \<and>
    currentTerm rf' = max (currentTerm rf) (CandidateTerm args) \<and> logs rf' = logs rf \<and>
    votedFor rf' = (if VoteGranted reply then CandidateID args
                    else if currentTerm rf < CandidateTerm args then -1 else votedFor rf) \<and>
    ReadRaftState (persister rf') = Some (persisted_state rf')"
proof -
  from assms(1) have "log_ok (logs rf)" by (simp add: node_ok_def)
  from this assms(2) show ?thesis
    by (rule RequestVote_outcome) (auto simp: adoptTerm_fields max_def split: if_splits)
qed

theorem RequestVote_contract_witness:
  "\<exists>rf' reply. RequestVote 0 \<lparr>CandidateTerm = 5, CandidateID = 2, LastLogIndex = 9, LastLogTerm = 4,
       RVA_MsgNo = 1\<rparr> sampleLeader = Inr (rf', reply) \<and> VoteGranted reply \<and> votedFor rf' = 2 \<and>
     ReadRaftState (persister rf') = Some (persisted_state rf')"
proof -
  let ?args = "\<lparr>CandidateTerm = 5, CandidateID = 2, LastLogIndex = 9, LastLogTerm = 4, RVA_MsgNo = 1\<rparr>"
  have "isOk (RequestVote 0 ?args sampleLeader)"
    by (simp add: RequestVote_def adoptTerm_def notLeaderSend_def sampleLeader_def lastEntry_def Let_def)
  then obtain rf' reply where rv: "RequestVote 0 ?args sampleLeader = Inr (rf', reply)"
    by (auto simp: isOk_iff)
  from RequestVote_contract [OF node_ok_sampleLeader rv] rv show ?thesis
    by (simp add: sampleLeader_def up_to_date_def)
qed

text \<open>
  Claim C6. \<open>AppendEntry\<close> succeeds exactly when the message's term is not older than the
  server's and the log holds an entry with the message's previous index and term. On
  success the log is the old log up to that entry followed by the message's entries, and
  the commit index never falls; otherwise the log is unchanged, and a mismatch answers
  term -1 and the first index the log has for the conflicting term. The new state is on
  stable storage before the reply leaves.
\<close>

theorem AppendEntry_contract:
  assumes "node_ok rf" "ae_ok args" "AppendEntry recv args rf = Inr (rf', reply)"
  shows "(Success reply \<longleftrightarrow> currentTerm rf \<le> AE_Term args \<and> log_matches args (logs rf)) \<and>
    logs rf' = (if Success reply then spliced args (logs rf) else logs rf) \<and>
    commitIndex rf' =
       (if Success reply then max (commitIndex rf) (LeaderCommitIndex args) else commitIndex rf) \<and>
    currentTerm rf' = max (currentTerm rf) (AE_Term args) \<and>
    AER_Term reply = (if AE_Term args < currentTerm rf then currentTerm rf
        else if Success reply then 0 else -1) \<and>
    FirstIndex reply = (if AE_Term args < currentTerm rf \<or> Success reply then 0
        else firstIndexOf (PrevLogTerm args) (logs rf)) \<and>
    ReadRaftState (persister rf') = Some (persisted_state rf')"
  using AppendEntry_fields [of rf args recv rf' reply] assms by (simp add: node_ok_def ae_ok_def)

theorem AppendEntry_contract_witness:
  "\<exists>rf' reply. AppendEntry 0 \<lparr>AE_Term = 3, AE_Leader = 1, PrevLogIndex = 0, PrevLogTerm = 0,
       Entries = [\<lparr>Term = 3, Index = 1, Command = 8\<rparr>], LeaderCommitIndex = 1, AEA_MsgNo = 4\<rparr>
       sampleLeader = Inr (rf', reply) \<and> Success reply \<and> commitIndex rf' = 1 \<and>
     logs rf' = [\<lparr>Term = 0, Index = 0, Command = 0\<rparr>, \<lparr>Term = 3, Index = 1, Command = 8\<rparr>]"
proof -
  let ?args = "\<lparr>AE_Term = 3, AE_Leader = 1, PrevLogIndex = 0, PrevLogTerm = 0,
       Entries = [\<lparr>Term = 3, Index = 1, Command = 8 :: int\<rparr>], LeaderCommitIndex = 1, AEA_MsgNo = 4\<rparr>"
  have ae_ok: "ae_ok ?args" by (simp add: ae_ok_def)
  have recv: "recv_ok 0 sampleLeader" by (simp add: recv_ok_def sampleLeader_def)
  have "log_ok (logs sampleLeader)" using node_ok_sampleLeader by (simp add: node_ok_def)
  from AppendEntry_ok [OF this, of ?args 0] recv obtain rf' reply where
    ae: "AppendEntry 0 ?args sampleLeader = Inr (rf', reply)" by (auto simp: isOk_iff)
  from AppendEntry_contract [OF node_ok_sampleLeader ae_ok ae] ae show ?thesis
    by (simp add: sampleLeader_def log_matches_def spliced_def)
qed

text \<open>
  Claim C7. A leader moves its commit index only to an index that a majority of the
  servers holds according to \<open>matchIndex\<close>, that is the largest such index, and whose entry
  is of the leader's own term.
\<close>

theorem leader_commit_rule:
  assumes "node_ok rf" "state rf = Leader" "leaderTryUpdateCommitIndex rf = Inr rf'"
    and "commitIndex rf' \<noteq> commitIndex rf"
  shows "Term (logs rf ! nat (commitIndex rf')) = currentTerm rf \<and>
    peers rf < 2 * int (card {p. p < length (matchIndex rf) \<and> commitIndex rf' \<le> matchIndex rf ! p}) \<and>
    2 * int (card {p. p < length (matchIndex rf) \<and> commitIndex rf' < matchIndex rf ! p}) \<le> peers rf"
proof -
  let ?k = "nat (peers rf div 2 + 1)"
  have k: "1 \<le> ?k" "?k \<le> length (matchIndex rf)" and n: "int ?k = peers rf div 2 + 1"
    using assms(1) by (auto simp: node_ok_def)
  have eq: "commitIndex rf' = majorityIndex rf" "Term (logs rf ! nat (majorityIndex rf)) = currentTerm rf"
    using assms leaderTryUpdateCommitIndex_outcome [of rf]
    by (auto simp: node_ok_def split: if_splits)
  have "int ?k \<le> int (length (filter (\<lambda>x. commitIndex rf' \<le> x) (matchIndex rf)))"
    "int (length (filter (\<lambda>x. commitIndex rf' < x) (matchIndex rf))) < int ?k"
    using kth_largest_count [OF k] eq(1) by (simp_all only: majorityIndex_def of_nat_le_iff of_nat_less_iff)
  then have "peers rf < 2 * int (length (filter (\<lambda>x. commitIndex rf' \<le> x) (matchIndex rf)))"
    "2 * int (length (filter (\<lambda>x. commitIndex rf' < x) (matchIndex rf))) \<le> peers rf"
    unfolding n by linarith+
  with eq show ?thesis by (simp add: card_filter_positions)
qed

theorem leader_commit_rule_witness:
  "\<exists>rf'. leaderTryUpdateCommitIndex (sampleLeader\<lparr>matchIndex := [1, 1, 0]\<rparr>) = Inr rf' \<and>
     commitIndex rf' = 1 \<and>
     3 < 2 * int (card {p. p < length [1, 1, 0 :: int] \<and> 1 \<le> [1, 1, 0 :: int] ! p})"
proof -
  let ?rf = "sampleLeader\<lparr>matchIndex := [1, 1, 0]\<rparr>"
  have ok: "node_ok ?rf" using node_ok_sampleLeader by (simp add: sampleLeader_def node_ok_def leader_ok_def)
  have upd: "leaderTryUpdateCommitIndex ?rf = Inr (?rf\<lparr>commitIndex := 1\<rparr>)"
    using leaderTryUpdateCommitIndex_outcome [OF ok] ok
    by (simp add: node_ok_def sampleLeader_def majorityIndex_def kth_largest_def)
  from leader_commit_rule [OF ok _ upd] upd show ?thesis by (simp add: sampleLeader_def)
qed

text \<open>
  A server that restarts from a copy of the store written by \<open>persist\<close> recovers
  its role, its term, its vote and its log exactly; its commit and apply indices start
  again below the dummy entry, and a recovered leader resumes its heartbeats with
  \<open>nextIndex\<close> just past its log.
\<close>

theorem restart_recovers_state:
  assumes "node_ok rf" "0 \<le> i" "i < n"
  shows "\<exists>rf'. Make zero n i (Copy (persister (persist rf))) = Inr rf' \<and>
    state rf' = state rf \<and> currentTerm rf' = currentTerm rf \<and> votedFor rf' = votedFor rf \<and>
    logs rf' = logs rf \<and> commitIndex rf' = -1 \<and> lastApplied rf' = -1 \<and>
    (state rf = Leader \<longrightarrow> hbs rf' = [HbSelect] \<and>
       (\<forall>x \<in> set (nextIndex rf'). x = int (length (logs rf))))"
proof -
  have "ReadRaftState (Copy (persister (persist rf))) = Some (persisted_state rf)"
    by (simp add: raft_store.load_dup persisted_state_def)
  from Make_recovers [OF assms this] show ?thesis .
qed

theorem restart_recovers_state_witness:
  "\<exists>rf'. Make 0 3 0 (Copy (persister (persist sampleLeader))) = Inr rf' \<and>
     state rf' = Leader \<and> currentTerm rf' = 2 \<and> logs rf' = logs sampleLeader"
  using restart_recovers_state [OF node_ok_sampleLeader, of 0 3 0] by (auto simp: sampleLeader_def)

end
