(* ===== verification/Raft_Cluster.thy ===== *)
theory Raft_Cluster
  imports Raft_Invariant
begin

section \<open>A cluster of Raft servers: election safety\<close>

text \<open>
  All the servers of a cluster and the \<open>RequestVote\<close> calls between them. For the election that
  server \<open>i\<close> started in term \<open>t\<close>, \<open>mail c i t p\<close> is the state of its call to the peer \<open>p\<close>: the
  request is on its way, the reply is, or the reply has been given to \<open>replyHandler\<close> (a call
  gives one reply, a zero reply when it fails). A server's vote for itself counts as a handled
  reply. Calls may be delayed, reordered and lost at any time. Messages of the log replication
  may be anything at all: the elections do not depend on them.

  The servers start on empty persisters and do not restart. Restarts are the subject of
  \<open>self_vote_lost_in_crash\<close>: a candidacy is not persisted, so that after a restart election safety
  does not hold.
\<close>

subsection \<open>Steps of a cluster\<close>

datatype rv_msg = NoMsg | Req RequestVoteArgs | Reply RequestVoteReply | Handled bool

record 'c Cluster =
  csize :: int
  node :: "int \<Rightarrow> 'c Raft"
  mail :: "int \<Rightarrow> int \<Rightarrow> int \<Rightarrow> rv_msg"

definition zeroReply :: RequestVoteReply where
  "zeroReply = \<lparr>CurrentTerm = 0, VoteGranted = False, RVR_MsgNo = 0\<rparr>"

definition setNode :: "int \<Rightarrow> 'c Raft \<Rightarrow> 'c Cluster \<Rightarrow> 'c Cluster" where
  "setNode p rf c = c\<lparr>node := (node c)(p := rf)\<rparr>"

definition setMail :: "int \<Rightarrow> int \<Rightarrow> int \<Rightarrow> rv_msg \<Rightarrow> 'c Cluster \<Rightarrow> 'c Cluster" where
  "setMail i t p m c = c\<lparr>mail := (mail c)(i := (mail c i)(t := (mail c i t)(p := m)))\<rparr>"

definition electionMail :: "int \<Rightarrow> int \<Rightarrow> RequestVoteArgs \<Rightarrow> int \<Rightarrow> rv_msg" where
  "electionMail n i args p = (if p = i then Handled True else if 0 \<le> p \<and> p < n then Req args else NoMsg)"

definition startElection :: "int \<Rightarrow> RequestVoteArgs \<Rightarrow> 'c Cluster \<Rightarrow> 'c Cluster" where
  "startElection i args c = c\<lparr>mail := (mail c)(i := (mail c i)(CandidateTerm args := electionMail (csize c) i args))\<rparr>"

inductive cluster_step :: "'c Cluster \<Rightarrow> 'c Cluster \<Rightarrow> bool" where
  election: "0 \<le> i \<Longrightarrow> i < csize c \<Longrightarrow> candidateRequestVote no (node c i) = Inr (rf', args) \<Longrightarrow>
    cluster_step c (setNode i rf' (startElection i args c))"
| vote: "mail c i t p = Req args \<Longrightarrow> RequestVote recv args (node c p) = Inr (rf', reply) \<Longrightarrow>
    cluster_step c (setNode p rf' (setMail i t p (Reply reply) c))"
| lost_request: "mail c i t p = Req args \<Longrightarrow> cluster_step c (setMail i t p (Reply zeroReply) c)"
| lost_reply: "mail c i t p = Reply reply \<Longrightarrow> cluster_step c (setMail i t p (Reply zeroReply) c)"
| vote_reply: "mail c i t p = Reply reply \<Longrightarrow> replyHandler recv reply t (node c i) = Inr rf' \<Longrightarrow>
    cluster_step c (setNode i rf' (setMail i t p (Handled (VoteGranted reply)) c))"
| append: "AppendEntry recv args (node c p) = Inr (rf', reply) \<Longrightarrow> cluster_step c (setNode p rf' c)"
| append_reply: "AppendLogReplyHandler recv q reply curIndex (node c p) = Inr rf' \<Longrightarrow> cluster_step c (setNode p rf' c)"
| heartbeat: "heartbeatStep k no (node c p) = Inr (rf', msg) \<Longrightarrow> cluster_step c (setNode p rf' c)"
| client: "Start cmd (node c p) = Inr (rf', r) \<Longrightarrow> cluster_step c (setNode p rf' c)"
| apply_entries: "applyEntryRoutine (node c p) = Inr (rf', msgs) \<Longrightarrow> cluster_step c (setNode p rf' c)"
| kill: "Kill (node c p) = Inr rf' \<Longrightarrow> cluster_step c (setNode p rf' c)"

definition cluster_start :: "'c \<Rightarrow> 'c Cluster \<Rightarrow> bool" where
  "cluster_start zero c \<longleftrightarrow> 0 \<le> csize c \<and>
     (\<forall>i. 0 \<le> i \<and> i < csize c \<longrightarrow> Make zero (csize c) i MakePersister = Inr (node c i)) \<and>
     (\<forall>i t p. mail c i t p = NoMsg)"

subsection \<open>What the operations do to a server's part in elections\<close>

definition election_frame :: "'c Raft \<Rightarrow> 'c Raft \<Rightarrow> bool" where
  "election_frame rf rf' \<longleftrightarrow> me rf' = me rf \<and> peers rf' = peers rf \<and> votes rf' = votes rf \<and>
     (currentTerm rf' = currentTerm rf \<and> votedFor rf' = votedFor rf \<and> (state rf' = state rf \<or> state rf' = Follower) \<or>
      currentTerm rf < currentTerm rf' \<and> state rf' = Follower)"

lemma election_frame_refl [simp]: "election_frame rf rf"
  by (simp add: election_frame_def)

lemma election_frame_trans: "election_frame a b \<Longrightarrow> election_frame b c \<Longrightarrow> election_frame a c"
  by (auto simp: election_frame_def)

lemma election_frame_cong:
  "me b = me a \<Longrightarrow> peers b = peers a \<Longrightarrow> votes b = votes a \<Longrightarrow> currentTerm b = currentTerm a \<Longrightarrow> votedFor b = votedFor a \<Longrightarrow>
    state b = state a \<or> state b = Follower \<Longrightarrow> election_frame a b"
  by (simp add: election_frame_def)

lemma frame_turnToFollower: "turnToFollower recv t rf = Inr rf' \<Longrightarrow> currentTerm rf < t \<Longrightarrow> election_frame rf rf'"
  by (simp add: election_frame_def turnToFollower_fields)

lemma frame_acceptLeader [simp]: "election_frame rf (acceptLeader rf)"
  by (simp add: election_frame_def acceptLeader_def)

lemma frame_persist [simp]: "election_frame rf (persist rf)"
  by (simp add: election_frame_def)

lemma bindE_InrE: "bindE m f = Inr y \<Longrightarrow> (\<And>x. m = Inr x \<Longrightarrow> f x = Inr y \<Longrightarrow> P) \<Longrightarrow> P"
  by (auto simp: bindE_eq_Inr_iff)

lemma AppendEntry_tail:
  assumes "(if ok then bindE m (\<lambda>kept. Inr (persist (if late kept then rf\<lparr>logs := l kept, commitIndex := k\<rparr> else rf\<lparr>logs := l kept\<rparr>), r1))
    else Inr (persist rf, r2)) = Inr (rf', reply)"
  shows "election_frame rf rf'"
  using assms by (cases ok) (auto simp: election_frame_def elim!: bindE_InrE)

lemma frame_AppendEntry:
  assumes "AppendEntry recv args rf = Inr (rf', reply)"
  shows "election_frame rf rf'"
proof -
  from assms obtain rf1 where turn: "(if AE_Term args > currentTerm rf then turnToFollower recv (AE_Term args) rf else Inr rf) = Inr rf1"
    by (auto simp: AppendEntry_def Let_def bindE_eq_Inr_iff)
  then have "election_frame rf rf1" by (auto simp: frame_turnToFollower split: if_splits)
  moreover have "election_frame rf1 rf'"
  proof -
    note body = assms [unfolded AppendEntry_def Let_def turn bindE_Inr]
    show ?thesis
    proof (cases "AE_Term args < currentTerm rf1")
      case True
      with body show ?thesis by auto
    next
      case False
      from body [unfolded if_not_P [OF False]] show ?thesis
        by (elim bindE_InrE) (drule AppendEntry_tail, rule election_frame_trans [OF frame_acceptLeader])
    qed
  qed
  ultimately show ?thesis by (rule election_frame_trans)
qed

lemma frame_leaderTryUpdateCommitIndex: "leaderTryUpdateCommitIndex rf = Inr rf' \<Longrightarrow> election_frame rf rf'"
  by (auto simp: leaderTryUpdateCommitIndex_def Let_def bindE_eq_Inr_iff election_frame_def split: if_splits)

lemma frame_AppendLogReplyHandler:
  assumes "AppendLogReplyHandler recv q reply curIndex rf = Inr rf'"
  shows "election_frame rf rf'"
proof -
  from assms obtain rf1 where turn: "(if Success reply = False \<and> AER_Term reply \<noteq> -1 \<and> AER_Term reply > currentTerm rf
      then turnToFollower recv (AER_Term reply) rf else Inr rf) = Inr rf1"
    by (auto simp: AppendLogReplyHandler_def bindE_eq_Inr_iff)
  then have "election_frame rf rf1" by (auto simp: frame_turnToFollower split: if_splits)
  moreover have "election_frame rf1 rf'"
  proof -
    have "rf' = rf1 \<or> (\<exists>ni. rf' = rf1\<lparr>nextIndex := ni\<rparr>) \<or>
      (\<exists>ni mi. leaderTryUpdateCommitIndex (rf1\<lparr>nextIndex := ni, matchIndex := mi\<rparr>) = Inr rf')"
      using assms unfolding AppendLogReplyHandler_def turn by (auto simp: bindE_eq_Inr_iff split: if_splits)
    then show ?thesis
      using frame_leaderTryUpdateCommitIndex by (fastforce simp: election_frame_def)
  qed
  ultimately show ?thesis by (rule election_frame_trans)
qed

lemma frame_heartbeatStep: "heartbeatStep k no rf = Inr (rf', msg) \<Longrightarrow> election_frame rf rf'"
  by (auto simp: heartbeatStep_def Let_def bindE_eq_Inr_iff election_frame_def split: if_splits hb_pc.splits)

lemma frame_Start: "Start cmd rf = Inr (rf', r) \<Longrightarrow> election_frame rf rf'"
  by (auto simp: Start_def Let_def bindE_eq_Inr_iff election_frame_def split: if_splits)

lemma frame_applyEntryRoutine: "applyEntryRoutine rf = Inr (rf', msgs) \<Longrightarrow> election_frame rf rf'"
  by (auto simp: applyEntryRoutine_def bindE_eq_Inr_iff election_frame_def split: if_splits)

lemma frame_Kill: "Kill rf = Inr rf' \<Longrightarrow> election_frame rf rf'"
  by (auto simp: Kill_def election_frame_def split: if_splits)

lemma RequestVote_tail:
  assumes "(if older then Inr (a, r1) else if free then bindE m (\<lambda>x. if up x then Inr (b, r2) else Inr (a, r3)) else Inr (a, r4)) = Inr (rf', reply)"
  shows "(rf' = a \<and> (reply = r1 \<or> reply = r3 \<or> reply = r4)) \<or> (rf' = b \<and> reply = r2 \<and> \<not> older \<and> free)"
  using assms by (auto elim!: bindE_InrE split: if_splits)

lemma RequestVote_election:
  assumes "RequestVote recv args rf = Inr (rf', reply)"
  shows "\<not> VoteGranted reply \<Longrightarrow> election_frame rf rf'"
    and "VoteGranted reply \<Longrightarrow> me rf' = me rf \<and> peers rf' = peers rf \<and> votes rf' = votes rf \<and> state rf' = Follower \<and>
      currentTerm rf' = CandidateTerm args \<and> votedFor rf' = CandidateID args \<and> currentTerm rf \<le> CandidateTerm args \<and>
      (currentTerm rf = CandidateTerm args \<longrightarrow> votedFor rf = -1 \<or> votedFor rf = CandidateID args)"
proof -
  note run = assms [unfolded RequestVote_def Let_def]
  from run obtain rf1 where ad: "adoptTerm recv (CandidateTerm args) rf = Inr rf1" by (elim bindE_InrE)
  note f = adoptTerm_fields [OF ad]
  have "(rf' = persist rf1 \<and> \<not> VoteGranted reply) \<or>
    (VoteGranted reply \<and> currentTerm rf1 = CandidateTerm args \<and> (votedFor rf1 = -1 \<or> votedFor rf1 = CandidateID args) \<and>
     rf' = persist (resetTimer (rf1\<lparr>state := Follower, currentTerm := CandidateTerm args,
       votedFor := CandidateID args, leader := CandidateID args\<rparr>)))"
    using RequestVote_tail [OF run [unfolded ad bindE_Inr]] f(1) by auto
  with f show "\<not> VoteGranted reply \<Longrightarrow> election_frame rf rf'"
    "VoteGranted reply \<Longrightarrow> me rf' = me rf \<and> peers rf' = peers rf \<and> votes rf' = votes rf \<and> state rf' = Follower \<and>
      currentTerm rf' = CandidateTerm args \<and> votedFor rf' = CandidateID args \<and> currentTerm rf \<le> CandidateTerm args \<and>
      (currentTerm rf = CandidateTerm args \<longrightarrow> votedFor rf = -1 \<or> votedFor rf = CandidateID args)"
    by (auto simp: election_frame_def max_def split: if_splits)
qed

lemma candidateRequestVote_election:
  assumes "candidateRequestVote no rf = Inr (rf', args)"
  shows "me rf' = me rf" "peers rf' = peers rf" "state rf' = Candidate" "currentTerm rf' = currentTerm rf + 1"
    "votedFor rf' = me rf" "votes rf' = (votes rf)(currentTerm rf + 1 := 1)"
    "CandidateTerm args = currentTerm rf + 1" "CandidateID args = me rf"
  using assms by (auto simp: candidateRequestVote_def Let_def bindE_eq_Inr_iff)

lemma electionSuccessReset_election:
  assumes "electionSuccessReset rf = Inr rf'"
  shows "me rf' = me rf" "peers rf' = peers rf" "state rf' = Leader" "currentTerm rf' = currentTerm rf"
    "votedFor rf' = votedFor rf" "votes rf' = votes rf"
  using assms by (auto simp: electionSuccessReset_def Let_def bindE_eq_Inr_iff split: if_splits)

text \<open>A reply either leaves the server's part as it is, or counts a vote and may make it the leader.\<close>

lemma replyHandler_election:
  assumes "replyHandler recv reply t rf = Inr rf'"
  shows "election_frame rf rf' \<or>
    (VoteGranted reply \<and> currentTerm rf \<le> t \<and> state rf = Candidate \<and> me rf' = me rf \<and> peers rf' = peers rf \<and>
     currentTerm rf' = currentTerm rf \<and> votedFor rf' = votedFor rf \<and> votes rf' = (votes rf)(t := votes rf t + 1) \<and>
     (state rf' = Candidate \<or> state rf' = Leader \<and> peers rf < 2 * (votes rf t + 1)))"
proof (cases "currentTerm rf > t \<or> \<not> (state rf = Candidate \<and> VoteGranted reply)")
  case True
  then show ?thesis
    using assms frame_turnToFollower
    by (auto simp: replyHandler_def bindE_eq_Inr_iff turnToFollower_fields split: if_splits)
next
  case False
  then show ?thesis
    using assms
    by (auto simp: replyHandler_def Let_def bindE_eq_Inr_iff electionSuccessReset_election split: if_splits)
qed

subsection \<open>The invariant of the elections\<close>

definition granted :: "'c Cluster \<Rightarrow> int \<Rightarrow> int \<Rightarrow> int \<Rightarrow> bool" where
  "granted c i t p \<longleftrightarrow> mail c i t p = Handled True \<or> (\<exists>r. mail c i t p = Reply r \<and> VoteGranted r)"

definition voters :: "'c Cluster \<Rightarrow> int \<Rightarrow> int \<Rightarrow> int set" where
  "voters c i t = {p. mail c i t p = Handled True}"

definition servers_ok :: "'c Cluster \<Rightarrow> bool" where
  "servers_ok c \<longleftrightarrow> (\<forall>i. 0 \<le> i \<and> i < csize c \<longrightarrow> me (node c i) = i \<and> peers (node c i) = csize c)"

definition mail_ok :: "'c Cluster \<Rightarrow> bool" where
  "mail_ok c \<longleftrightarrow> (\<forall>i t p. mail c i t p \<noteq> NoMsg \<longrightarrow>
     0 \<le> i \<and> i < csize c \<and> 0 \<le> p \<and> p < csize c \<and> t \<le> currentTerm (node c i) \<and>
     (\<forall>args. mail c i t p = Req args \<longrightarrow> CandidateTerm args = t \<and> CandidateID args = i))"

definition ballots_ok :: "'c Cluster \<Rightarrow> bool" where
  "ballots_ok c \<longleftrightarrow> (\<forall>i t p. granted c i t p \<longrightarrow> t \<le> currentTerm (node c p) \<and> (t = currentTerm (node c p) \<longrightarrow> votedFor (node c p) = i)) \<and>
     (\<forall>i j t p. granted c i t p \<longrightarrow> granted c j t p \<longrightarrow> i = j)"

definition counts_ok :: "'c Cluster \<Rightarrow> bool" where
  "counts_ok c \<longleftrightarrow> (\<forall>i. 0 \<le> i \<and> i < csize c \<longrightarrow>
     (state (node c i) = Candidate \<longrightarrow> votes (node c i) (currentTerm (node c i)) \<le> int (card (voters c i (currentTerm (node c i))))) \<and>
     (state (node c i) = Leader \<longrightarrow> majority (csize c) (voters c i (currentTerm (node c i)))))"

definition elections_ok :: "'c Cluster \<Rightarrow> bool" where
  "elections_ok c \<longleftrightarrow> 0 \<le> csize c \<and> servers_ok c \<and> mail_ok c \<and> ballots_ok c \<and> counts_ok c"

lemmas election_defs = elections_ok_def servers_ok_def mail_ok_def ballots_ok_def counts_ok_def

lemma setNode_simps [simp]: "csize (setNode p rf c) = csize c" "mail (setNode p rf c) = mail c" "node (setNode p rf c) = (node c)(p := rf)"
  "granted (setNode p rf c) = granted c" "voters (setNode p rf c) = voters c"
  by (simp_all add: setNode_def granted_def [abs_def] voters_def [abs_def])

lemma setMail_simps [simp]: "csize (setMail i t p m c) = csize c" "node (setMail i t p m c) = node c"
  "mail (setMail i t p m c) j u q = (if j = i \<and> u = t \<and> q = p then m else mail c j u q)"
  by (simp_all add: setMail_def)

lemma startElection_simps [simp]: "csize (startElection i args c) = csize c" "node (startElection i args c) = node c"
  "mail (startElection i args c) j u q = (if j = i \<and> u = CandidateTerm args then electionMail (csize c) i args q else mail c j u q)"
  by (simp_all add: startElection_def)

lemma mail_okD:
  assumes "mail_ok c" "mail c i t p \<noteq> NoMsg"
  shows "0 \<le> i" "i < csize c" "0 \<le> p" "p < csize c" "t \<le> currentTerm (node c i)"
    "mail c i t p = Req args \<Longrightarrow> CandidateTerm args = t \<and> CandidateID args = i"
  using assms unfolding mail_ok_def by blast+

lemma mail_ok_setMail: "mail_ok c \<Longrightarrow> mail c i t p \<noteq> NoMsg \<Longrightarrow> (\<And>args. m \<noteq> Req args) \<Longrightarrow> mail_ok (setMail i t p m c)"
  using mail_okD(1-5) [of c i t p] by (simp add: mail_ok_def)

lemma mail_ok_setNode: "mail_ok c \<Longrightarrow> currentTerm (node c p) \<le> currentTerm rf' \<Longrightarrow> mail_ok (setNode p rf' c)"
proof -
  assume ok: "mail_ok c" and later: "currentTerm (node c p) \<le> currentTerm rf'"
  have "t \<le> currentTerm (node (setNode p rf' c) i)" if "mail c i t q \<noteq> NoMsg" for i t q
    using mail_okD(5) [OF ok that] later by auto
  with ok show ?thesis by (simp add: mail_ok_def)
qed

lemma ballots_okD:
  assumes "ballots_ok c" "granted c i t p"
  shows "t \<le> currentTerm (node c p)" "t = currentTerm (node c p) \<Longrightarrow> votedFor (node c p) = i" "granted c j t p \<Longrightarrow> i = j"
  using assms unfolding ballots_ok_def by blast+

lemma ballots_okI:
  assumes "\<And>i t p. granted c i t p \<Longrightarrow> t \<le> currentTerm (node c p)"
    "\<And>i p. granted c i (currentTerm (node c p)) p \<Longrightarrow> votedFor (node c p) = i"
    "\<And>i j t p. granted c i t p \<Longrightarrow> granted c j t p \<Longrightarrow> i = j"
  shows "ballots_ok c"
  using assms unfolding ballots_ok_def by blast

lemma voters_range: "mail_ok c \<Longrightarrow> voters c i t \<subseteq> {0..<csize c}"
proof
  fix p
  assume ok: "mail_ok c" and "p \<in> voters c i t"
  then have "mail c i t p \<noteq> NoMsg" by (simp add: voters_def)
  with ok show "p \<in> {0..<csize c}" by (simp add: mail_ok_def)
qed

text \<open>A step of one server that is no part of an election.\<close>

lemma elections_ok_frame:
  assumes ok: "elections_ok c" and frame: "election_frame (node c p) rf'"
  shows "elections_ok (setNode p rf' c)"
proof -
  have later: "currentTerm (node c p) \<le> currentTerm rf'" using frame by (auto simp: election_frame_def)
  have "servers_ok (setNode p rf' c)" using ok frame by (auto simp: elections_ok_def servers_ok_def election_frame_def)
  moreover have "mail_ok (setNode p rf' c)" using ok later by (simp add: elections_ok_def mail_ok_setNode)
  moreover have "ballots_ok (setNode p rf' c)"
  proof (rule ballots_okI)
    have b: "ballots_ok c" using ok by (simp add: elections_ok_def)
    show "u \<le> currentTerm (node (setNode p rf' c) q)" if "granted (setNode p rf' c) j u q" for j u q
      using that ballots_okD(1) [OF b, of j u q] later by auto
    show "votedFor (node (setNode p rf' c) q) = j" if "granted (setNode p rf' c) j (currentTerm (node (setNode p rf' c) q)) q" for j q
      using that ballots_okD(1,2) [OF b, of j "currentTerm (node (setNode p rf' c) q)" q] frame
      by (cases "q = p") (auto simp: election_frame_def)
    show "j = k" if "granted (setNode p rf' c) j u q" "granted (setNode p rf' c) k u q" for j k u q
      using that ballots_okD(3) [OF b, of j u q k] by simp
  qed
  moreover have "counts_ok (setNode p rf' c)" using ok frame by (auto simp: elections_ok_def counts_ok_def election_frame_def)
  ultimately show ?thesis using ok by (simp add: elections_ok_def)
qed

text \<open>A change of a message that does not lose a counted vote or invent one.\<close>

lemma elections_ok_lost:
  assumes ok: "elections_ok c" and m: "mail c i t p = Req args \<or> mail c i t p = Reply reply" and "\<not> VoteGranted r"
  shows "elections_ok (setMail i t p (Reply r) c)"
proof -
  let ?c = "setMail i t p (Reply r) c"
  have granted: "granted ?c j u q \<Longrightarrow> granted c j u q" for j u q using assms(3) by (auto simp: granted_def split: if_splits)
  have voters: "voters ?c j u = voters c j u" for j u using m by (auto simp: voters_def)
  have "servers_ok ?c" using ok by (simp add: elections_ok_def servers_ok_def)
  moreover have "mail_ok ?c" using ok m by (intro mail_ok_setMail) (auto simp: elections_ok_def)
  moreover have "ballots_ok ?c"
  proof -
    have b: "ballots_ok c" using ok by (simp add: elections_ok_def)
    show ?thesis
    proof (rule ballots_okI)
      show "u \<le> currentTerm (node ?c q)" if "granted ?c j u q" for j u q
        using ballots_okD(1) [OF b granted [OF that]] by simp
      show "votedFor (node ?c q) = j" if "granted ?c j (currentTerm (node ?c q)) q" for j q
        using ballots_okD(2) [OF b granted [OF that]] by simp
      show "j = k" if "granted ?c j u q" "granted ?c k u q" for j k u q
        using ballots_okD(3) [OF b granted [OF that(1)] granted [OF that(2)]] .
    qed
  qed
  moreover have "counts_ok ?c" using ok by (simp add: elections_ok_def counts_ok_def voters)
  ultimately show ?thesis using ok by (simp add: elections_ok_def)
qed

lemma elections_ok_vote:
  assumes ok: "elections_ok c" and m: "mail c i t p = Req args" and rv: "RequestVote recv args (node c p) = Inr (rf', reply)"
  shows "elections_ok (setNode p rf' (setMail i t p (Reply reply) c))"
proof (cases "VoteGranted reply")
  case False
  show ?thesis
    by (rule elections_ok_frame [OF elections_ok_lost [OF ok _ False]]) (use m RequestVote_election(1) [OF rv False] in auto)
next
  case True
  let ?c = "setNode p rf' (setMail i t p (Reply reply) c)"
  note rf' = RequestVote_election(2) [OF rv True]
  have args: "CandidateTerm args = t" "CandidateID args = i" "0 \<le> i"
    using ok m mail_okD(1) [of c i t p] mail_okD(6) [of c i t p args] by (simp_all add: elections_ok_def)
  have range: "0 \<le> j" if "granted c j u q" for j u q
    using ok that mail_okD(1) [of c j u q] by (auto simp: elections_ok_def granted_def)
  have granted: "granted ?c j u q \<longleftrightarrow> granted c j u q \<or> j = i \<and> u = t \<and> q = p" for j u q
    using True m by (auto simp: granted_def)
  have voters: "voters (setMail i t p (Reply reply) c) j u = voters c j u" for j u using m by (auto simp: voters_def)
  have before: "u \<le> currentTerm (node c p)" "u = currentTerm (node c p) \<longrightarrow> votedFor (node c p) = j" if "granted c j u p" for j u
    using ok ballots_okD(1,2) [OF _ that] by (auto simp: elections_ok_def)
  have same: "j = i" if "granted c j t p" for j
    using before [OF that] range [OF that] rf' args by auto
  have "servers_ok ?c" using ok rf' by (auto simp: elections_ok_def servers_ok_def)
  moreover have "mail_ok ?c" using ok m rf' args by (intro mail_ok_setNode mail_ok_setMail) (auto simp: elections_ok_def)
  moreover have "ballots_ok ?c"
  proof (rule ballots_okI)
    have b: "ballots_ok c" using ok by (simp add: elections_ok_def)
    show "u \<le> currentTerm (node ?c q)" if "granted ?c j u q" for j u q
      using that [unfolded granted] ballots_okD(1) [OF b, of j u q] rf' args by auto
    show "votedFor (node ?c q) = j" if "granted ?c j (currentTerm (node ?c q)) q" for j q
      using that [unfolded granted] ballots_okD(2) [OF b, of j "currentTerm (node c q)" q] rf' args same [of j] by (cases "q = p") auto
    show "j = k" if "granted ?c j u q" "granted ?c k u q" for j k u q
      using that [unfolded granted] ballots_okD(3) [OF b, of j u q k] same [of j] same [of k] by blast
  qed
  moreover have "counts_ok ?c" using ok rf' by (auto simp: elections_ok_def counts_ok_def voters)
  ultimately show ?thesis using ok by (simp add: elections_ok_def)
qed

lemma majority_mono: "majority n S \<Longrightarrow> S \<subseteq> T \<Longrightarrow> T \<subseteq> {0..<n} \<Longrightarrow> majority n T"
proof -
  assume S: "majority n S" and sub: "S \<subseteq> T" "T \<subseteq> {0..<n}"
  then have "card S \<le> card T" by (intro card_mono) (auto dest: finite_subset)
  with S sub show ?thesis by (simp add: majority_def)
qed

lemma card_voters_mono: "mail_ok c' \<Longrightarrow> voters c i t \<subseteq> voters c' i t \<Longrightarrow> card (voters c i t) \<le> card (voters c' i t)"
  using voters_range [of c' i t] by (intro card_mono) (auto dest: finite_subset)

lemma counts_okD:
  assumes "counts_ok c" "0 \<le> i" "i < csize c"
  shows "state (node c i) = Candidate \<Longrightarrow> votes (node c i) (currentTerm (node c i)) \<le> int (card (voters c i (currentTerm (node c i))))"
    "state (node c i) = Leader \<Longrightarrow> majority (csize c) (voters c i (currentTerm (node c i)))"
  using assms unfolding counts_ok_def by blast+

lemma counts_okI:
  assumes "\<And>i. 0 \<le> i \<Longrightarrow> i < csize c \<Longrightarrow> state (node c i) = Candidate \<Longrightarrow>
      votes (node c i) (currentTerm (node c i)) \<le> int (card (voters c i (currentTerm (node c i))))"
    "\<And>i. 0 \<le> i \<Longrightarrow> i < csize c \<Longrightarrow> state (node c i) = Leader \<Longrightarrow> majority (csize c) (voters c i (currentTerm (node c i)))"
  shows "counts_ok c"
  using assms unfolding counts_ok_def by blast

lemma elections_ok_handled:
  assumes ok: "elections_ok c" and m: "mail c i t p = Reply r"
  shows "elections_ok (setMail i t p (Handled (VoteGranted r)) c)"
proof -
  let ?c = "setMail i t p (Handled (VoteGranted r)) c"
  have granted: "granted ?c j u q = granted c j u q" for j u q using m by (auto simp: granted_def)
  have voters: "voters c j u \<subseteq> voters ?c j u" for j u using m by (auto simp: voters_def)
  have mail: "mail_ok ?c" using ok m by (intro mail_ok_setMail) (auto simp: elections_ok_def)
  have b: "ballots_ok c" and counts: "counts_ok c" using ok by (simp_all add: elections_ok_def)
  have "ballots_ok ?c"
    by (rule ballots_okI) (use ballots_okD [OF b] in \<open>simp_all add: granted\<close>)
  moreover have "counts_ok ?c"
  proof (rule counts_okI)
    fix j assume j: "0 \<le> j" "j < csize ?c"
    show "votes (node ?c j) (currentTerm (node ?c j)) \<le> int (card (voters ?c j (currentTerm (node ?c j))))" if "state (node ?c j) = Candidate"
      using counts_okD(1) [OF counts, of j] j that card_voters_mono [OF mail voters, of j "currentTerm (node c j)"] by simp
    show "majority (csize ?c) (voters ?c j (currentTerm (node ?c j)))" if "state (node ?c j) = Leader"
      using counts_okD(2) [OF counts, of j] j that majority_mono [OF _ voters] voters_range [OF mail] by simp
  qed
  moreover have "servers_ok ?c" using ok by (simp add: elections_ok_def servers_ok_def)
  ultimately show ?thesis using ok mail by (simp add: elections_ok_def)
qed

lemma elections_ok_reply:
  assumes ok: "elections_ok c" and m: "mail c i t p = Reply r" and rh: "replyHandler recv r t (node c i) = Inr rf'"
  shows "elections_ok (setNode i rf' (setMail i t p (Handled (VoteGranted r)) c))"
proof (cases "election_frame (node c i) rf'")
  case True
  then show ?thesis by (intro elections_ok_frame elections_ok_handled [OF ok m]) simp
next
  case False
  let ?c1 = "setMail i t p (Handled (VoteGranted r)) c"
  from replyHandler_election [OF rh] False have rf': "VoteGranted r" "currentTerm (node c i) \<le> t" "state (node c i) = Candidate"
    "me rf' = me (node c i)" "peers rf' = peers (node c i)" "currentTerm rf' = currentTerm (node c i)" "votedFor rf' = votedFor (node c i)"
    "votes rf' = (votes (node c i))(t := votes (node c i) t + 1)"
    "state rf' = Candidate \<or> state rf' = Leader \<and> peers (node c i) < 2 * (votes (node c i) t + 1)" by auto
  have ok1: "elections_ok ?c1" by (rule elections_ok_handled [OF ok m])
  then have parts: "servers_ok ?c1" "mail_ok ?c1" "ballots_ok ?c1" "counts_ok ?c1" "0 \<le> csize c" by (simp_all add: elections_ok_def)
  have mok: "mail_ok c" and counts: "counts_ok c" and srv: "servers_ok c" using ok by (simp_all add: elections_ok_def)
  have i: "0 \<le> i" "i < csize c" "t \<le> currentTerm (node c i)" using mail_okD(1,2,5) [OF mok, of i t p] m by simp_all
  with rf'(2) have t: "currentTerm (node c i) = t" by simp
  have "peers (node c i) = csize c" using srv i by (simp add: servers_ok_def)
  have "voters ?c1 i t = insert p (voters c i t)" "p \<notin> voters c i t" using m rf'(1) by (auto simp: voters_def)
  moreover have fin: "finite (voters c i t)" using voters_range [OF mok] finite_subset by blast
  ultimately have card1: "int (card (voters ?c1 i t)) = int (card (voters c i t)) + 1" by simp
  then have count: "votes rf' t \<le> int (card (voters ?c1 i t))"
    using counts_okD(1) [OF counts i(1,2) rf'(3)] rf'(8) t by simp
  let ?c = "setNode i rf' ?c1"
  have "counts_ok ?c"
  proof (rule counts_okI)
    fix j assume j: "0 \<le> j" "j < csize ?c"
    show "votes (node ?c j) (currentTerm (node ?c j)) \<le> int (card (voters ?c j (currentTerm (node ?c j))))" if "state (node ?c j) = Candidate"
      using counts_okD(1) [OF parts(4), of j] j that count rf'(6) t by (cases "j = i") simp_all
    show "majority (csize ?c) (voters ?c j (currentTerm (node ?c j)))" if "state (node ?c j) = Leader"
    proof (cases "j = i")
      case True
      with that rf'(9) \<open>peers (node c i) = csize c\<close> have "csize c < 2 * votes rf' t" by (simp add: rf'(8))
      with count True rf'(6) t parts(5) voters_range [OF parts(2), of i t] show ?thesis by (simp add: majority_def)
    next
      case False
      with counts_okD(2) [OF parts(4), of j] j that show ?thesis by simp
    qed
  qed
  moreover have "mail_ok ?c" by (rule mail_ok_setNode [OF parts(2)]) (simp add: rf'(6))
  moreover have "ballots_ok ?c"
    by (rule ballots_okI) (use ballots_okD [OF parts(3)] rf'(6,7) in \<open>auto split: if_splits\<close>)
  moreover have "servers_ok ?c" using parts(1) rf'(4,5) by (simp add: servers_ok_def)
  ultimately show ?thesis using parts(5) by (simp add: elections_ok_def)
qed

lemma elections_ok_start:
  assumes ok: "elections_ok c" and i: "0 \<le> i" "i < csize c" and crv: "candidateRequestVote no (node c i) = Inr (rf', args)"
  shows "elections_ok (setNode i rf' (startElection i args c))"
proof -
  note rf' = candidateRequestVote_election [OF crv]
  let ?t = "currentTerm (node c i) + 1" and ?c = "setNode i rf' (startElection i args c)"
  have parts: "servers_ok c" "mail_ok c" "ballots_ok c" "counts_ok c" "0 \<le> csize c" using ok by (simp_all add: elections_ok_def)
  have me: "me (node c i) = i" using parts(1) i by (simp add: servers_ok_def)
  have none: "mail c i ?t p = NoMsg" for p using mail_okD(5) [OF parts(2), of i ?t p] by auto
  have granted: "granted ?c j u q \<longleftrightarrow> granted c j u q \<or> j = i \<and> u = ?t \<and> q = i" for j u q
    using none by (auto simp: granted_def rf'(7) electionMail_def)
  have old: "u \<le> currentTerm (node c i)" if "granted c j u i" for j u by (rule ballots_okD(1) [OF parts(3) that])
  have voters: "voters (startElection i args c) j u = (if j = i \<and> u = ?t then {i} else voters c j u)" for j u
    using none by (auto simp: voters_def rf'(7) electionMail_def)
  have "servers_ok ?c" using parts(1) rf'(1,2) by (simp add: servers_ok_def)
  moreover have "mail_ok ?c"
    unfolding mail_ok_def
  proof (intro allI impI)
    fix j u q
    assume "mail ?c j u q \<noteq> NoMsg"
    then have cases: "(j = i \<and> u = ?t \<and> 0 \<le> q \<and> q < csize c) \<or> ((j \<noteq> i \<or> u \<noteq> ?t) \<and> mail c j u q \<noteq> NoMsg)"
      using i by (auto simp: rf'(7) electionMail_def split: if_splits)
    then show "0 \<le> j \<and> j < csize ?c \<and> 0 \<le> q \<and> q < csize ?c \<and> u \<le> currentTerm (node ?c j) \<and>
      (\<forall>a. mail ?c j u q = Req a \<longrightarrow> CandidateTerm a = u \<and> CandidateID a = j)"
    proof
      assume "j = i \<and> u = ?t \<and> 0 \<le> q \<and> q < csize c"
      then show ?thesis using i me rf'(4,7,8) by (simp add: electionMail_def)
    next
      assume "(j \<noteq> i \<or> u \<noteq> ?t) \<and> mail c j u q \<noteq> NoMsg"
      with mail_okD [OF parts(2), of j u q] show ?thesis using rf'(4,7) by auto
    qed
  qed
  moreover have "ballots_ok ?c"
  proof (rule ballots_okI)
    show "u \<le> currentTerm (node ?c q)" if "granted ?c j u q" for j u q
      using that [unfolded granted] ballots_okD(1) [OF parts(3), of j u q] rf'(4) by auto
    show "votedFor (node ?c q) = j" if "granted ?c j (currentTerm (node ?c q)) q" for j q
      using that [unfolded granted] ballots_okD(2) [OF parts(3), of j "currentTerm (node c q)" q] old [of j ?t] rf'(4,5) me
      by (cases "q = i") auto
    show "j = k" if "granted ?c j u q" "granted ?c k u q" for j k u q
      using that [unfolded granted] ballots_okD(3) [OF parts(3), of j u q k] old [of j u] old [of k u] by auto
  qed
  moreover have "counts_ok ?c"
  proof (rule counts_okI)
    fix j assume j: "0 \<le> j" "j < csize ?c"
    show "votes (node ?c j) (currentTerm (node ?c j)) \<le> int (card (voters ?c j (currentTerm (node ?c j))))" if "state (node ?c j) = Candidate"
      using counts_okD(1) [OF parts(4), of j] j that rf'(4,6) by (cases "j = i") (simp_all add: voters)
    show "majority (csize ?c) (voters ?c j (currentTerm (node ?c j)))" if "state (node ?c j) = Leader"
      using counts_okD(2) [OF parts(4), of j] j that rf'(3) by (cases "j = i") (simp_all add: voters)
  qed
  ultimately show ?thesis using parts(5) by (simp add: elections_ok_def)
qed

lemma elections_ok_step: "elections_ok c \<Longrightarrow> cluster_step c c' \<Longrightarrow> elections_ok c'"
  by (erule cluster_step.cases)
    (auto intro: elections_ok_start elections_ok_vote elections_ok_reply elections_ok_lost elections_ok_frame
      frame_AppendEntry frame_AppendLogReplyHandler frame_heartbeatStep frame_Start frame_applyEntryRoutine frame_Kill
      simp: zeroReply_def)

lemma Make_fresh: "Make zero n i MakePersister = Inr ((freshRaft zero n i MakePersister)\<lparr>electionTimer := True\<rparr>)"
  by (simp add: Make_def freshRaft_def ReadRaftState_def MakePersister_def readPersist_def Let_def)

lemma elections_ok_init: "cluster_start zero c \<Longrightarrow> elections_ok c"
proof -
  assume start: "cluster_start zero c"
  then have nodes: "node c i = (freshRaft zero (csize c) i MakePersister)\<lparr>electionTimer := True\<rparr>" if "0 \<le> i" "i < csize c" for i
    using that by (auto simp: cluster_start_def Make_fresh)
  have "mail c i t p = NoMsg" for i t p using start by (simp add: cluster_start_def)
  with start nodes show ?thesis
    by (simp add: elections_ok_def servers_ok_def mail_ok_def ballots_ok_def counts_ok_def granted_def cluster_start_def freshRaft_def)
qed

interpretation elections: inductive_invariant "cluster_start zero" cluster_step elections_ok for zero :: 'c
  by unfold_locales (auto intro: elections_ok_init elections_ok_step)

subsection \<open>A vote that was counted stays counted\<close>

lemma voters_step:
  assumes "elections_ok c" "cluster_step c c'"
  shows "voters c i t \<subseteq> voters c' i t \<and> csize c' = csize c"
  using assms(2)
proof cases
  case (election j no rf' args)
  note rf' = candidateRequestVote_election [OF election(4)]
  have "mail_ok c" using assms(1) by (simp add: elections_ok_def)
  then have "voters c j (CandidateTerm args) = {}"
    using mail_okD(5) [of c j "CandidateTerm args"] rf'(7) by (fastforce simp: voters_def)
  then show ?thesis by (auto simp: election voters_def)
qed (auto simp: voters_def)

lemma voters_reachable:
  assumes "reachable_from cluster_step c c'" "elections_ok c"
  shows "voters c i t \<subseteq> voters c' i t \<and> csize c' = csize c \<and> elections_ok c'"
  using assms
proof (induction rule: reachable_from.induct)
  case (reach_step d d')
  then show ?case using voters_step [of d d' i t] elections_ok_step [of d d'] by auto
qed simp

lemma leader_elected:
  assumes "elections_ok c" "0 \<le> i" "i < csize c" "state (node c i) = Leader"
  shows "majority (csize c) (voters c i (currentTerm (node c i)))"
  using assms counts_okD(2) by (auto simp: elections_ok_def)

lemma elected_unique:
  assumes "elections_ok c" "majority (csize c) (voters c i t)" "majority (csize c) (voters c j t)"
  shows "i = j"
proof -
  from majorities.quorum_meet [OF assms(2,3)] obtain p where "p \<in> voters c i t" "p \<in> voters c j t" by blast
  then have "granted c i t p" "granted c j t p" by (simp_all add: voters_def granted_def)
  with ballots_okD(3) assms(1) show ?thesis by (auto simp: elections_ok_def)
qed

subsection \<open>Properties\<close>

text \<open>
  Claim C1. Election safety: in a cluster whose servers do not restart, at most one server is ever
  the leader of a term. If server \<open>i\<close> is the leader of a term in a reachable state and \<open>j\<close> is the
  leader of the same term in the same or a later state, they are the same server, whatever the
  delays, losses and interleavings and whatever append messages the servers receive.
\<close>

theorem election_safety:
  assumes "cluster_start zero c0" "reachable_from cluster_step c0 c" "reachable_from cluster_step c c'"
    and "0 \<le> i" "i < csize c0" "state (node c i) = Leader"
    and "0 \<le> j" "j < csize c0" "state (node c' j) = Leader" "currentTerm (node c' j) = currentTerm (node c i)"
  shows "i = j"
proof -
  note ok0 = elections_ok_init [OF assms(1)]
  from voters_reachable [OF assms(2) ok0] have ok: "elections_ok c" and size: "csize c = csize c0" by auto
  from voters_reachable [OF assms(3) ok] have ok': "elections_ok c'" and size': "csize c' = csize c"
    and sub: "voters c k t \<subseteq> voters c' k t" for k t by simp_all
  have "majority (csize c') (voters c i (currentTerm (node c i)))"
    using leader_elected [OF ok, of i] assms(4-6) size size' by simp
  then have "majority (csize c') (voters c' i (currentTerm (node c i)))"
    by (rule majority_mono [OF _ sub]) (use ok' voters_range in \<open>auto simp: elections_ok_def\<close>)
  moreover have "majority (csize c') (voters c' j (currentTerm (node c i)))"
    using leader_elected [OF ok', of j] assms(7-10) size size' by simp
  ultimately show ?thesis using elected_unique [OF ok'] by blast
qed

text \<open>An election in a cluster of three: server 0 stands, server 1 votes for it.\<close>

definition cluster3 :: "int Cluster" where
  "cluster3 = \<lparr>csize = 3, node = (\<lambda>i. (freshRaft 0 3 i MakePersister)\<lparr>electionTimer := True\<rparr>), mail = (\<lambda>_ _ _. NoMsg)\<rparr>"

lemma cluster3_start: "cluster_start 0 cluster3"
  by (simp add: cluster_start_def cluster3_def Make_fresh)

lemma cluster3_elects:
  "\<exists>c. reachable_from cluster_step cluster3 c \<and> state (node c 0) = Leader \<and> currentTerm (node c 0) = 1"
proof -
  let ?args = "\<lparr>CandidateTerm = 1, CandidateID = 0, LastLogIndex = 0, LastLogTerm = 0, RVA_MsgNo = 0\<rparr>"
  obtain rf1 where rf1: "candidateRequestVote 0 (node cluster3 0) = Inr (rf1, ?args)" "state rf1 = Candidate" "currentTerm rf1 = 1"
    "votes rf1 1 = 1" "peers rf1 = 3" "node_ok rf1"
    by (simp add: candidateRequestVote_def cluster3_def freshRaft_def lastEntry_def Let_def resetTimer_def node_ok_def log_ok_def)
  define c1 where "c1 = setNode 0 rf1 (startElection 0 ?args cluster3)"
  have s1: "cluster_step cluster3 c1"
    unfolding c1_def by (rule cluster_step.election [OF _ _ rf1(1)]) (simp_all add: cluster3_def)
  obtain rf2 reply where rf2: "RequestVote 0 ?args (node cluster3 1) = Inr (rf2, reply)" "VoteGranted reply"
    by (simp add: RequestVote_def adoptTerm_def cluster3_def freshRaft_def lastEntry_def Let_def)
  define c2 where "c2 = setNode 1 rf2 (setMail 0 1 1 (Reply reply) c1)"
  have s2: "cluster_step c1 c2"
    unfolding c2_def
  proof (rule cluster_step.vote [where args = ?args and recv = 0])
    show "mail c1 0 1 1 = Req ?args" by (simp add: c1_def electionMail_def) (simp add: cluster3_def)
    show "RequestVote 0 ?args (node c1 1) = Inr (rf2, reply)" using rf2(1) by (simp add: c1_def)
  qed
  have "replyHandler 0 reply 1 rf1 = Inr (becomeLeader (countVote 1 rf1))"
    by (rule replyHandler_won) (use rf1 rf2 in simp_all)
  moreover have "node c2 0 = rf1" "mail c2 0 1 1 = Reply reply" by (simp_all add: c2_def c1_def)
  ultimately have s3: "cluster_step c2 (setNode 0 (becomeLeader (countVote 1 rf1)) (setMail 0 1 1 (Handled (VoteGranted reply)) c2))"
    by (intro cluster_step.vote_reply [where recv = 0]) simp_all
  have "reachable_from cluster_step cluster3 (setNode 0 (becomeLeader (countVote 1 rf1)) (setMail 0 1 1 (Handled (VoteGranted reply)) c2))"
    using s1 s2 s3 reach_start [of cluster_step cluster3] reach_step [of cluster_step cluster3] by meson
  moreover have "state (node (setNode 0 (becomeLeader (countVote 1 rf1)) (setMail 0 1 1 (Handled (VoteGranted reply)) c2)) 0) = Leader"
    by simp
  moreover have "currentTerm (node (setNode 0 (becomeLeader (countVote 1 rf1)) (setMail 0 1 1 (Handled (VoteGranted reply)) c2)) 0) = 1"
    by (simp add: rf1(3))
  ultimately show ?thesis by blast
qed

theorem election_safety_witness:
  "\<exists>c. reachable_from cluster_step cluster3 c \<and> state (node c 0) = Leader \<and> currentTerm (node c 0) = 1 \<and>
    \<not> (state (node c 2) = Leader \<and> currentTerm (node c 2) = 1)"
proof -
  obtain c where c: "reachable_from cluster_step cluster3 c" "state (node c 0) = Leader" "currentTerm (node c 0) = 1"
    using cluster3_elects by blast
  have "csize cluster3 = 3" by (simp add: cluster3_def)
  with election_safety [OF cluster3_start c(1) reach_start, of 0 2] c show ?thesis by auto
qed

text \<open>
  Claim C28. A candidacy is not written to stable storage: a server whose latest state was persisted
  and that starts an election votes for itself in the new term, but after a crash it has
  forgotten the term and the vote, and grants its vote of the same term to any other candidate
  whose log is up to date. So a server can vote twice in a term, which election safety does not
  survive.
\<close>

theorem self_vote_lost_in_crash:
  assumes "node_ok rf" "state rf \<noteq> Leader" "ReadRaftState (persister rf) = Some (persisted_state rf)"
    and "candidateRequestVote no rf = Inr (rf', args')"
    and "up_to_date args (last (logs rf))" "CandidateTerm args = currentTerm rf'"
  shows "votedFor rf' = me rf \<and> (\<exists>rf1 rf2 reply. Make zero (peers rf) (me rf) (Copy (persister rf')) = Inr rf1 \<and>
    currentTerm rf1 < currentTerm rf' \<and> RequestVote recv args rf1 = Inr (rf2, reply) \<and> VoteGranted reply \<and>
    currentTerm rf2 = currentTerm rf' \<and> votedFor rf2 = CandidateID args)"
proof -
  note cand = candidateRequestVote_election [OF assms(4)]
  have "persister rf' = persister rf"
    using assms(4) by (auto simp: candidateRequestVote_def Let_def bindE_eq_Inr_iff resetTimer_def)
  then have saved: "ReadRaftState (Copy (persister rf')) = Some (persisted_state rf)"
    using assms(3) by (simp add: raft_store.load_dup)
  have me: "0 \<le> me rf" "me rf < peers rf" "log_ok (logs rf)" using assms(1) by (simp_all add: node_ok_def)
  from Make_recovers [OF assms(1) me(1,2) saved] obtain rf1 where rf1: "Make zero (peers rf) (me rf) (Copy (persister rf')) = Inr rf1"
    "state rf1 = state rf" "currentTerm rf1 = currentTerm rf" "logs rf1 = logs rf" by blast
  have "isOk (RequestVote recv args rf1)" using RequestVote_ok [of rf1 recv args] rf1 me(3) assms(2) by simp
  then obtain rf2 reply where rv: "RequestVote recv args rf1 = Inr (rf2, reply)" by (auto simp: isOk_iff)
  have newer: "currentTerm rf1 < CandidateTerm args" using rf1(3) assms(6) cand(4) by simp
  from rf1(4) me(3) have "log_ok (logs rf1)" by simp
  from this rv have "VoteGranted reply"
    by (rule RequestVote_outcome) (use newer assms(5) rf1(4) in \<open>auto simp: adoptTerm_fields\<close>)
  with RequestVote_election(2) [OF rv] rv rf1 newer cand(5) assms(6) show ?thesis by auto
qed

theorem self_vote_lost_in_crash_witness:
  "\<exists>rf' args' rf1 rf2 reply. candidateRequestVote 0 (persist (node cluster3 0)) = Inr (rf', args') \<and> votedFor rf' = 0 \<and>
    Make 0 3 0 (Copy (persister rf')) = Inr rf1 \<and>
    RequestVote 0 \<lparr>CandidateTerm = 1, CandidateID = 2, LastLogIndex = 0, LastLogTerm = 0, RVA_MsgNo = 0\<rparr> rf1 = Inr (rf2, reply) \<and>
    VoteGranted reply \<and> currentTerm rf2 = currentTerm rf' \<and> votedFor rf2 = 2"
proof -
  let ?rf = "persist (node cluster3 0)"
  let ?args = "\<lparr>CandidateTerm = 1, CandidateID = 2, LastLogIndex = 0, LastLogTerm = 0, RVA_MsgNo = 0\<rparr>"
  have fields: "node_ok ?rf" "state ?rf \<noteq> Leader" "me ?rf = 0" "peers ?rf = 3" "up_to_date ?args (last (logs ?rf))"
    by (simp_all add: cluster3_def freshRaft_def node_ok_def log_ok_def up_to_date_def)
  have saved: "ReadRaftState (persister ?rf) = Some (persisted_state ?rf)" by simp
  obtain rf' args' where cand: "candidateRequestVote 0 ?rf = Inr (rf', args')" "currentTerm rf' = 1"
    by (simp add: candidateRequestVote_def cluster3_def freshRaft_def lastEntry_def Let_def resetTimer_def persist_def)
  from self_vote_lost_in_crash [OF fields(1,2) saved cand(1) fields(5), of 0 0] cand fields(3,4) show ?thesis by auto
qed

end
