(* ===== verification/Raft_Loss.thy ===== *)
theory Raft_Loss
  imports Raft_Cluster
begin

section \<open>A delayed AppendEntry undoes a commit\<close>

text \<open>
  \<open>AppendEntry\<close> cuts the log after \<open>PrevLogIndex\<close> and appends the entries of the message, also when the
  message is older than one that has been handled. The run below is a run of three servers
  without crashes in which a request of the leader is delayed. Each step is the handler of the
  source on the message that the handler of the sender made.
\<close>

subsection \<open>The run\<close>

text \<open>Server 0 is elected by server 1 in term 1.\<close>

definition elected :: "(int Raft \<times> int Raft) go" where
  "elected =
     bindE (Make 0 3 0 MakePersister) (\<lambda>s0.
     bindE (Make 0 3 1 MakePersister) (\<lambda>s1.
     bindE (candidateRequestVote 1 s0) (\<lambda>(s0, args).
     bindE (RequestVote 0 args s1) (\<lambda>(s1, reply).
     bindE (replyHandler 0 reply 1 s0) (\<lambda>s0. Inr (s0, s1))))))"

text \<open>
  The leader sends a heartbeat to server 1, which is delayed. Command 7 is started and sent to server
  1, which answers, and the leader commits it. Then the heartbeat arrives.
\<close>

definition committed :: "(int Raft \<times> int Raft \<times> int AppendEntryArg) go" where
  "committed =
     bindE elected (\<lambda>(s0, s1).
     bindE (sendEntry 1 1 2 s0) (\<lambda>heartbeat.
     bindE (Start 7 s0) (\<lambda>(s0, _).
     bindE (sendEntry 1 1 3 s0) (\<lambda>args.
     bindE (AppendEntry 0 args s1) (\<lambda>(s1, reply).
     bindE (AppendLogReplyHandler 0 1 reply (PrevLogIndex args + int (length (Entries args))) s0) (\<lambda>s0.
     Inr (s0, s1, heartbeat)))))))"

text \<open>Server 2, which has not heard of any of this, becomes a candidate of term 2 after a first attempt in term 1.\<close>

definition deposed :: "(int Raft \<times> int Raft \<times> int Raft) go" where
  "deposed =
     bindE committed (\<lambda>(s0, s1, heartbeat).
     bindE (AppendEntry 0 heartbeat s1) (\<lambda>(s1, _).
     bindE (Make 0 3 2 MakePersister) (\<lambda>s2.
     bindE (candidateRequestVote 4 s2) (\<lambda>(s2, _).
     bindE (candidateRequestVote 5 s2) (\<lambda>(s2, args).
     bindE (RequestVote 0 args s1) (\<lambda>(s1, reply).
     bindE (replyHandler 0 reply 2 s2) (\<lambda>s2. Inr (s0, s1, s2))))))))"


end
