(* ===== verification/Bitset.thy ===== *)
theory Bitset
  imports Go_Prelude
begin

section \<open>Bit sets of the linearizability checker\<close>

text \<open>
  \<open>linearizability/bitset.go\<close>: a set of operation numbers as a slice of \<open>uint64\<close>
  words. Every operation of the file is a definition; \<open>set\<close> and \<open>clear\<close> write in
  place in the source and return the new contents here, and an index past the last word
  is the run-time error of Go. The interface \<open>position_set\<close> states what the checker
  relies on; its interpretation shows that the words implement it.
\<close>

unbundle bit_operations_syntax

type_synonym bitset = "64 word list"

definition newBitset :: "nat \<Rightarrow> bitset" where
  "newBitset bits =
     (let extra = (if bits mod 64 \<noteq> 0 then 1 else 0);
          chunks = bits div 64 + extra
      in replicate chunks 0)"

definition clone :: "bitset \<Rightarrow> bitset" where
  "clone b = (let dataCopy = replicate (length b) (0 :: 64 word) in take (length dataCopy) b)"

definition bitsetIndex :: "nat \<Rightarrow> nat \<times> nat" where
  "bitsetIndex pos = (pos div 64, pos mod 64)"

definition bs_set :: "bitset \<Rightarrow> nat \<Rightarrow> bitset go" where
  "bs_set b pos =
     (let (major, minor) = bitsetIndex pos in
      bindE (go_nth b (int major)) (\<lambda>w.
      go_update b (int major) (w OR push_bit minor 1)))"

definition bs_clear :: "bitset \<Rightarrow> nat \<Rightarrow> bitset go" where
  "bs_clear b pos =
     (let (major, minor) = bitsetIndex pos in
      bindE (go_nth b (int major)) (\<lambda>w.
      go_update b (int major) (w AND NOT (push_bit minor 1))))"

definition bs_get :: "bitset \<Rightarrow> nat \<Rightarrow> bool go" where
  "bs_get b pos =
     (let (major, minor) = bitsetIndex pos in
      bindE (go_nth b (int major)) (\<lambda>w.
      Inr (w AND push_bit minor 1 \<noteq> 0)))"

text \<open>The body of the loop of \<open>popcnt\<close>: the number of ones of one word.\<close>

definition popcntWord :: "64 word \<Rightarrow> 64 word" where
  "popcntWord v0 =
     (let v1 = (v0 AND 0x5555555555555555) + drop_bit 1 (v0 AND 0xAAAAAAAAAAAAAAAA);
          v2 = (v1 AND 0x3333333333333333) + drop_bit 2 (v1 AND 0xCCCCCCCCCCCCCCCC);
          v3 = (v2 AND 0x0F0F0F0F0F0F0F0F) + drop_bit 4 (v2 AND 0xF0F0F0F0F0F0F0F0);
          v4 = v3 * 0x0101010101010101
      in drop_bit 56 v4 AND 0xFF)"

definition popcnt :: "bitset \<Rightarrow> 64 word" where
  "popcnt b = foldl (\<lambda>total v. total + popcntWord v) 0 b"

definition bs_hash :: "bitset \<Rightarrow> 64 word" where
  "bs_hash b = foldl (\<lambda>h v. h XOR v) (popcnt b) b"

definition bs_equals :: "bitset \<Rightarrow> bitset \<Rightarrow> bool" where
  "bs_equals b b2 =
     (if length b \<noteq> length b2 then False else list_all (\<lambda>i. b ! i = b2 ! i) [0..<length b])"

subsection \<open>The set a bit set stands for\<close>

definition positions :: "bitset \<Rightarrow> nat set" where
  "positions b = {p. p div 64 < length b \<and> bit (b ! (p div 64)) (p mod 64)}"

definition holds_bits :: "nat \<Rightarrow> bitset \<Rightarrow> bool" where
  "holds_bits n b \<longleftrightarrow> length b = length (newBitset n)"

lemma newBitset_length: "length (newBitset n) = n div 64 + (if n mod 64 = 0 then 0 else 1)"
  by (simp add: newBitset_def Let_def)

lemma newBitset_room:
  assumes "p < n"
  shows "p div 64 < length (newBitset n)"
proof (cases "n mod 64 = 0")
  case True
  with assms show ?thesis
    by (simp add: newBitset_length less_mult_imp_div_less mod_0_imp_dvd)
next
  case False
  have "p div 64 \<le> n div 64" using assms by (simp add: div_le_mono)
  with False show ?thesis by (simp add: newBitset_length)
qed

lemma clone_same [simp]: "clone b = b"
  by (simp add: clone_def)

lemma positions_newBitset [simp]: "positions (newBitset n) = {}"
  by (auto simp: positions_def newBitset_def Let_def)

lemma bit_single: "bit (2 ^ m :: 64 word) k \<longleftrightarrow> k = m \<and> m < 64"
  by (auto simp: bit_exp_iff)

lemma same_position: "(p :: nat) div 64 = q div 64 \<Longrightarrow> p mod 64 = q mod 64 \<Longrightarrow> p = q"
  by (metis div_mult_mod_eq)

lemma bs_set_Inr:
  "p div 64 < length b \<Longrightarrow> bs_set b p = Inr (b[p div 64 := b ! (p div 64) OR push_bit (p mod 64) 1])"
  by (simp add: bs_set_def bitsetIndex_def)

lemma bs_clear_Inr:
  "p div 64 < length b \<Longrightarrow>
     bs_clear b p = Inr (b[p div 64 := b ! (p div 64) AND NOT (push_bit (p mod 64) 1)])"
  by (simp add: bs_clear_def bitsetIndex_def)

lemma bit_set_word:
  "bit (w OR push_bit m 1 :: 64 word) k \<longleftrightarrow> bit w k \<or> (k = m \<and> m < 64)"
  by (auto simp: bit_or_iff bit_single)

lemma bit_clear_word:
  "bit (w AND NOT (push_bit m 1) :: 64 word) k \<longleftrightarrow> bit w k \<and> k \<noteq> m"
  by (auto simp: bit_and_iff bit_not_iff bit_single dest: bit_imp_le_length)

lemma mem_positions_update:
  "i < length b \<Longrightarrow>
     q \<in> positions (b[i := w]) \<longleftrightarrow> (if q div 64 = i then bit w (q mod 64) else q \<in> positions b)"
  by (simp add: positions_def nth_list_update)

lemma positions_set:
  assumes "p div 64 < length b"
  shows "positions (b[p div 64 := b ! (p div 64) OR push_bit (p mod 64) 1]) = insert p (positions b)"
proof (rule set_eqI)
  fix q
  show "q \<in> positions (b[p div 64 := b ! (p div 64) OR push_bit (p mod 64) 1]) \<longleftrightarrow> q \<in> insert p (positions b)"
  proof (cases "q div 64 = p div 64")
    case True
    then show ?thesis unfolding mem_positions_update [OF assms] bit_set_word
      using assms same_position [of q p] by (auto simp only: positions_def if_True mem_Collect_eq) auto
  next
    case False
    then show ?thesis unfolding mem_positions_update [OF assms] by auto
  qed
qed

lemma positions_clear:
  assumes "p div 64 < length b"
  shows "positions (b[p div 64 := b ! (p div 64) AND NOT (push_bit (p mod 64) 1)]) = positions b - {p}"
proof (rule set_eqI)
  fix q
  show "q \<in> positions (b[p div 64 := b ! (p div 64) AND NOT (push_bit (p mod 64) 1)]) \<longleftrightarrow> q \<in> positions b - {p}"
  proof (cases "q div 64 = p div 64")
    case True
    then show ?thesis unfolding mem_positions_update [OF assms] bit_clear_word
      using assms same_position [of q p] by (auto simp only: positions_def if_True) simp_all
  next
    case False
    then show ?thesis unfolding mem_positions_update [OF assms] by auto
  qed
qed

lemma and_bit_neq_0: "(w AND push_bit m 1 \<noteq> 0) \<longleftrightarrow> bit (w :: 64 word) m"
  by (simp add: and_exp_eq_0_iff_not_bit)

lemma bs_get_Inr:
  assumes "p div 64 < length b"
  shows "bs_get b p = Inr (p \<in> positions b)"
  unfolding bs_get_def bitsetIndex_def prod.case Let_def and_bit_neq_0
  using assms by (simp only: go_nth_Inr of_nat_0_le_iff of_nat_less_iff bindE_Inr nat_int)
    (simp only: positions_def mem_Collect_eq simp_thms)

lemma bs_equals_iff: "bs_equals b c \<longleftrightarrow> b = c"
  by (auto simp: bs_equals_def list_all_iff intro: nth_equalityI)

lemma positions_at: "k < 64 \<Longrightarrow> 64 * i + k \<in> positions b \<longleftrightarrow> i < length b \<and> bit (b ! i) k"
proof -
  assume "k < 64"
  then have "(64 * i + k) div 64 = i" "(64 * i + k) mod 64 = k" by simp_all
  then show ?thesis by (simp only: positions_def mem_Collect_eq)
qed

lemma positions_inj:
  assumes "length b = length c" "positions b = positions c"
  shows "b = c"
proof (rule nth_equalityI [OF assms(1)])
  fix i assume i: "i < length b"
  show "b ! i = c ! i"
  proof (rule bit_word_eqI)
    fix k assume "k < LENGTH(64)"
    then have "k < 64" by simp
    from positions_at [OF this, of i b] positions_at [OF this, of i c] assms i
    show "bit (b ! i) k = bit (c ! i) k" by simp
  qed
qed

subsection \<open>Counting ones byte by byte\<close>

text \<open>
  The word trick of \<open>popcnt\<close> works on eight bytes in parallel. \<open>bytes\<close> cuts a number
  into bytes and \<open>byteval\<close> puts it together again; the masks, shifts and sums of the
  trick act on each byte alone.
\<close>

primrec byteval :: "int list \<Rightarrow> int" where
  "byteval [] = 0"
| "byteval (b # bs) = b + 256 * byteval bs"

primrec bytes :: "nat \<Rightarrow> int \<Rightarrow> int list" where
  "bytes 0 x = []"
| "bytes (Suc n) x = x mod 256 # bytes n (x div 256)"

definition is_bytes :: "int list \<Rightarrow> bool" where
  "is_bytes bs \<longleftrightarrow> (\<forall>b \<in> set bs. 0 \<le> b \<and> b < 256)"

lemma is_bytes_simps [simp]:
  "is_bytes []" "is_bytes (b # bs) \<longleftrightarrow> 0 \<le> b \<and> b < 256 \<and> is_bytes bs"
  by (auto simp: is_bytes_def)

lemma bytes_bytes [simp]: "is_bytes (bytes n x)" "length (bytes n x) = n"
  by (induction n arbitrary: x) simp_all

lemma byteval_bytes: "byteval (bytes n x) = x mod 256 ^ n"
proof (induction n arbitrary: x)
  case (Suc n)
  show ?case using zmod_zmult2_eq [of "256 ^ n" x 256] by (simp add: Suc)
qed simp

lemma byteval_bounds: "is_bytes bs \<Longrightarrow> 0 \<le> byteval bs \<and> byteval bs < 256 ^ length bs"
  by (induction bs) auto

lemma and_byte_split:
  assumes "0 \<le> a" "a < 256" "0 \<le> c" "c < 256"
  shows "(a + 256 * b) AND (c + 256 * d) = (a AND c) + 256 * (b AND d :: int)"
proof -
  have cc: "a + 256 * b = concat_bit 8 a b" if "0 \<le> a" "a < 256" for a b :: int
    using that by (simp add: concat_bit_eq push_bit_eq_mult take_bit_eq_mod)
  have "0 \<le> (a AND c)" "(a AND c) < 256" using assms by (simp_all add: and_nonnegative_int_iff AND_upper1')
  then have "(a AND c) + 256 * (b AND d) = concat_bit 8 (a AND c) (b AND d)" by (rule cc)
  moreover have "concat_bit 8 a b AND concat_bit 8 c d = concat_bit 8 (a AND c) (b AND d)"
    by (rule bit_eqI) (auto simp: bit_and_iff bit_concat_bit_iff)
  ultimately show ?thesis using cc assms by simp
qed

lemma byteval_and:
  "is_bytes bs \<Longrightarrow> is_bytes ms \<Longrightarrow> length bs = length ms \<Longrightarrow>
     byteval bs AND byteval ms = byteval (map2 (AND) bs ms)"
  by (induction bs ms rule: list_induct2') (simp_all add: and_byte_split)

lemma byteval_add:
  "length bs = length cs \<Longrightarrow> byteval bs + byteval cs = byteval (map2 (+) bs cs)"
  by (induction bs cs rule: list_induct2') (simp_all add: algebra_simps)

lemma byteval_div:
  "(\<And>b. b \<in> set bs \<Longrightarrow> d dvd b) \<Longrightarrow> 0 < d \<Longrightarrow> byteval bs div d = byteval (map (\<lambda>b. b div d) bs)"
proof -
  assume d: "\<And>b. b \<in> set bs \<Longrightarrow> d dvd b" "0 < d"
  then have "byteval bs = d * byteval (map (\<lambda>b. b div d) bs)"
    by (induction bs) (auto simp: algebra_simps)
  with \<open>0 < d\<close> show ?thesis by simp
qed

definition foldByte :: "int \<Rightarrow> int \<Rightarrow> nat \<Rightarrow> int \<Rightarrow> int" where
  "foldByte m1 m2 j b = (b AND m1) + (b AND m2) div 2 ^ j"

definition foldable :: "int \<Rightarrow> int \<Rightarrow> nat \<Rightarrow> bool" where
  "foldable m1 m2 j \<longleftrightarrow>
     list_all (\<lambda>b. 0 \<le> foldByte m1 m2 j b \<and> foldByte m1 m2 j b < 256 \<and> (b AND m2) mod 2 ^ j = 0) [0..255]"

lemma foldableD:
  assumes "foldable m1 m2 j" "0 \<le> b" "b < 256"
  shows "0 \<le> foldByte m1 m2 j b" "foldByte m1 m2 j b < 256" "2 ^ j dvd (b AND m2)"
  using assms by (auto simp: foldable_def list_all_iff)

lemma uint_drop: "uint (drop_bit j w) = uint (w :: 64 word) div 2 ^ j"
  using uint_lt2p [of w] by (simp add: unsigned_drop_bit_eq take_bit_int_eq_self flip: drop_bit_eq_div)

lemma fold_stage:
  fixes v :: "64 word"
  assumes v: "uint v = byteval bs" "is_bytes bs" "length bs = 8"
    and M: "uint M1 = byteval (replicate 8 m1)" "uint M2 = byteval (replicate 8 m2)"
    and m: "0 \<le> m1" "m1 < 256" "0 \<le> m2" "m2 < 256" "foldable m1 m2 j"
  shows "uint ((v AND M1) + drop_bit j (v AND M2)) = byteval (map (foldByte m1 m2 j) bs)"
    and "is_bytes (map (foldByte m1 m2 j) bs)"
proof -
  have bytesm: "is_bytes (replicate 8 m1)" "is_bytes (replicate 8 m2)"
    using m by (auto simp: is_bytes_def)
  have zipm: "map2 (AND) bs (replicate 8 k) = map (\<lambda>b. b AND k) bs" for k
    using v(3) by (intro nth_equalityI) simp_all
  show byt: "is_bytes (map (foldByte m1 m2 j) bs)"
    using v(2) foldableD [OF m(5)] by (auto simp: is_bytes_def)
  have "uint (v AND M1) = byteval (map (\<lambda>b. b AND m1) bs)"
    using byteval_and [OF v(2) bytesm(1)] v M by (simp add: uint_and zipm)
  moreover have "uint (drop_bit j (v AND M2)) = byteval (map (\<lambda>b. (b AND m2) div 2 ^ j) bs)"
  proof -
    have "uint (drop_bit j (v AND M2)) = byteval (map (\<lambda>b. b AND m2) bs) div 2 ^ j"
      using byteval_and [OF v(2) bytesm(2)] v M by (simp only: uint_drop uint_and zipm length_replicate)
    also have "\<dots> = byteval (map (\<lambda>b. (b AND m2) div 2 ^ j) bs)"
      using v(2) foldableD(3) [OF m(5)] by (subst byteval_div) (auto simp: is_bytes_def comp_def)
    finally show ?thesis .
  qed
  moreover have "byteval (map (\<lambda>b. b AND m1) bs) + byteval (map (\<lambda>b. (b AND m2) div 2 ^ j) bs)
                   = byteval (map (foldByte m1 m2 j) bs)"
    by (simp add: byteval_add foldByte_def [abs_def] map2_map_map)
  ultimately show "uint ((v AND M1) + drop_bit j (v AND M2)) = byteval (map (foldByte m1 m2 j) bs)"
    using byteval_bounds [OF byt] v(3) by (simp add: uint_word_ariths)
qed

definition popByte :: "int \<Rightarrow> int" where
  "popByte b = foldByte 0x0F 0xF0 4 (foldByte 0x33 0xCC 2 (foldByte 0x55 0xAA 1 b))"

definition ones :: "nat \<Rightarrow> int \<Rightarrow> int" where
  "ones n x = int (card {i. i < n \<and> bit x i})"

lemma foldable_55: "foldable 0x55 0xAA 1" by code_simp
lemma foldable_33: "foldable 0x33 0xCC 2" by code_simp
lemma foldable_0F: "foldable 0x0F 0xF0 4" by code_simp


lemma ones_0 [simp]: "ones 0 x = 0"
  by (simp add: ones_def)

lemma ones_Suc: "ones (Suc n) x = of_bool (odd x) + ones n (x div 2)"
proof -
  have "{i. i < Suc n \<and> bit x i} = (if odd x then {0} else {}) \<union> Suc ` {i. i < n \<and> bit (x div 2) i}"
    by (auto simp: bit_0 bit_Suc image_iff less_Suc_eq_0_disj split: if_splits)
  then show ?thesis
    by (simp add: ones_def card_image card_insert_if image_iff)
qed

lemma ones_add: "ones (m + n) x = ones m x + ones n (drop_bit m x)"
  by (induction m arbitrary: x) (simp_all add: ones_Suc drop_bit_Suc)

lemma ones_mod: "ones n (x mod 2 ^ n) = ones n x"
proof -
  have "{i. i < n \<and> bit (take_bit n x) i} = {i. i < n \<and> bit x i}" by (auto simp: bit_take_bit_iff)
  then show ?thesis by (simp add: ones_def flip: take_bit_eq_mod)
qed

lemma ones_bytes: "ones (8 * n) x = sum_list (map (ones 8) (bytes n x))"
proof (induction n arbitrary: x)
  case (Suc n)
  have "8 * Suc n = 8 + 8 * n" by simp
  then have "ones (8 * Suc n) x = ones 8 x + ones (8 * n) (x div 256)"
    by (simp only: ones_add drop_bit_eq_div) simp
  with Suc ones_mod [of 8 x] show ?case by simp
qed simp

lemma popByte_table: "list_all (\<lambda>b. popByte b = sum_list (map (\<lambda>i. of_bool (bit b i)) [0..<8])) [0..255]"
  by code_simp

lemma ones_8: "ones 8 b = sum_list (map (\<lambda>i. of_bool (bit b i)) [0..<8])"
  by (simp add: ones_Suc eval_nat_numeral bit_Suc bit_0)

lemma popByte_ones: "0 \<le> b \<Longrightarrow> b < 256 \<Longrightarrow> popByte b = ones 8 b"
  using popByte_table by (auto simp: ones_8 list_all_iff)

lemma ones_bounds: "0 \<le> ones n x" "ones n x \<le> int n"
proof -
  have "card {i. i < n \<and> bit x i} \<le> card {..<n}" by (intro card_mono) auto
  then show "0 \<le> ones n x" "ones n x \<le> int n" by (simp_all add: ones_def)
qed

text \<open>The product with \<open>0x0101010101010101\<close> leaves the sum of the bytes in the top byte.\<close>

lemma div_small_plus: "0 \<le> l \<Longrightarrow> l < m \<Longrightarrow> (l + m * t) div m = (t :: int)"
  by simp

lemma sum_to_top_byte:
  assumes "length bs = 8" "\<forall>b \<in> set bs. 0 \<le> b \<and> b \<le> 8"
  shows "byteval bs * 0x0101010101010101 mod 2 ^ 64 div 2 ^ 56 = sum_list bs"
proof -
  obtain a b c d e f g h where bs: "bs = [a, b, c, d, e, f, g, h]"
    using assms(1) by (auto simp: length_Suc_conv eval_nat_numeral)
  let ?lo = "byteval [a, a+b, a+b+c, a+b+c+d, a+b+c+d+e, a+b+c+d+e+f, a+b+c+d+e+f+g]"
  let ?top = "a+b+c+d+e+f+g+h"
  let ?hi = "byteval [b+c+d+e+f+g+h, c+d+e+f+g+h, d+e+f+g+h, e+f+g+h, f+g+h, g+h, h]"
  have "byteval bs * 0x0101010101010101 = (?lo + 2 ^ 56 * ?top) + 2 ^ 64 * ?hi"
    by (simp add: bs algebra_simps)
  moreover have lo: "0 \<le> ?lo \<and> ?lo < 2 ^ 56"
    using assms(2) by (auto simp: bs)
  moreover have top: "0 \<le> ?top \<and> ?top < 256" using assms(2) by (auto simp: bs)
  moreover have "(?lo + 2 ^ 56 * ?top) mod 2 ^ 64 = ?lo + 2 ^ 56 * ?top"
    using lo top by (intro mod_pos_pos_trivial) auto
  moreover have "(?lo + 2 ^ 56 * ?top) div 2 ^ 56 = ?top"
    using lo by (intro div_small_plus) auto
  ultimately show ?thesis by (simp only: mod_mult_self2 bs sum_list.Cons sum_list.Nil)
qed

lemma byte_masks:
  "byteval (replicate 8 0x55) = 0x5555555555555555" "byteval (replicate 8 0xAA) = 0xAAAAAAAAAAAAAAAA"
  "byteval (replicate 8 0x33) = 0x3333333333333333" "byteval (replicate 8 0xCC) = 0xCCCCCCCCCCCCCCCC"
  "byteval (replicate 8 0x0F) = 0x0F0F0F0F0F0F0F0F" "byteval (replicate 8 0xF0) = 0xF0F0F0F0F0F0F0F0"
  by (simp_all add: eval_nat_numeral)

lemma popcntWord_ones: "uint (popcntWord v) = ones 64 (uint v)"
proof -
  let ?bs = "bytes 8 (uint v)"
  let ?f = "foldByte 0x55 0xAA 1" and ?g = "foldByte 0x33 0xCC 2" and ?h = "foldByte 0x0F 0xF0 4"
  define v1 where "v1 = (v AND 0x5555555555555555) + drop_bit 1 (v AND 0xAAAAAAAAAAAAAAAA)"
  define v2 where "v2 = (v1 AND 0x3333333333333333) + drop_bit 2 (v1 AND 0xCCCCCCCCCCCCCCCC)"
  define v3 where "v3 = (v2 AND 0x0F0F0F0F0F0F0F0F) + drop_bit 4 (v2 AND 0xF0F0F0F0F0F0F0F0)"
  have v0: "uint v = byteval ?bs"
    using uint_lt2p [of v] by (simp add: byteval_bytes)
  have v1: "uint v1 = byteval (map ?f ?bs)" "is_bytes (map ?f ?bs)"
    using fold_stage [OF v0 _ _ _ _ _ _ _ _ foldable_55, of "0x5555555555555555" "0xAAAAAAAAAAAAAAAA"]
    by (simp_all add: v1_def byte_masks)
  have v2: "uint v2 = byteval (map ?g (map ?f ?bs))" "is_bytes (map ?g (map ?f ?bs))"
    using fold_stage [OF v1 _ _ _ _ _ _ _ foldable_33, of "0x3333333333333333" "0xCCCCCCCCCCCCCCCC"]
    by (simp_all add: v2_def byte_masks)
  have v3: "uint v3 = byteval (map ?h (map ?g (map ?f ?bs)))"
    using fold_stage [OF v2 _ _ _ _ _ _ _ foldable_0F, of "0x0F0F0F0F0F0F0F0F" "0xF0F0F0F0F0F0F0F0"]
    by (simp_all add: v3_def byte_masks)
  have pop: "map ?h (map ?g (map ?f ?bs)) = map (ones 8) ?bs"
    using bytes_bytes(1) [of 8 "uint v"] by (auto simp: is_bytes_def popByte_ones [unfolded popByte_def, simplified])
  have "uint (drop_bit 56 (v3 * 0x0101010101010101)) = sum_list (map (ones 8) ?bs)"
    using sum_to_top_byte [of "map (ones 8) ?bs"] ones_bounds [of 8]
    by (simp add: uint_drop uint_word_ariths v3 [unfolded pop])
  moreover have "sum_list (map (ones 8) ?bs) = ones 64 (uint v)"
    using ones_bytes [of 8 "uint v"] by simp
  moreover have "x AND 0xFF = x mod 256" for x :: int
    using take_bit_eq_mask [of 8 x] by (simp add: take_bit_eq_mod mask_eq_exp_minus_1)
  moreover have "popcntWord v = (drop_bit 56 (v3 * 0x0101010101010101) AND 0xFF)"
    by (simp only: popcntWord_def Let_def v1_def v2_def v3_def)
  ultimately show ?thesis
    using ones_bounds [of 64 "uint v"] by (simp add: uint_and)
qed


lemma card_positions_Cons:
  "card (positions (w # b)) = nat (ones 64 (uint w)) + card (positions b)"
proof -
  have "positions (w # b) = {i. i < 64 \<and> bit w i} \<union> (\<lambda>p. p + 64) ` positions b"
  proof (rule set_eqI)
    fix p :: nat
    show "p \<in> positions (w # b) \<longleftrightarrow> p \<in> {i. i < 64 \<and> bit w i} \<union> (\<lambda>p. p + 64) ` positions b"
    proof (cases "p < 64")
      case True then show ?thesis by (auto simp: positions_def)
    next
      case False
      then obtain q where "p = q + 64" using le_Suc_ex [of 64 p] by (auto simp: add.commute)
      moreover have "(q + 64) div 64 = Suc (q div 64)" "(q + 64) mod 64 = q mod 64" by simp_all
      ultimately show ?thesis by (auto simp: positions_def image_iff simp del: div_add_self2)
    qed
  qed
  moreover have "finite (positions b)"
    by (rule finite_subset [of _ "{..<64 * length b}"]) (auto simp: positions_def less_mult_imp_div_less)
  moreover have "{i. i < 64 \<and> bit w i} \<inter> (\<lambda>p. p + 64) ` positions b = {}" by auto
  ultimately show ?thesis
    by (simp add: card_Un_disjoint card_image ones_def bit_unsigned_iff)
qed


lemma popcnt_sum: "popcnt b = (\<Sum>w\<leftarrow>b. popcntWord w)"
proof -
  have "foldl (\<lambda>t v. t + popcntWord v) a b = a + (\<Sum>w\<leftarrow>b. popcntWord w)" for a
    by (induction b arbitrary: a) (simp_all add: add.assoc)
  then show ?thesis by (simp add: popcnt_def)
qed

lemma popcnt_Cons [simp]: "popcnt [] = 0" "popcnt (w # b) = popcntWord w + popcnt b"
  by (simp_all add: popcnt_sum)

lemma popcnt_positions: "popcnt b = of_nat (card (positions b))"
proof (induction b)
  case Nil
  show ?case by (simp add: positions_def)
next
  case (Cons w b)
  have "popcntWord w = of_nat (nat (ones 64 (uint w)))"
    using ones_bounds(1) [of 64 "uint w"] by (simp flip: popcntWord_ones)
  with Cons show ?case by (simp add: card_positions_Cons)
qed

text \<open>
  Claim C14. \<open>popcnt\<close>, the word-parallel count with the masks \<open>0x55...\<close>, \<open>0x33...\<close>,
  \<open>0x0F...\<close> and the multiplication by \<open>0x0101...\<close>, returns the number of positions in
  the bit set, as the 64-bit \<open>uint\<close> it is.
\<close>

theorem popcnt_counts: "popcnt b = of_nat (card (positions b))"
  by (rule popcnt_positions)

subsection \<open>Bit sets as sets of positions\<close>

locale position_set =
  fixes abs :: "'b \<Rightarrow> nat set" and room :: "nat \<Rightarrow> 'b \<Rightarrow> bool"
    and empty :: "nat \<Rightarrow> 'b" and add :: "'b \<Rightarrow> nat \<Rightarrow> 'b go" and remove :: "'b \<Rightarrow> nat \<Rightarrow> 'b go"
    and member :: "'b \<Rightarrow> nat \<Rightarrow> bool go"
    and same :: "'b \<Rightarrow> 'b \<Rightarrow> bool" and code :: "'b \<Rightarrow> 'h"
  assumes room_empty: "room n (empty n)" and abs_empty: "abs (empty n) = {}"
    and add_ok: "room n b \<Longrightarrow> p < n \<Longrightarrow> \<exists>c. add b p = Inr c \<and> room n c \<and> abs c = insert p (abs b)"
    and remove_ok: "room n b \<Longrightarrow> p < n \<Longrightarrow> \<exists>c. remove b p = Inr c \<and> room n c \<and> abs c = abs b - {p}"
    and member_ok: "room n b \<Longrightarrow> p < n \<Longrightarrow> member b p = Inr (p \<in> abs b)"
    and same_iff: "room n b \<Longrightarrow> room n c \<Longrightarrow> same b c \<longleftrightarrow> abs b = abs c"
    and code_same: "same b c \<Longrightarrow> code b = code c"
begin

text \<open>Adding a new position and removing it again gives back the same set.\<close>

lemma add_remove:
  assumes "room n b" "p < n" "p \<notin> abs b" "add b p = Inr c"
  shows "\<exists>d. remove c p = Inr d \<and> room n d \<and> abs d = abs b"
proof -
  from add_ok [OF assms(1,2)] assms(4) have "room n c" "abs c = insert p (abs b)" by auto
  with remove_ok [OF this(1) assms(2)] assms(3) show ?thesis by auto
qed

text \<open>A table indexed by the code finds every member that is the same set.\<close>

lemma bucket_complete:
  assumes "room n b" "\<And>h c. c \<in> bucket h \<longleftrightarrow> c \<in> T \<and> code c = h" "\<And>c. c \<in> T \<Longrightarrow> room n c"
  shows "(\<exists>c \<in> bucket (code b). same b c) \<longleftrightarrow> (\<exists>c \<in> T. abs c = abs b)"
  using assms same_iff [of n b] code_same [of b] by metis

end

interpretation bits: position_set positions holds_bits newBitset bs_set bs_clear bs_get bs_equals bs_hash
proof (unfold_locales, goal_cases)
  case 1 then show ?case by (simp add: holds_bits_def)
next
  case 2 then show ?case by simp
next
  case (3 n b p)
  then have "p div 64 < length b" by (simp add: holds_bits_def newBitset_room)
  with 3 show ?case by (simp add: bs_set_Inr positions_set [simplified] holds_bits_def)
next
  case (4 n b p)
  then have "p div 64 < length b" by (simp add: holds_bits_def newBitset_room)
  with 4 show ?case by (simp add: bs_clear_Inr positions_clear [simplified] holds_bits_def)
next
  case (5 n b p)
  then show ?case by (simp add: holds_bits_def newBitset_room bs_get_Inr)
next
  case (6 n b c)
  then show ?case using positions_inj [of b c] by (auto simp: holds_bits_def bs_equals_iff)
next
  case (7 b c)
  then show ?case by (simp add: bs_equals_iff)
qed

end
