(* ===== verification/Lin_Model.thy ===== *)
theory Lin_Model
  imports Go_Prelude 
begin

section \<open>Histories and models of the linearizability checker\<close>

text \<open>
  \<open>linearizability/model.go\<close>, \<open>models.go\<close> and the part of \<open>linearizability.go\<close> that
  turns a history into a list of entries. An \<open>interface{}\<close> value is a value of the type
  variable \<open>'v\<close>; a model may panic on a value of the wrong dynamic type, so \<open>Step\<close> and
  \<open>Partition\<close> return a \<open>go\<close> result. A function field of \<open>Model\<close> that may be nil is an
  \<open>option\<close>. Time stamps (\<open>int64\<close>) are only compared, so they are integers.

  Two parts of Go's library are parameters: \<open>sortSort\<close>, the unstable sort of
  package \<open>sort\<close> (it permutes its argument into the order \<open>Less\<close> asks for, and is free in
  the order of equal keys), and \<open>rangeKeys\<close>, the order in which \<open>range\<close> visits the keys of
  a map, which the language leaves open.
\<close>

record 'v Operation =
  Input :: 'v
  Call :: int
  Output :: 'v
  Return :: int

datatype EventKind = CallEvent | ReturnEvent

record 'v Event =
  Kind :: EventKind
  Value :: 'v
  Id :: nat

record ('v, 's) Model =
  Partition :: "('v Operation list \<Rightarrow> 'v Operation list list go) option"
  PartitionEvent :: "('v Event list \<Rightarrow> 'v Event list list go) option"
  Init :: 's
  Step :: "'s \<Rightarrow> 'v \<Rightarrow> 'v \<Rightarrow> (bool \<times> 's) go"
  Equal :: "('s \<Rightarrow> 's \<Rightarrow> bool) option"

definition NoPartition :: "'v Operation list \<Rightarrow> 'v Operation list list go" where
  "NoPartition history = Inr [history]"

definition NoPartitionEvent :: "'v Event list \<Rightarrow> 'v Event list list go" where
  "NoPartitionEvent history = Inr [history]"

definition ShallowEqual :: "'s \<Rightarrow> 's \<Rightarrow> bool" where
  "ShallowEqual state1 state2 = (state1 = state2)"

definition fillDefault :: "('v, 's) Model \<Rightarrow> ('v, 's) Model" where
  "fillDefault model =
     (let model = (if Partition model = None then model\<lparr>Partition := Some NoPartition\<rparr> else model);
          model = (if PartitionEvent model = None
                   then model\<lparr>PartitionEvent := Some NoPartitionEvent\<rparr> else model);
          model = (if Equal model = None then model\<lparr>Equal := Some ShallowEqual\<rparr> else model)
      in model)"

subsection \<open>The key/value model\<close>

record KvInput =
  Op :: "8 word"
  Key :: string
  KvValue :: string

record KvOutput =
  OutValue :: string

text \<open>The dynamic types the key/value model meets in an \<open>interface{}\<close>.\<close>

datatype kvval = InKv KvInput | OutKv KvOutput

fun asKvInput :: "kvval \<Rightarrow> KvInput go" where
  "asKvInput (InKv i) = Inr i"
| "asKvInput (OutKv _) = Inl TypeAssertion"

fun asKvOutput :: "kvval \<Rightarrow> KvOutput go" where
  "asKvOutput (OutKv r) = Inr r"
| "asKvOutput (InKv _) = Inl TypeAssertion"

text \<open>The map \<open>m\<close> of the partition function is an association list in insertion order.\<close>

fun groupByKey :: "(string \<times> kvval Operation list) list \<Rightarrow> kvval Operation list
    \<Rightarrow> (string \<times> kvval Operation list) list go" where
  "groupByKey m [] = Inr m"
| "groupByKey m (v # history) =
     bindE (asKvInput (Input v)) (\<lambda>inp.
     let key = Key inp;
         old = (case map_of m key of None \<Rightarrow> [] | Some ops \<Rightarrow> ops)
     in groupByKey (if map_of m key = None then m @ [(key, [v])]
                    else map (\<lambda>(k, ops). if k = key then (k, old @ [v]) else (k, ops)) m) history)"

definition kvPartition :: "(string list \<Rightarrow> string list) \<Rightarrow> kvval Operation list
    \<Rightarrow> kvval Operation list list go" where
  "kvPartition rangeKeys history =
     bindE (groupByKey [] history) (\<lambda>m.
     Inr (map (\<lambda>k. case map_of m k of None \<Rightarrow> [] | Some ops \<Rightarrow> ops) (rangeKeys (map fst m))))"

definition kvStep :: "string \<Rightarrow> kvval \<Rightarrow> kvval \<Rightarrow> (bool \<times> string) go" where
  "kvStep state input output =
     bindE (asKvInput input) (\<lambda>inp.
     bindE (asKvOutput output) (\<lambda>out.
     if Op inp = 0 then Inr (OutValue out = state, state)
     else if Op inp = 1 then Inr (True, KvValue inp)
     else Inr (True, state @ KvValue inp)))"

definition KvModel :: "(string list \<Rightarrow> string list) \<Rightarrow> (kvval, string) Model" where
  "KvModel rangeKeys =
     \<lparr>Partition = Some (kvPartition rangeKeys), PartitionEvent = None,
      Init = '''', Step = kvStep, Equal = Some ShallowEqual\<rparr>"

subsection \<open>Entries\<close>

datatype entryKind = callEntry | returnEntry

record 'v entry =
  kind :: entryKind
  evalue :: 'v
  eid :: nat
  etime :: int

fun operationEntries :: "nat \<Rightarrow> 'v Operation list \<Rightarrow> 'v entry list" where
  "operationEntries i [] = []"
| "operationEntries i (elem # history) =
     \<lparr>kind = callEntry, evalue = Input elem, eid = i, etime = Call elem\<rparr>
     # \<lparr>kind = returnEntry, evalue = Output elem, eid = i, etime = Return elem\<rparr>
     # operationEntries (i + 1) history"

definition makeEntries :: "('v entry list \<Rightarrow> 'v entry list) \<Rightarrow> 'v Operation list \<Rightarrow> 'v entry list" where
  "makeEntries sortSort history = sortSort (operationEntries 0 history)"

definition byTimeLess :: "'v entry \<Rightarrow> 'v entry \<Rightarrow> bool" where
  "byTimeLess a b = (etime a < etime b)"

fun renumberLoop :: "(nat \<Rightarrow> nat option) \<Rightarrow> nat \<Rightarrow> 'v Event list \<Rightarrow> 'v Event list" where
  "renumberLoop m i [] = []"
| "renumberLoop m i (v # events) =
     (case m (Id v) of
        Some r \<Rightarrow> \<lparr>Kind = Kind v, Value = Value v, Id = r\<rparr> # renumberLoop m i events
      | None \<Rightarrow> \<lparr>Kind = Kind v, Value = Value v, Id = i\<rparr> # renumberLoop (m(Id v \<mapsto> i)) (i + 1) events)"

definition renumber :: "'v Event list \<Rightarrow> 'v Event list" where
  "renumber events = renumberLoop (\<lambda>_. None) 0 events"

definition convertEntries :: "'v Event list \<Rightarrow> 'v entry list" where
  "convertEntries events =
     map (\<lambda>elem. \<lparr>kind = (if Kind elem = ReturnEvent then returnEntry else callEntry),
                  evalue = Value elem, eid = Id elem, etime = -1\<rparr>) events"

subsection \<open>What sorting promises\<close>

text \<open>
  The contract of \<open>sort.Sort\<close> on \<open>byTime\<close>: a permutation in which no later element is
  \<open>Less\<close> than an earlier one.
\<close>

definition sorts_by_time :: "('v entry list \<Rightarrow> 'v entry list) \<Rightarrow> bool" where
  "sorts_by_time sortSort \<longleftrightarrow>
     (\<forall>es. mset (sortSort es) = mset es \<and> sorted_wrt (\<lambda>a b. \<not> byTimeLess b a) (sortSort es))"

lemma sort_key_sorts_by_time: "sorts_by_time (sort_key etime :: 'v entry list \<Rightarrow> 'v entry list)"
proof -
  have "sorted_wrt (\<lambda>a b. \<not> byTimeLess b a) (sort_key etime es)" for es :: "'v entry list"
    using sorted_sort_key [of etime es] by (simp add: sorted_map byTimeLess_def not_less)
  then show ?thesis by (simp add: sorts_by_time_def)
qed

subsection \<open>Well-formed entry lists\<close>

text \<open>
  What the checker needs of its entries: the operations are numbered \<open>0\<close> to \<open>n - 1\<close>, each
  has one call and one return, and the call comes first.
\<close>

definition label :: "'v entry \<Rightarrow> entryKind \<times> nat" where
  "label e = (kind e, eid e)"

definition wf_entries :: "nat \<Rightarrow> 'v entry list \<Rightarrow> bool" where
  "wf_entries n es \<longleftrightarrow>
     distinct (map label es) \<and> set (map label es) = {callEntry, returnEntry} \<times> {..<n} \<and>
     (\<forall>p < length es. \<forall>q < length es.
        label (es ! p) = (callEntry, eid (es ! q)) \<and> kind (es ! q) = returnEntry \<longrightarrow> p < q)"

lemma wf_entries_length: "wf_entries n es \<Longrightarrow> length es = 2 * n"
proof -
  assume wf: "wf_entries n es"
  then have "length es = card (set (map label es))"
    unfolding wf_entries_def by (metis distinct_card length_map)
  also have "\<dots> = card ({callEntry, returnEntry} \<times> {..<n})" using wf by (simp add: wf_entries_def)
  finally show ?thesis by (simp add: card_cartesian_product)
qed

text \<open>Entries made from operations whose calls precede their returns are well formed.\<close>

definition wf_operations :: "'v Operation list \<Rightarrow> bool" where
  "wf_operations ops \<longleftrightarrow> (\<forall>x \<in> set ops. Call x < Return x)"

lemma labels_operationEntries:
  "label ` set (operationEntries i ops) = {callEntry, returnEntry} \<times> {i..<i + length ops}"
proof (induction ops arbitrary: i)
  case (Cons x ops)
  have "{i..<i + length (x # ops)} = insert i {Suc i..<Suc i + length ops}" by auto
  then show ?case using Cons [of "Suc i"] by (auto simp: label_def)
qed simp

lemma distinct_operationEntries: "distinct (map label (operationEntries i ops))"
proof (induction ops arbitrary: i)
  case (Cons x ops)
  have "(k, i) \<notin> label ` set (operationEntries (Suc i) ops)" for k
    by (simp add: labels_operationEntries)
  with Cons [of "Suc i"] show ?case by (simp add: label_def)
qed simp

lemma nth_operationEntries:
  "e \<in> set (operationEntries i ops) \<Longrightarrow>
     i \<le> eid e \<and> eid e < i + length ops \<and>
     etime e = (if kind e = callEntry then Call (ops ! (eid e - i)) else Return (ops ! (eid e - i))) \<and>
     evalue e = (if kind e = callEntry then Input (ops ! (eid e - i)) else Output (ops ! (eid e - i)))"
proof (induction ops arbitrary: i)
  case (Cons x ops)
  consider "e = \<lparr>kind = callEntry, evalue = Input x, eid = i, etime = Call x\<rparr>"
    | "e = \<lparr>kind = returnEntry, evalue = Output x, eid = i, etime = Return x\<rparr>"
    | "e \<in> set (operationEntries (Suc i) ops)" using Cons.prems by auto
  then show ?case
  proof cases
    case 3
    from Cons.IH [OF this] show ?thesis by (auto simp: nth_Cons' Suc_diff_Suc)
  qed simp_all
qed simp

lemma makeEntries_wf:
  assumes "sorts_by_time sortSort" "wf_operations ops"
  shows "wf_entries (length ops) (makeEntries sortSort ops)"
proof -
  let ?es = "makeEntries sortSort ops"
  have perm: "mset ?es = mset (operationEntries 0 ops)"
    and sorted: "sorted_wrt (\<lambda>a b. \<not> byTimeLess b a) ?es"
    using assms(1) by (auto simp: makeEntries_def sorts_by_time_def)
  have labels: "mset (map label ?es) = mset (map label (operationEntries 0 ops))"
    using perm by simp
  have *: "p < q" if pq: "p < length ?es" "q < length ?es"
    "label (?es ! p) = (callEntry, eid (?es ! q))" "kind (?es ! q) = returnEntry" for p q
  proof (rule ccontr)
    assume "\<not> p < q"
    moreover have "p \<noteq> q" using pq by (auto simp: label_def)
    ultimately have "q < p" by simp
    with sorted pq have "etime (?es ! q) \<le> etime (?es ! p)"
      by (auto simp: sorted_wrt_iff_nth_less byTimeLess_def not_less)
    moreover have "?es ! p \<in> set (operationEntries 0 ops)" "?es ! q \<in> set (operationEntries 0 ops)"
      using pq perm by (metis mset_eq_setD nth_mem)+
    then have "etime (?es ! p) = Call (ops ! eid (?es ! q))" "etime (?es ! q) = Return (ops ! eid (?es ! q))"
      "eid (?es ! q) < length ops"
      using nth_operationEntries [of "?es ! p" 0 ops] nth_operationEntries [of "?es ! q" 0 ops] pq
      by (auto simp: label_def)
    ultimately show False
      using assms(2) [unfolded wf_operations_def, THEN bspec, OF nth_mem] by fastforce
  qed
  have "distinct (map label ?es)"
    using labels distinct_operationEntries by (metis mset_eq_imp_distinct_iff)
  moreover have "set (map label ?es) = {callEntry, returnEntry} \<times> {..<length ops}"
    using mset_eq_setD [OF labels] labels_operationEntries [of 0 ops] by (simp add: lessThan_atLeast0)
  ultimately show ?thesis using * by (auto simp: wf_entries_def)
qed

end
