(* ===== verification/Lin_List.thy ===== *)
theory Lin_List
  imports Bitset Lin_Model "HOL-Library.While_Combinator"
begin

section \<open>The doubly linked list of the checker\<close>

text \<open>
  The list operations of \<open>linearizability.go\<close>: \<open>node\<close>, \<open>insertBefore\<close>, \<open>length\<close>,
  \<open>makeLinkedEntries\<close>, \<open>lift\<close> and \<open>unlift\<close>. The store is a list of nodes, a pointer is
  the index of a node or \<open>None\<close> for nil, \<open>&node{...}\<close> appends a node to the store, and
  every dereference of nil is the run-time error \<open>NilPointer\<close>.

  \<open>seg\<close> says that a list of addresses is chained by both link fields. \<open>lift\<close> takes an
  operation out of such a list, \<open>unlift\<close> undoes it exactly.
\<close>

type_synonym ptr = "nat option"

record 'v node =
  nvalue :: "'v option"
  nmatch :: ptr
  nid :: nat
  nnext :: ptr
  nprev :: ptr

type_synonym 'v store = "'v node list"

definition load :: "'v store \<Rightarrow> ptr \<Rightarrow> 'v node go" where
  "load h p = (case p of None \<Rightarrow> Inl NilPointer | Some a \<Rightarrow> if a < length h then Inr (h ! a) else Inl NilPointer)"

definition setNext :: "'v store \<Rightarrow> ptr \<Rightarrow> ptr \<Rightarrow> 'v store go" where
  "setNext h p v = bindE (load h p) (\<lambda>x. Inr (h[the p := x\<lparr>nnext := v\<rparr>]))"

definition setPrev :: "'v store \<Rightarrow> ptr \<Rightarrow> ptr \<Rightarrow> 'v store go" where
  "setPrev h p v = bindE (load h p) (\<lambda>x. Inr (h[the p := x\<lparr>nprev := v\<rparr>]))"

definition insertBefore :: "'v store \<Rightarrow> ptr \<Rightarrow> ptr \<Rightarrow> ('v store \<times> ptr) go" where
  "insertBefore h n mark =
     (if mark \<noteq> None then
        bindE (load h mark) (\<lambda>m.
        let beforeMark = nprev m in
        bindE (setPrev h mark n) (\<lambda>h.
        bindE (setNext h n mark) (\<lambda>h.
        if beforeMark \<noteq> None then
          bindE (setPrev h n beforeMark) (\<lambda>h.
          bindE (setNext h beforeMark n) (\<lambda>h. Inr (h, n)))
        else Inr (h, n))))
      else Inr (h, n))"

text \<open>\<open>length\<close> walks the \<open>next\<close> fields; on a cyclic list it would not return (\<open>None\<close>).\<close>

definition length_nodes :: "'v store \<Rightarrow> ptr \<Rightarrow> nat option" where
  "length_nodes h n =
     map_option snd (while_option (\<lambda>(n, l). n \<noteq> None) (\<lambda>(n, l). (nnext (h ! the n), l + 1)) (n, 0))"

text \<open>The loop of \<open>makeLinkedEntries\<close>, over the entries from the last to the first.\<close>

fun linkLoop :: "'v entry list \<Rightarrow> 'v store \<Rightarrow> ptr \<Rightarrow> (nat \<Rightarrow> ptr) \<Rightarrow> ('v store \<times> ptr) go" where
  "linkLoop [] h root mtch = Inr (h, root)"
| "linkLoop (elem # es) h root mtch =
     (if kind elem = returnEntry then
        let a = Some (length h);
            h = h @ [\<lparr>nvalue = Some (evalue elem), nmatch = None, nid = eid elem, nnext = None, nprev = None\<rparr>];
            mtch = mtch(eid elem := a)
        in bindE (insertBefore h a root) (\<lambda>(h, _). linkLoop es h a mtch)
      else
        let a = Some (length h);
            h = h @ [\<lparr>nvalue = Some (evalue elem), nmatch = mtch (eid elem), nid = eid elem,
                      nnext = None, nprev = None\<rparr>]
        in bindE (insertBefore h a root) (\<lambda>(h, _). linkLoop es h a mtch))"

definition makeLinkedEntries :: "'v entry list \<Rightarrow> ('v store \<times> ptr) go" where
  "makeLinkedEntries entries = linkLoop (rev entries) [] None (\<lambda>_. None)"

definition lift :: "'v store \<Rightarrow> ptr \<Rightarrow> 'v store go" where
  "lift h entry =
     bindE (load h entry) (\<lambda>e.
     bindE (setNext h (nprev e) (nnext e)) (\<lambda>h.
     bindE (load h entry) (\<lambda>e.
     bindE (setPrev h (nnext e) (nprev e)) (\<lambda>h.
     bindE (load h entry) (\<lambda>e.
     let mtch = nmatch e in
     bindE (load h mtch) (\<lambda>m.
     bindE (setNext h (nprev m) (nnext m)) (\<lambda>h.
     bindE (load h mtch) (\<lambda>m.
     if nnext m \<noteq> None then setPrev h (nnext m) (nprev m) else Inr h))))))))"

definition unlift :: "'v store \<Rightarrow> ptr \<Rightarrow> 'v store go" where
  "unlift h entry =
     bindE (load h entry) (\<lambda>e.
     let mtch = nmatch e in
     bindE (load h mtch) (\<lambda>m.
     bindE (setNext h (nprev m) mtch) (\<lambda>h.
     bindE (load h mtch) (\<lambda>m.
     bindE (if nnext m \<noteq> None then setPrev h (nnext m) mtch else Inr h) (\<lambda>h.
     bindE (load h entry) (\<lambda>e.
     bindE (setNext h (nprev e) entry) (\<lambda>h.
     bindE (load h entry) (\<lambda>e.
     setPrev h (nnext e) entry))))))))"

subsection \<open>Chains of addresses\<close>

definition first :: "nat list \<Rightarrow> ptr" where
  "first xs = (case xs of [] \<Rightarrow> None | a # _ \<Rightarrow> Some a)"

lemma first_simps [simp]: "first [] = None" "first (a # xs) = Some a"
  by (simp_all add: first_def)

text \<open>A list segment: \<open>p\<close> is before its first node and \<open>q\<close> after its last.\<close>

fun seg :: "'v store \<Rightarrow> ptr \<Rightarrow> nat list \<Rightarrow> ptr \<Rightarrow> bool" where
  "seg h p [] q \<longleftrightarrow> True"
| "seg h p (a # xs) q \<longleftrightarrow>
     a < length h \<and> nprev (h ! a) = p \<and> nnext (h ! a) = (if xs = [] then q else first xs) \<and>
     seg h (Some a) xs q"

definition lastp :: "ptr \<Rightarrow> nat list \<Rightarrow> ptr" where
  "lastp p xs = (if xs = [] then p else Some (last xs))"

lemma lastp_simps [simp]: "lastp p [] = p" "lastp p (a # xs) = lastp (Some a) xs" "lastp p (xs @ [b]) = Some b"
  by (auto simp: lastp_def)

lemma lastp_append [simp]: "lastp p (xs @ ys) = lastp (lastp p xs) ys"
  by (induction xs arbitrary: p) auto

definition firstp :: "nat list \<Rightarrow> ptr \<Rightarrow> ptr" where
  "firstp xs q = (if xs = [] then q else first xs)"

lemma firstp_simps [simp]: "firstp [] q = q" "firstp (a # xs) q = Some a"
  by (auto simp: firstp_def)

lemma firstp_append [simp]: "firstp (xs @ ys) q = firstp xs (firstp ys q)"
  by (cases xs) simp_all

lemma seg_Cons [simp]:
  "seg h p (a # xs) q \<longleftrightarrow>
     a < length h \<and> nprev (h ! a) = p \<and> nnext (h ! a) = firstp xs q \<and> seg h (Some a) xs q"
  by (simp add: firstp_def)

declare seg.simps(2) [simp del]

lemma seg_append: "seg h p (xs @ ys) q \<longleftrightarrow> seg h p xs (firstp ys q) \<and> seg h (lastp p xs) ys q"
  by (induction xs arbitrary: p) auto

lemma seg_bound: "seg h p xs q \<Longrightarrow> a \<in> set xs \<Longrightarrow> a < length h"
  by (induction xs arbitrary: p) auto

subsection \<open>Taking a node out and putting it back\<close>

definition withNext :: "'v store \<Rightarrow> nat \<Rightarrow> ptr \<Rightarrow> 'v store" where
  "withNext h a q = h[a := (h ! a)\<lparr>nnext := q\<rparr>]"

definition withPrev :: "'v store \<Rightarrow> nat \<Rightarrow> ptr \<Rightarrow> 'v store" where
  "withPrev h a q = h[a := (h ! a)\<lparr>nprev := q\<rparr>]"

lemma nth_update_if: "h[a := x] ! c = (if c = a \<and> a < length h then x else h ! c)"
  by (cases "a < length h") (auto simp: nth_list_update list_update_beyond)

lemma withNext_fields [simp]:
  "length (withNext h a q) = length h"
  "nnext (withNext h a q ! c) = (if c = a \<and> a < length h then q else nnext (h ! c))"
  "nprev (withNext h a q ! c) = nprev (h ! c)"
  "nvalue (withNext h a q ! c) = nvalue (h ! c)"
  "nmatch (withNext h a q ! c) = nmatch (h ! c)"
  "nid (withNext h a q ! c) = nid (h ! c)"
  by (simp_all add: withNext_def nth_update_if)

lemma withPrev_fields [simp]:
  "length (withPrev h a q) = length h"
  "nprev (withPrev h a q ! c) = (if c = a \<and> a < length h then q else nprev (h ! c))"
  "nnext (withPrev h a q ! c) = nnext (h ! c)"
  "nvalue (withPrev h a q ! c) = nvalue (h ! c)"
  "nmatch (withPrev h a q ! c) = nmatch (h ! c)"
  "nid (withPrev h a q ! c) = nid (h ! c)"
  by (simp_all add: withPrev_def nth_update_if)

lemma store_eqI:
  "length h = length k \<Longrightarrow>
     (\<And>c. nvalue (h ! c) = nvalue (k ! c) \<and> nmatch (h ! c) = nmatch (k ! c) \<and> nid (h ! c) = nid (k ! c) \<and>
          nnext (h ! c) = nnext (k ! c) \<and> nprev (h ! c) = nprev (k ! c)) \<Longrightarrow> h = (k :: 'v store)"
  by (rule nth_equalityI) simp_all

lemma load_Some [simp]: "a < length h \<Longrightarrow> load h (Some a) = Inr (h ! a)"
  by (simp add: load_def)

lemma setNext_Some [simp]: "a < length h \<Longrightarrow> setNext h (Some a) q = Inr (withNext h a q)"
  by (simp add: setNext_def withNext_def)

lemma setPrev_Some [simp]: "a < length h \<Longrightarrow> setPrev h (Some a) q = Inr (withPrev h a q)"
  by (simp add: setPrev_def withPrev_def)

lemma seg_cong:
  "length h = length k \<Longrightarrow> (\<And>a. a \<in> set xs \<Longrightarrow> nnext (h ! a) = nnext (k ! a) \<and> nprev (h ! a) = nprev (k ! a)) \<Longrightarrow>
     seg h p xs q = seg k p xs q"
  by (induction xs arbitrary: p) auto

lemma seg_with_notin [simp]:
  "a \<notin> set xs \<Longrightarrow> seg (withNext h a r) p xs q = seg h p xs q"
  "a \<notin> set xs \<Longrightarrow> seg (withPrev h a r) p xs q = seg h p xs q"
  by (auto intro!: seg_cong)

definition unlinked :: "'v store \<Rightarrow> nat \<Rightarrow> ptr \<Rightarrow> 'v store" where
  "unlinked h a q =
     (case q of None \<Rightarrow> withNext h a q | Some b \<Rightarrow> withPrev (withNext h a q) b (Some a))"

definition relinked :: "'v store \<Rightarrow> nat \<Rightarrow> nat \<Rightarrow> ptr \<Rightarrow> 'v store" where
  "relinked h a x q =
     (case q of None \<Rightarrow> withNext h a (Some x) | Some b \<Rightarrow> withPrev (withNext h a (Some x)) b (Some x))"

lemma unlinked_fields [simp]:
  "length (unlinked h a q) = length h"
  "nvalue (unlinked h a q ! c) = nvalue (h ! c)"
  "nmatch (unlinked h a q ! c) = nmatch (h ! c)"
  "nid (unlinked h a q ! c) = nid (h ! c)"
  "nnext (unlinked h a q ! c) = (if c = a \<and> a < length h then q else nnext (h ! c))"
  "nprev (unlinked h a q ! c) = (if q = Some c \<and> c < length h then Some a else nprev (h ! c))"
  by (auto simp: unlinked_def split: option.split)

lemma relinked_fields [simp]:
  "length (relinked h a x q) = length h"
  "nvalue (relinked h a x q ! c) = nvalue (h ! c)"
  "nmatch (relinked h a x q ! c) = nmatch (h ! c)"
  "nid (relinked h a x q ! c) = nid (h ! c)"
  "nnext (relinked h a x q ! c) = (if c = a \<and> a < length h then Some x else nnext (h ! c))"
  "nprev (relinked h a x q ! c) = (if q = Some c \<and> c < length h then Some x else nprev (h ! c))"
  by (auto simp: relinked_def split: option.split)

lemma relinked_unlinked:
  assumes "nnext (h ! a) = Some x" "\<And>b. q = Some b \<Longrightarrow> nprev (h ! b) = Some x"
  shows "relinked (unlinked h a q) a x q = h"
  using assms by (intro store_eqI) auto

lemma unlinked_seg:
  assumes "seg h p (xs @ a # x # ys) None" "distinct (xs @ a # x # ys)"
  shows "seg (unlinked h a (first ys)) p (xs @ a # ys) None"
proof (cases ys)
  case Nil
  with assms show ?thesis by (auto simp: seg_append unlinked_def)
next
  case (Cons b zs)
  with assms show ?thesis by (auto simp: seg_append unlinked_def)
qed

lemma lift_unlinked:
  assumes "e < length h" "a < length h" "b < length h" "m < length h" "a \<noteq> e"
    and "nprev (h ! e) = Some a" "nnext (h ! e) = Some b" "nmatch (h ! e) = Some m"
    and "nprev (unlinked h a (Some b) ! m) = Some a'" "nnext (unlinked h a (Some b) ! m) = q"
    and "a' \<noteq> m" "a' < length h" "\<And>c. q = Some c \<Longrightarrow> c < length h"
  shows "lift h (Some e) = Inr (unlinked (unlinked h a (Some b)) a' q)"
  using assms
  by (cases q) (simp_all add: lift_def unlinked_def Let_def split: if_splits)

lemma unlift_relinked:
  assumes "e < length h" "m < length h" "nmatch (h ! e) = Some m"
    and "nprev (h ! m) = Some a'" "nnext (h ! m) = q" "a' \<noteq> m" "a' < length h"
    and "\<And>c. q = Some c \<Longrightarrow> c < length h"
    and "nprev (relinked h a' m q ! e) = Some a" "nnext (relinked h a' m q ! e) = Some b"
    and "a < length h" "b < length h" "a \<noteq> e"
  shows "unlift h (Some e) = Inr (relinked (relinked h a' m q) a e (Some b))"
  using assms
  by (cases q) (simp_all add: unlift_def relinked_def Let_def split: if_splits)

definition same_data :: "'v store \<Rightarrow> 'v store \<Rightarrow> bool" where
  "same_data h k \<longleftrightarrow> length h = length k \<and>
     (\<forall>c. nvalue (h ! c) = nvalue (k ! c) \<and> nmatch (h ! c) = nmatch (k ! c) \<and> nid (h ! c) = nid (k ! c))"

text \<open>
  \<open>lift\<close> on a chained list takes out the call and its return and touches no data field;
  \<open>unlift\<close> then restores the store as it was, whatever lies between the two nodes.
\<close>

lemma lift_list:
  assumes seg: "seg h None (s # pre @ e # mid @ m # post) None"
    and dist: "distinct (s # pre @ e # mid @ m # post)" and mt: "nmatch (h ! e) = Some m"
  obtains k where "lift h (Some e) = Inr k" "seg k None (s # pre @ mid @ post) None"
    "unlift k (Some e) = Inr h" "same_data h k"
proof -
  obtain xs a where xs: "s # pre = xs @ [a]" by (metis append_butlast_last_id list.discI)
  obtain b bs where bs: "mid @ m # post = b # bs" by (cases "mid @ m # post") auto
  have segA: "seg h None (xs @ a # e # b # bs) None" and distA: "distinct (xs @ a # e # b # bs)"
    using seg dist xs bs append_Cons append_assoc append.simps by metis+
  define h2 where "h2 = unlinked h a (Some b)"
  obtain ys a' where ys: "xs @ a # mid = ys @ [a']" by (metis append_butlast_last_id append_is_Nil_conv list.discI)
  have eq: "xs @ a # b # bs = ys @ a' # m # post" using bs ys by (metis append_Cons append_assoc append_Nil)
  have segB: "seg h2 None (ys @ a' # m # post) None" and distB: "distinct (ys @ a' # m # post)"
    using unlinked_seg [OF segA distA] distA by (auto simp: h2_def simp flip: eq)
  define k where "k = unlinked h2 a' (first post)"
  have inA: "c < length h" if "c \<in> set (xs @ a # e # b # bs)" for c using seg_bound [OF segA that] .
  have mem: "m \<in> set (xs @ a # e # b # bs)" "a' \<in> set (xs @ a # b # bs)" "set post \<subseteq> set (xs @ a # b # bs)"
    unfolding eq using bs by (auto simp flip: bs)
  have pq: "\<And>c. first post = Some c \<Longrightarrow> c < length h" 
    using mem(3) inA by (cases post) auto
  have nodes: "e < length h" "a < length h" "b < length h" "m < length h" "a' < length h" "a \<noteq> e" "a' \<noteq> m"
    using inA mem distA distB by auto
  have links: "nprev (h ! e) = Some a" "nnext (h ! e) = Some b" "nnext (h ! a) = Some e" "nprev (h ! b) = Some e"
    using segA by (auto simp: seg_append)
  have links2: "nprev (h2 ! m) = Some a'" "nnext (h2 ! m) = first post" "nnext (h2 ! a') = Some m"
    "\<And>c. first post = Some c \<Longrightarrow> nprev (h2 ! c) = Some m"
    using segB by (auto simp: seg_append firstp_def first_def split: list.splits)
  have lift: "lift h (Some e) = Inr k"
    unfolding k_def h2_def
    using nodes links links2 mt pq by (intro lift_unlinked) (auto simp: h2_def simp del: unlinked_fields)
  have segC: "seg k None (s # pre @ mid @ post) None"
    using unlinked_seg [OF segB distB] xs ys append_Cons append_assoc append.simps unfolding k_def by metis
  have notin: "e \<noteq> a'" "first post \<noteq> Some e"
    using distA mem by (auto simp: first_def split: list.splits)
  have re1: "relinked k a' m (first post) = h2"
    unfolding k_def using links2 by (intro relinked_unlinked) auto
  have "unlift k (Some e) = Inr (relinked h2 a e (Some b))"
    unfolding re1 [symmetric]
    using nodes links links2 pq mt notin distA distB re1
    by (intro unlift_relinked) (auto simp: k_def h2_def first_def split: list.splits)
  moreover have "relinked h2 a e (Some b) = h"
    unfolding h2_def using links by (intro relinked_unlinked) auto
  moreover have "same_data h k" by (simp add: same_data_def k_def h2_def)
  ultimately show ?thesis using that lift segC by simp
qed

subsection \<open>Building the list\<close>

text \<open>
  \<open>makeLinkedEntries\<close> allocates the entries from the last to the first, so the node at
  address \<open>a\<close> is entry \<open>a\<close> of the reversed list and the chain is
  \<open>[m - 1, ..., 1, 0]\<close>.
\<close>

definition node_of :: "'v entry list \<Rightarrow> nat \<Rightarrow> 'v node \<Rightarrow> bool" where
  "node_of rs a x \<longleftrightarrow>
     nvalue x = Some (evalue (rs ! a)) \<and> nid x = eid (rs ! a) \<and>
     (case nmatch x of
        None \<Rightarrow> kind (rs ! a) = callEntry \<longrightarrow> (\<forall>b < a. label (rs ! b) \<noteq> (returnEntry, eid (rs ! a)))
      | Some b \<Rightarrow> kind (rs ! a) = callEntry \<and> b < a \<and> label (rs ! b) = (returnEntry, eid (rs ! a)))"

definition linked :: "'v entry list \<Rightarrow> nat \<Rightarrow> 'v store \<Rightarrow> bool" where
  "linked rs k h \<longleftrightarrow> length h = k \<and> seg h None (rev [0..<k]) None \<and> (\<forall>a < k. node_of rs a (h ! a))"

definition match_of :: "'v entry list \<Rightarrow> nat \<Rightarrow> (nat \<Rightarrow> ptr) \<Rightarrow> bool" where
  "match_of rs k mtch \<longleftrightarrow>
     (\<forall>i. case mtch i of None \<Rightarrow> \<forall>b < k. label (rs ! b) \<noteq> (returnEntry, i)
        | Some b \<Rightarrow> b < k \<and> label (rs ! b) = (returnEntry, i))"

definition rootOf :: "nat \<Rightarrow> ptr" where
  "rootOf k = (if k = 0 then None else Some (k - 1))"

lemma insertBefore_root:
  assumes "linked rs k h" "nnext x = None" "nprev x = None"
  shows "\<exists>h'. insertBefore (h @ [x]) (Some k) (rootOf k) = Inr (h', Some k) \<and> length h' = Suc k \<and>
    seg h' None (rev [0..<Suc k]) None \<and>
    (\<forall>a < k. nvalue (h' ! a) = nvalue (h ! a) \<and> nmatch (h' ! a) = nmatch (h ! a) \<and> nid (h' ! a) = nid (h ! a)) \<and>
    nvalue (h' ! k) = nvalue x \<and> nmatch (h' ! k) = nmatch x \<and> nid (h' ! k) = nid x"
proof (cases k)
  case 0
  with assms show ?thesis by (simp add: insertBefore_def rootOf_def linked_def)
next
  case (Suc j)
  have len: "length h = k" and seg: "seg h None (j # rev [0..<j]) None"
    using assms(1) Suc by (simp_all add: linked_def)
  let ?h = "withNext (withPrev (h @ [x]) j (Some k)) k (Some j)"
  have "insertBefore (h @ [x]) (Some k) (rootOf k) = Inr (?h, Some k)"
    using len seg Suc by (simp add: insertBefore_def rootOf_def Let_def nth_append)
  moreover have "seg (h @ [x]) None (j # rev [0..<j]) None"
  proof -
    have "seg (h @ [x]) p ys None" if "seg h p ys None" "set ys \<subseteq> {..<k}" for ys p
      using that len by (induction ys arbitrary: p) (auto simp: nth_append)
    moreover have "set (j # rev [0..<j]) \<subseteq> {..<k}" using Suc by auto
    ultimately show ?thesis using seg by blast
  qed
  then have "seg ?h None (k # j # rev [0..<j]) None"
    using len Suc assms(3) by (auto simp: nth_append)
  ultimately show ?thesis using len Suc by (auto simp: nth_append)
qed

lemma linkLoop_step:
  assumes "linked rs k h" "match_of rs k mtch" "k < length rs" "distinct (map label rs)"
  shows "\<exists>h' mtch'. linkLoop (rs ! k # es) h (rootOf k) mtch = linkLoop es h' (rootOf (Suc k)) mtch' \<and>
    linked rs (Suc k) h' \<and> match_of rs (Suc k) mtch'"
proof -
  let ?x = "\<lparr>nvalue = Some (evalue (rs ! k)), nmatch = (if kind (rs ! k) = returnEntry then None else mtch (eid (rs ! k))),
      nid = eid (rs ! k), nnext = None, nprev = None\<rparr>"
  let ?m = "if kind (rs ! k) = returnEntry then mtch(eid (rs ! k) := Some k) else mtch"
  have len: "length h = k" using assms(1) by (simp add: linked_def)
  from insertBefore_root [OF assms(1), of ?x] obtain h' where
    ins: "insertBefore (h @ [?x]) (Some k) (rootOf k) = Inr (h', Some k)" and
    h': "length h' = Suc k" "seg h' None (rev [0..<Suc k]) None"
    "\<forall>a < k. nvalue (h' ! a) = nvalue (h ! a) \<and> nmatch (h' ! a) = nmatch (h ! a) \<and> nid (h' ! a) = nid (h ! a)"
    "nvalue (h' ! k) = nvalue ?x" "nmatch (h' ! k) = nmatch ?x" "nid (h' ! k) = nid ?x" by auto
  have "linkLoop (rs ! k # es) h (rootOf k) mtch = linkLoop es h' (rootOf (Suc k)) ?m"
    using ins len by (simp add: Let_def rootOf_def split: if_splits)
  moreover have "node_of rs k (h' ! k)"
    using h'(4-6) assms(2) [unfolded match_of_def, THEN spec, of "eid (rs ! k)"]
    by (cases "kind (rs ! k)") (auto simp: node_of_def split: option.splits)
  then have "linked rs (Suc k) h'"
    using h' assms(1) by (auto simp: linked_def node_of_def less_Suc_eq)
  moreover have "match_of rs (Suc k) ?m"
    unfolding match_of_def
  proof
    fix i
    from assms(2) [unfolded match_of_def, THEN spec, of i]
    show "case ?m i of None \<Rightarrow> \<forall>b < Suc k. label (rs ! b) \<noteq> (returnEntry, i)
        | Some b \<Rightarrow> b < Suc k \<and> label (rs ! b) = (returnEntry, i)"
      by (auto simp: label_def less_Suc_eq split: option.splits)
  qed
  ultimately show ?thesis by blast
qed

lemma linkLoop_linked:
  assumes "linked rs k h" "match_of rs k mtch" "k \<le> length rs" "distinct (map label rs)"
  shows "\<exists>h'. linkLoop (drop k rs) h (rootOf k) mtch = Inr (h', rootOf (length rs)) \<and> linked rs (length rs) h'"
  using assms
proof (induction "length rs - k" arbitrary: k h mtch)
  case 0
  then show ?case by simp
next
  case (Suc d)
  then have k: "k < length rs" by simp
  from linkLoop_step [OF Suc.prems(1,2) k Suc.prems(4), of "drop (Suc k) rs"]
  obtain h' mtch' where "linkLoop (drop k rs) h (rootOf k) mtch = linkLoop (drop (Suc k) rs) h' (rootOf (Suc k)) mtch'"
    "linked rs (Suc k) h'" "match_of rs (Suc k) mtch'"
    using k by (auto simp: Cons_nth_drop_Suc)
  with Suc.hyps(1) [of "Suc k" h' mtch'] Suc.hyps(2) Suc.prems(4) k show ?case by auto
qed

lemma makeLinkedEntries_linked:
  assumes "distinct (map label es)"
  obtains h where "makeLinkedEntries es = Inr (h, rootOf (length es))" "linked (rev es) (length es) h"
proof -
  have "linked (rev es) 0 []" "match_of (rev es) 0 (\<lambda>_. None)" by (simp_all add: linked_def match_of_def)
  from linkLoop_linked [OF this] assms that show ?thesis
    by (auto simp: makeLinkedEntries_def rootOf_def rev_map [symmetric])
qed

lemma length_nodes_seg:
  assumes "seg h p xs None"
  shows "length_nodes h (first xs) = Some (length xs)"
proof -
  have "while_option (\<lambda>(n, l). n \<noteq> None) (\<lambda>(n, l). (nnext (h ! the n), l + 1)) (first xs, l) = Some (None, l + length xs)" for l
    using assms
  proof (induction xs arbitrary: p l)
    case Nil
    show ?case by (subst while_option_unfold) simp
  next
    case (Cons a xs)
    then have "nnext (h ! a) = first xs" "seg h (Some a) xs None" by (auto simp: firstp_def)
    with Cons.IH [of "Some a" "l + 1"] show ?case by (subst while_option_unfold) simp
  qed
  from this [of 0] show ?thesis by (simp add: length_nodes_def)
qed

text \<open>
  Claim C13. On a doubly linked list of distinct nodes, \<open>lift\<close> on a call whose return lies
  anywhere behind it does not panic, takes exactly the two nodes out of the list, and \<open>unlift\<close>
  on the same call restores every link as it was.
\<close>

theorem lift_unlift_inverse:
  assumes "seg h None (s # pre @ e # mid @ m # post) None" "distinct (s # pre @ e # mid @ m # post)"
    and "nmatch (h ! e) = Some m"
  shows "\<exists>k. lift h (Some e) = Inr k \<and> seg k None (s # pre @ mid @ post) None \<and> unlift k (Some e) = Inr h"
  using lift_list [OF assms] by metis

definition sampleStore :: "bool store" where
  "sampleStore =
     [\<lparr>nvalue = Some True, nmatch = None, nid = 0, nnext = None, nprev = Some 1\<rparr>,
      \<lparr>nvalue = Some False, nmatch = Some 0, nid = 0, nnext = Some 0, nprev = Some 2\<rparr>,
      \<lparr>nvalue = None, nmatch = None, nid = 9, nnext = Some 1, nprev = None\<rparr>]"

theorem lift_unlift_inverse_witness:
  "\<exists>k. lift sampleStore (Some 1) = Inr k \<and> seg k None [2] None \<and> unlift k (Some 1) = Inr sampleStore"
  using lift_unlift_inverse [of sampleStore 2 "[]" 1 "[]" 0 "[]"] by (simp add: sampleStore_def)

end
