(* ===== verification/Lin_Check.thy ===== *)
theory Lin_Check
  imports Lin_List
begin

section \<open>The search of the linearizability checker\<close>

text \<open>
  \<open>checkSingle\<close> of \<open>linearizability.go\<close>: a depth-first search for a linearization with
  a cache of the configurations it has tried. The local variables of the function are the
  record \<open>Search\<close>; one turn of its loop is \<open>checkBody\<close>, and the loop is \<open>while_option\<close>, which
  is \<open>None\<close> if the loop does not end. The shared flag \<open>kill\<close> is a function that says what
  the \<open>i\<close>-th atomic load returns.
\<close>

record 's cacheEntry =
  clinearized :: bitset
  cstate :: 's

fun cacheScan :: "('s \<Rightarrow> 's \<Rightarrow> bool) option \<Rightarrow> 's cacheEntry list \<Rightarrow> 's cacheEntry \<Rightarrow> bool go" where
  "cacheScan equal [] entry = Inr False"
| "cacheScan equal (elem # bucket) entry =
     (if bs_equals (clinearized entry) (clinearized elem) then
        (case equal of None \<Rightarrow> Inl NilPointer
         | Some eq \<Rightarrow> if eq (cstate entry) (cstate elem) then Inr True else cacheScan equal bucket entry)
      else cacheScan equal bucket entry)"

definition cacheContains :: "('v, 's) Model \<Rightarrow> (64 word \<Rightarrow> 's cacheEntry list) \<Rightarrow> 's cacheEntry \<Rightarrow> bool go" where
  "cacheContains model cache entry =
     cacheScan (Equal model) (cache (bs_hash (clinearized entry))) entry"

record 's callsEntry =
  centry :: ptr
  callState :: 's

record ('v, 's) Search =
  heap :: "'v store"
  linearized :: bitset
  cache :: "64 word \<Rightarrow> 's cacheEntry list"
  calls :: "'s callsEntry list"
  state :: 's
  headEntry :: ptr
  entryp :: ptr
  turn :: nat

datatype ('v, 's) outcome = Continue "('v, 's) Search" | Finished bool

text \<open>
  \<open>model.Step\<close> on the values of two nodes. Only the head node has a nil value, and it is
  never stepped.
\<close>

definition stepNodes :: "('v, 's) Model \<Rightarrow> 's \<Rightarrow> 'v option \<Rightarrow> 'v option \<Rightarrow> (bool \<times> 's) go" where
  "stepNodes model s i r =
     (case (i, r) of (Some i, Some r) \<Rightarrow> Step model s i r | _ \<Rightarrow> Inl TypeAssertion)"

definition checkBody :: "('v, 's) Model \<Rightarrow> (nat \<Rightarrow> bool) \<Rightarrow> ('v, 's) Search \<Rightarrow> ('v, 's) outcome go" where
  "checkBody model kill S =
     bindE (load (heap S) (headEntry S)) (\<lambda>hd.
     if nnext hd = None then Inr (Finished True)
     else if kill (turn S) then Inr (Finished False)
     else let S = S\<lparr>turn := turn S + 1\<rparr> in
     bindE (load (heap S) (entryp S)) (\<lambda>entry.
     if nmatch entry \<noteq> None then
       bindE (load (heap S) (nmatch entry)) (\<lambda>matching.
       bindE (stepNodes model (state S) (nvalue entry) (nvalue matching)) (\<lambda>(ok, newState).
       if ok then
         bindE (bs_set (clone (linearized S)) (nid entry)) (\<lambda>newLinearized.
         let newCacheEntry = \<lparr>clinearized = newLinearized, cstate = newState\<rparr> in
         bindE (cacheContains model (cache S) newCacheEntry) (\<lambda>contained.
         if \<not> contained then
           let hash = bs_hash newLinearized in
           bindE (bs_set (linearized S) (nid entry)) (\<lambda>lin.
           bindE (lift (heap S) (entryp S)) (\<lambda>h.
           bindE (load h (headEntry S)) (\<lambda>hd.
           Inr (Continue (S\<lparr>cache := (cache S)(hash := cache S hash @ [newCacheEntry]),
                           calls := calls S @ [\<lparr>centry = entryp S, callState = state S\<rparr>],
                           state := newState, linearized := lin, heap := h, entryp := nnext hd\<rparr>)))))
         else Inr (Continue (S\<lparr>entryp := nnext entry\<rparr>))))
       else Inr (Continue (S\<lparr>entryp := nnext entry\<rparr>))))
     else if calls S = [] then Inr (Finished False)
     else
       let callsTop = last (calls S) in
       bindE (load (heap S) (centry callsTop)) (\<lambda>entry.
       bindE (bs_clear (linearized S) (nid entry)) (\<lambda>lin.
       bindE (unlift (heap S) (centry callsTop)) (\<lambda>h.
       bindE (load h (centry callsTop)) (\<lambda>entry.
       Inr (Continue (S\<lparr>state := callState callsTop, linearized := lin, calls := butlast (calls S),
                       heap := h, entryp := nnext entry\<rparr>))))))))"

definition running :: "('v, 's) outcome go \<Rightarrow> bool" where
  "running r = (case r of Inr (Continue _) \<Rightarrow> True | _ \<Rightarrow> False)"

definition checkTurn :: "('v, 's) Model \<Rightarrow> (nat \<Rightarrow> bool) \<Rightarrow> ('v, 's) outcome go \<Rightarrow> ('v, 's) outcome go" where
  "checkTurn model kill r = (case r of Inr (Continue S) \<Rightarrow> checkBody model kill S | _ \<Rightarrow> r)"

definition verdict :: "('v, 's) outcome go \<Rightarrow> bool go" where
  "verdict r = (case r of Inl e \<Rightarrow> Inl e | Inr (Finished b) \<Rightarrow> Inr b | Inr (Continue _) \<Rightarrow> Inl Blocked)"

definition checkSingle :: "('v, 's) Model \<Rightarrow> 'v store \<times> ptr \<Rightarrow> (nat \<Rightarrow> bool) \<Rightarrow> bool go option" where
  "checkSingle model sub kill =
     (let (h, subhistory) = sub in
      case length_nodes h subhistory of None \<Rightarrow> None
      | Some len \<Rightarrow>
        let n = len div 2;
            hd = \<lparr>nvalue = None, nmatch = None, nid = 2 ^ 64 - 1, nnext = None, nprev = None\<rparr>
        in case insertBefore (h @ [hd]) (Some (length h)) subhistory of
             Inl e \<Rightarrow> Some (Inl e)
           | Inr (h, hp) \<Rightarrow>
               map_option verdict (while_option running (checkTurn model kill)
                 (Inr (Continue \<lparr>heap = h, linearized = newBitset n, cache = (\<lambda>_. []), calls = [],
                                state = Init model, headEntry = hp, entryp = subhistory,
                                turn = 0\<rparr>))))"

subsection \<open>Linearizability\<close>

fun runs :: "('v, 's) Model \<Rightarrow> 's \<Rightarrow> ('v \<times> 'v) list \<Rightarrow> bool" where
  "runs model s [] = True"
| "runs model s ((i, r) # ops) =
     (case Step model s i r of Inl _ \<Rightarrow> False | Inr (ok, s') \<Rightarrow> ok \<and> runs model s' ops)"

definition opValue :: "'v entry list \<Rightarrow> entryKind \<times> nat \<Rightarrow> 'v" where
  "opValue es l = the (map_of (map (\<lambda>e. (label e, evalue e)) es) l)"

definition opOf :: "'v entry list \<Rightarrow> nat \<Rightarrow> 'v \<times> 'v" where
  "opOf es i = (opValue es (callEntry, i), opValue es (returnEntry, i))"

definition returnsBefore :: "'v entry list \<Rightarrow> nat \<Rightarrow> nat \<Rightarrow> bool" where
  "returnsBefore es j i \<longleftrightarrow>
     (\<exists>p q. p < q \<and> q < length es \<and> label (es ! p) = (returnEntry, j) \<and> label (es ! q) = (callEntry, i))"

definition linearizes :: "('v, 's) Model \<Rightarrow> 'v entry list \<Rightarrow> nat set \<Rightarrow> 's \<Rightarrow> nat list \<Rightarrow> bool" where
  "linearizes model es I s ord \<longleftrightarrow>
     distinct ord \<and> set ord = I \<and> sorted_wrt (\<lambda>i j. \<not> returnsBefore es j i) ord \<and>
     runs model s (map (opOf es) ord)"

definition linearizable :: "('v, 's) Model \<Rightarrow> nat \<Rightarrow> 'v entry list \<Rightarrow> bool" where
  "linearizable model n es \<longleftrightarrow> (\<exists>ord. linearizes model es {..<n} (Init model) ord)"

end
