(* ===== verification/Lin_Correct.thy ===== *)
theory Lin_Correct
  imports Lin_Check
begin

section \<open>Correctness of the linearizability checker\<close>

text \<open>
  \<open>checkSingle\<close> decides linearizability. The proof is one invariant of the loop: the
  links of the store are those of the entries not yet linearized, the stack holds the
  operations linearized so far with the states before them, everything to the left of
  the current entry at each level has been tried in vain, and every cached configuration
  is either on the stack or has no linearization. Each turn keeps the invariant and lowers
  the triple (configurations not cached, depth of the stack, address of the entry).
\<close>

subsection \<open>Addresses of entries\<close>

definition idAt :: "'v entry list \<Rightarrow> nat \<Rightarrow> nat" where
  "idAt es a = eid (rev es ! a)"

definition callAt :: "'v entry list \<Rightarrow> nat \<Rightarrow> bool" where
  "callAt es a \<longleftrightarrow> a < length es \<and> kind (rev es ! a) = callEntry"

definition addrs :: "'v entry list \<Rightarrow> nat set \<Rightarrow> nat list" where
  "addrs es S = filter (\<lambda>a. idAt es a \<notin> S) (rev [0..<length es])"

lemma mem_addrs [simp]: "a \<in> set (addrs es S) \<longleftrightarrow> a < length es \<and> idAt es a \<notin> S"
  by (auto simp: addrs_def)

lemma distinct_addrs [simp]: "distinct (addrs es S)"
  by (simp add: addrs_def)

lemma addrs_decreasing: "sorted_wrt (>) (addrs es S)"
  unfolding addrs_def by (rule sorted_wrt_filter) (simp add: sorted_wrt_rev)

lemma addrs_insert: "addrs es (insert i S) = filter (\<lambda>a. idAt es a \<noteq> i) (addrs es S)"
  by (simp add: addrs_def conj_commute)

lemma callAt_label: "callAt es a \<longleftrightarrow> a < length es \<and> label (rev es ! a) = (callEntry, idAt es a)"
  by (simp add: callAt_def label_def idAt_def)

lemma returnAt_label:
  "a < length es \<Longrightarrow> \<not> callAt es a \<longleftrightarrow> label (rev es ! a) = (returnEntry, idAt es a)"
  by (cases "kind (rev es ! a)") (simp_all add: callAt_def label_def idAt_def)

lemma label_cases: "a < length es \<Longrightarrow> label (rev es ! a) = (if callAt es a then callEntry else returnEntry, idAt es a)"
  by (cases "kind (rev es ! a)") (auto simp: callAt_def label_def idAt_def)

lemma wf_rev:
  assumes "wf_entries n es"
  shows "distinct (map label (rev es))" "label ` set (rev es) = {callEntry, returnEntry} \<times> {..<n}"
  using assms by (auto simp: wf_entries_def rev_map [symmetric])

lemma wf_address:
  assumes wf: "wf_entries n es" and "i < n"
  obtains a where "a < length es" "label (rev es ! a) = (k, i)"
proof -
  have "(k, i) \<in> label ` set (rev es)"
    using wf_rev(2) [OF wf] assms(2) by (cases k) auto
  then obtain e where "e \<in> set (rev es)" "label e = (k, i)" by auto
  then show ?thesis using that unfolding in_set_conv_nth by auto
qed

lemma wf_same_address:
  assumes "wf_entries n es" "a < length es" "b < length es" "label (rev es ! a) = label (rev es ! b)"
  shows "a = b"
  using wf_rev(1) [OF assms(1)] assms(2-4) by (simp add: distinct_conv_nth) metis

lemma wf_idAt: "wf_entries n es \<Longrightarrow> a < length es \<Longrightarrow> idAt es a < n"
proof -
  assume wf: "wf_entries n es" and a: "a < length es"
  then have "label (rev es ! a) \<in> {callEntry, returnEntry} \<times> {..<n}"
    using wf_rev(2) [OF wf] nth_mem [of a "rev es"] by auto
  then show ?thesis by (simp add: label_def idAt_def)
qed

lemma wf_call_after_return:
  assumes wf: "wf_entries n es" and "b < length es" "\<not> callAt es b" "callAt es a" "idAt es a = idAt es b"
  shows "b < a"
proof -
  let ?p = "length es - Suc a" and ?q = "length es - Suc b"
  have len: "?p < length es" "?q < length es" using assms by (auto simp: callAt_def)
  have "es ! ?p = rev es ! a" "es ! ?q = rev es ! b"
    using assms by (simp_all add: rev_nth callAt_def)
  moreover have "label (rev es ! a) = (callEntry, eid (rev es ! b))" "kind (rev es ! b) = returnEntry"
    using assms label_cases [of a es] label_cases [of b es] by (auto simp: callAt_def idAt_def label_def)
  ultimately have "?p < ?q" using wf len by (auto simp: wf_entries_def)
  then show ?thesis using assms by (auto simp: callAt_def)
qed

lemma wf_returnAt:
  assumes wf: "wf_entries n es" and a: "callAt es a"
  obtains b where "b < a" "\<not> callAt es b" "idAt es b = idAt es a" "label (rev es ! b) = (returnEntry, idAt es a)"
proof -
  have "idAt es a < n" using wf_idAt [OF wf] a by (simp add: callAt_def)
  then obtain b where b: "b < length es" "label (rev es ! b) = (returnEntry, idAt es a)"
    using wf_address [OF wf] by metis
  then have "\<not> callAt es b" "idAt es b = idAt es a" by (auto simp: callAt_def label_def idAt_def)
  with wf_call_after_return [OF wf b(1)] a b that show ?thesis by metis
qed

lemma same_op_address:
  assumes "wf_entries n es" "callAt es a" "b < length es" "\<not> callAt es b" "idAt es b = idAt es a"
    and "c < length es" "idAt es c = idAt es a"
  shows "c = a \<or> c = b"
proof (cases "callAt es c")
  case True
  then have "c = a" using assms by (intro wf_same_address [OF assms(1)]) (auto simp: label_cases callAt_def)
  then show ?thesis ..
next
  case False
  then have "c = b" using assms by (intro wf_same_address [OF assms(1)]) (auto simp: label_cases)
  then show ?thesis ..
qed

text \<open>Taking operation \<open>idAt es a\<close> out of the remaining addresses removes its two nodes.\<close>

lemma addrs_split:
  assumes wf: "wf_entries n es" and a: "callAt es a" "idAt es a \<notin> S"
    and b: "b < a" "\<not> callAt es b" "idAt es b = idAt es a"
  obtains pre mid post where "addrs es S = pre @ a # mid @ b # post"
    "addrs es (insert (idAt es a) S) = pre @ mid @ post" 
proof -
  have "a \<in> set (addrs es S)" using a by (simp add: callAt_def)
  then obtain pre rest where 1: "addrs es S = pre @ a # rest" by (meson split_list)
  have "b \<in> set (addrs es S)" using a b by (simp add: callAt_def)
  moreover have "b \<notin> set pre" using addrs_decreasing [of es S] b 1 by (auto simp: sorted_wrt_append)
  ultimately have "b \<in> set rest" using b 1 by auto
  then obtain mid post where 2: "rest = mid @ b # post" by (meson split_list)
  have "distinct (pre @ a # mid @ b # post)" using distinct_addrs [of es S] 1 2 by simp
  moreover have "idAt es c \<noteq> idAt es a" if "c \<in> set (pre @ mid @ post)" for c
  proof
    assume eq: "idAt es c = idAt es a"
    have "c \<in> set (addrs es S)" using that 1 2 by auto
    then have "c = a \<or> c = b"
      using eq a b by (intro same_op_address [OF wf]) (auto simp: callAt_def)
    with that \<open>distinct (pre @ a # mid @ b # post)\<close> show False by auto
  qed
  ultimately have "addrs es (insert (idAt es a) S) = pre @ mid @ post"
    using b unfolding addrs_insert 1 2 by (auto simp: filter_id_conv)
  with that 1 2 show ?thesis by blast
qed

subsection \<open>Linearizing one operation first\<close>

definition solvable :: "('v, 's) Model \<Rightarrow> nat \<Rightarrow> 'v entry list \<Rightarrow> nat set \<Rightarrow> 's \<Rightarrow> bool" where
  "solvable model n es S s \<longleftrightarrow> (\<exists>ord. linearizes model es ({..<n} - S) s ord)"

definition stepAt :: "('v, 's) Model \<Rightarrow> 'v entry list \<Rightarrow> 's \<Rightarrow> nat \<Rightarrow> (bool \<times> 's) go" where
  "stepAt model es s a = (let (i, r) = opOf es (idAt es a) in Step model s i r)"

lemma returnsBefore_addr:
  assumes wf: "wf_entries n es" and a: "callAt es a"
  shows "returnsBefore es j (idAt es a) \<longleftrightarrow> (\<exists>b. a < b \<and> b < length es \<and> \<not> callAt es b \<and> idAt es b = j)"
proof
  assume "returnsBefore es j (idAt es a)"
  then obtain p q where pq: "p < q" "q < length es" "label (es ! p) = (returnEntry, j)"
    "label (es ! q) = (callEntry, idAt es a)" by (auto simp: returnsBefore_def)
  let ?b = "length es - Suc p" and ?c = "length es - Suc q"
  have rev: "rev es ! ?b = es ! p" "rev es ! ?c = es ! q" using pq by (simp_all add: rev_nth)
  have "?c = a" using pq a rev by (intro wf_same_address [OF wf]) (auto simp: callAt_label)
  moreover have "\<not> callAt es ?b" "idAt es ?b = j" using rev pq by (auto simp: callAt_def idAt_def label_def)
  ultimately show "\<exists>b. a < b \<and> b < length es \<and> \<not> callAt es b \<and> idAt es b = j"
    using pq by (intro exI [of _ ?b]) auto
next
  assume "\<exists>b. a < b \<and> b < length es \<and> \<not> callAt es b \<and> idAt es b = j"
  then obtain b where b: "a < b" "b < length es" "\<not> callAt es b" "idAt es b = j" by auto
  then show "returnsBefore es j (idAt es a)"
    unfolding returnsBefore_def using a label_cases [of a es] label_cases [of b es]
    by (intro exI [of _ "length es - Suc b"] exI [of _ "length es - Suc a"]) (auto simp: rev_nth callAt_def)
qed

text \<open>The candidates for the next operation: calls with no remaining return to their left.\<close>

definition candidate :: "'v entry list \<Rightarrow> nat set \<Rightarrow> nat \<Rightarrow> bool" where
  "candidate es S a \<longleftrightarrow> callAt es a \<and> idAt es a \<notin> S \<and>
     (\<forall>b. a < b \<and> b < length es \<and> idAt es b \<notin> S \<longrightarrow> callAt es b)"

lemma linearizes_Cons:
  assumes wf: "wf_entries n es" and a: "callAt es a" "idAt es a \<notin> S"
  shows "linearizes model es ({..<n} - S) s (idAt es a # ord) \<longleftrightarrow>
    candidate es S a \<and> (\<exists>s'. stepAt model es s a = Inr (True, s') \<and>
       linearizes model es ({..<n} - insert (idAt es a) S) s' ord)"
proof -
  let ?i = "idAt es a"
  have i: "?i < n" using wf_idAt [OF wf] a by (simp add: callAt_def)
  have run: "runs model s (map (opOf es) (?i # ord)) \<longleftrightarrow>
      (\<exists>s'. stepAt model es s a = Inr (True, s') \<and> runs model s' (map (opOf es) ord))"
    by (auto simp: stepAt_def opOf_def split: sum.splits)
  have first: "(\<forall>j \<in> set ord. \<not> returnsBefore es j ?i) \<longleftrightarrow> candidate es S a"
    if ord: "set ord = {..<n} - insert ?i S"
  proof -
    have "(\<exists>j \<in> set ord. returnsBefore es j ?i) \<longleftrightarrow>
        (\<exists>b. a < b \<and> b < length es \<and> \<not> callAt es b \<and> idAt es b \<in> {..<n} - insert ?i S)"
      unfolding returnsBefore_addr [OF wf a(1)] ord by auto
    also have "\<dots> \<longleftrightarrow> (\<exists>b. a < b \<and> b < length es \<and> \<not> callAt es b \<and> idAt es b \<notin> S)"
      using wf_idAt [OF wf] wf_call_after_return [OF wf _ _ a(1)] by fastforce
    finally show ?thesis using a by (auto simp: candidate_def)
  qed
  have ids: "distinct (?i # ord) \<and> set (?i # ord) = {..<n} - S \<longleftrightarrow> distinct ord \<and> set ord = {..<n} - insert ?i S"
    using i a by auto
  have "linearizes model es ({..<n} - S) s (?i # ord) \<longleftrightarrow>
      (distinct (?i # ord) \<and> set (?i # ord) = {..<n} - S) \<and> (\<forall>j \<in> set ord. \<not> returnsBefore es j ?i) \<and>
      sorted_wrt (\<lambda>i j. \<not> returnsBefore es j i) ord \<and> runs model s (map (opOf es) (?i # ord))"
    by (simp add: linearizes_def)
  also have "\<dots> \<longleftrightarrow> candidate es S a \<and> (distinct ord \<and> set ord = {..<n} - insert ?i S) \<and>
      sorted_wrt (\<lambda>i j. \<not> returnsBefore es j i) ord \<and>
      (\<exists>s'. stepAt model es s a = Inr (True, s') \<and> runs model s' (map (opOf es) ord))"
    unfolding ids run using first by blast
  finally show ?thesis unfolding linearizes_def by blast
qed
lemma solvable_unfold:
  assumes wf: "wf_entries n es" and S: "S \<subseteq> {..<n}"
  shows "solvable model n es S s \<longleftrightarrow> S = {..<n} \<or>
    (\<exists>a s'. candidate es S a \<and> stepAt model es s a = Inr (True, s') \<and>
       solvable model n es (insert (idAt es a) S) s')"
proof -
  have "solvable model n es S s \<longleftrightarrow> linearizes model es ({..<n} - S) s [] \<or>
      (\<exists>i ord. linearizes model es ({..<n} - S) s (i # ord))"
    unfolding solvable_def by (metis list.exhaust)
  moreover have "linearizes model es ({..<n} - S) s [] \<longleftrightarrow> S = {..<n}"
    using S by (auto simp: linearizes_def)
  moreover have "(\<exists>i ord. linearizes model es ({..<n} - S) s (i # ord)) \<longleftrightarrow>
      (\<exists>a ord. callAt es a \<and> idAt es a \<notin> S \<and> linearizes model es ({..<n} - S) s (idAt es a # ord))"
  proof -
    have "\<exists>a. callAt es a \<and> idAt es a \<notin> S \<and> idAt es a = i"
      if "linearizes model es ({..<n} - S) s (i # ord)" for i ord
    proof -
      have "i < n" "i \<notin> S" using that by (auto simp: linearizes_def)
      with wf_address [OF wf, of i callEntry] show ?thesis by (metis callAt_def idAt_def label_def prod.inject)
    qed
    then show ?thesis by metis
  qed
  ultimately show ?thesis
    using linearizes_Cons [OF wf] unfolding solvable_def by (metis candidate_def)
qed

text \<open>When the search stands on a return and everything to its left has failed, nothing is left.\<close>

definition fails :: "('v, 's) Model \<Rightarrow> nat \<Rightarrow> 'v entry list \<Rightarrow> nat set \<Rightarrow> 's \<Rightarrow> nat \<Rightarrow> bool" where
  "fails model n es S s a \<longleftrightarrow>
     (\<forall>s'. stepAt model es s a = Inr (True, s') \<longrightarrow> \<not> solvable model n es (insert (idAt es a) S) s')"

definition tried :: "('v, 's) Model \<Rightarrow> nat \<Rightarrow> 'v entry list \<Rightarrow> nat set \<Rightarrow> 's \<Rightarrow> nat \<Rightarrow> bool" where
  "tried model n es S s a \<longleftrightarrow>
     (\<forall>b. a < b \<and> b < length es \<and> idAt es b \<notin> S \<longrightarrow> callAt es b \<and> fails model n es S s b)"

lemma exhausted:
  assumes wf: "wf_entries n es" and S: "S \<subseteq> {..<n}" and a: "a < length es" "idAt es a \<notin> S" "\<not> callAt es a"
    and tried: "tried model n es S s a"
  shows "\<not> solvable model n es S s"
proof
  assume "solvable model n es S s"
  moreover have "S \<noteq> {..<n}" using wf_idAt [OF wf a(1)] a by auto
  ultimately obtain c s' where c: "candidate es S c" "stepAt model es s c = Inr (True, s')"
    "solvable model n es (insert (idAt es c) S) s'"
    using solvable_unfold [OF wf S] by metis
  then have "c \<noteq> a" "\<not> c < a" using a by (auto simp: candidate_def)
  then have "fails model n es S s c"
    using tried c by (auto simp: tried_def candidate_def callAt_def)
  with c show False by (auto simp: fails_def)
qed

subsection \<open>The store during the search\<close>

text \<open>\<open>h1\<close> is the store when the loop starts: the linked entries and the head node after them.\<close>

definition start_store :: "'v entry list \<Rightarrow> 'v store \<Rightarrow> bool" where
  "start_store es h1 \<longleftrightarrow> length h1 = Suc (length es) \<and> (\<forall>a < length es. node_of (rev es) a (h1 ! a)) \<and>
     seg h1 None (length es # addrs es {}) None"

definition good_store :: "'v entry list \<Rightarrow> 'v store \<Rightarrow> nat set \<Rightarrow> 'v store \<Rightarrow> bool" where
  "good_store es h1 S h \<longleftrightarrow> same_data h1 h \<and> seg h None (length es # addrs es S) None"

lemma opValue_at:
  assumes "wf_entries n es" "a < length es"
  shows "opValue es (label (rev es ! a)) = evalue (rev es ! a)"
proof -
  have "distinct (map fst (map (\<lambda>e. (label e, evalue e)) es))" using assms by (simp add: wf_entries_def comp_def)
  moreover have "rev es ! a \<in> set es" using assms nth_mem [of a "rev es"] by simp
  then have "(label (rev es ! a), evalue (rev es ! a)) \<in> set (map (\<lambda>e. (label e, evalue e)) es)" by auto
  ultimately show ?thesis unfolding opValue_def by (metis map_of_is_SomeI option.sel)
qed

lemma node_at:
  assumes wf: "wf_entries n es" and st: "start_store es h1" "same_data h1 h" and a: "a < length es"
  shows "a < length h" "nid (h ! a) = idAt es a" "\<not> callAt es a \<Longrightarrow> nmatch (h ! a) = None"
    and "callAt es a \<Longrightarrow> \<exists>b. nmatch (h ! a) = Some b \<and> b < a \<and> \<not> callAt es b \<and> idAt es b = idAt es a \<and>
           nvalue (h ! a) = Some (fst (opOf es (idAt es a))) \<and> nvalue (h ! b) = Some (snd (opOf es (idAt es a)))"
proof -
  have node: "node_of (rev es) c (h ! c)" if "c < length es" for c
    using st that by (simp add: start_store_def same_data_def node_of_def)
  show "a < length h" using st a by (auto simp: start_store_def same_data_def)
  show "nid (h ! a) = idAt es a" using node [OF a] by (simp add: node_of_def idAt_def)
  show "nmatch (h ! a) = None" if "\<not> callAt es a"
    using node [OF a] that a by (auto simp: node_of_def callAt_def split: option.splits)
  assume c: "callAt es a"
  from wf_returnAt [OF wf c] obtain b where b: "b < a" "\<not> callAt es b" "idAt es b = idAt es a"
    "label (rev es ! b) = (returnEntry, idAt es a)" .
  from node [OF a] obtain b' where b': "nmatch (h ! a) = Some b'" "b' < a" "label (rev es ! b') = (returnEntry, idAt es a)"
    using c b by (auto simp: node_of_def callAt_def idAt_def split: option.splits)
  have "b' = b" using b b' a by (intro wf_same_address [OF wf]) auto
  moreover have "nvalue (h ! a) = Some (opValue es (callEntry, idAt es a))"
    "nvalue (h ! b) = Some (opValue es (returnEntry, idAt es a))"
    using node [OF a] node [of b] b a c opValue_at [OF wf a] opValue_at [OF wf, of b] label_cases [of a es]
    by (auto simp: node_of_def)
  ultimately show "\<exists>b. nmatch (h ! a) = Some b \<and> b < a \<and> \<not> callAt es b \<and> idAt es b = idAt es a \<and>
           nvalue (h ! a) = Some (fst (opOf es (idAt es a))) \<and> nvalue (h ! b) = Some (snd (opOf es (idAt es a)))"
    using b b' by (auto simp: opOf_def)
qed

lemma stepNodes_stepAt:
  "stepNodes model s (Some (fst (opOf es (idAt es a)))) (Some (snd (opOf es (idAt es a)))) = stepAt model es s a"
  by (simp add: stepNodes_def stepAt_def opOf_def)

lemma good_store_lift:
  assumes wf: "wf_entries n es" and st: "start_store es h1" "good_store es h1 S h"
    and a: "callAt es a" "idAt es a \<notin> S"
  obtains k where "lift h (Some a) = Inr k" "unlift k (Some a) = Inr h"
    "good_store es h1 (insert (idAt es a) S) k"
proof -
  have sd: "same_data h1 h" and len: "a < length es" using st a by (auto simp: good_store_def callAt_def)
  from node_at(4) [OF wf st(1) sd len a(1)] obtain b where b: "nmatch (h ! a) = Some b" "b < a"
    "\<not> callAt es b" "idAt es b = idAt es a" by blast
  from addrs_split [OF wf a b(2-4)] obtain pre mid post where
    split: "addrs es S = pre @ a # mid @ b # post" "addrs es (insert (idAt es a) S) = pre @ mid @ post" .
  have seg: "seg h None (length es # pre @ a # mid @ b # post) None"
    using st(2) unfolding good_store_def split(1) by (rule conjunct2)
  have dist: "distinct (length es # pre @ a # mid @ b # post)"
    unfolding split(1) [symmetric] by simp
  from lift_list [OF seg dist b(1)] obtain k where k: "lift h (Some a) = Inr k"
    "seg k None (length es # pre @ mid @ post) None" "unlift k (Some a) = Inr h" "same_data h k" .
  have "same_data h1 k" using sd k(4) by (simp add: same_data_def)
  with k(2) have "good_store es h1 (insert (idAt es a) S) k" unfolding good_store_def split(2) by blast
  with that k show ?thesis by blast
qed

lemma good_store_head:
  assumes "good_store es h1 S h"
  shows "length es < length h" "nnext (h ! length es) = first (addrs es S)"
  using assms by (auto simp: good_store_def firstp_def)

text \<open>From an entry the search moves to the next remaining one, at a smaller address.\<close>

lemma good_store_next:
  assumes "good_store es h1 S h" "a < length es" "idAt es a \<notin> S"
  shows "(nnext (h ! a) = None \<and> (\<forall>b < a. idAt es b \<in> S)) \<or>
    (\<exists>b. nnext (h ! a) = Some b \<and> b < a \<and> idAt es b \<notin> S \<and> (\<forall>c. b < c \<and> c < a \<longrightarrow> idAt es c \<in> S))"
proof -
  have "a \<in> set (addrs es S)" using assms by simp
  then obtain xs ys where xs: "addrs es S = xs @ a # ys" by (meson split_list)
  have nx: "nnext (h ! a) = first ys" using assms(1) xs by (auto simp: good_store_def seg_append firstp_def)
  have dec: "sorted_wrt (>) (xs @ a # ys)" using addrs_decreasing [of es S] xs by simp
  have mem: "c \<in> set ys" if "c < a" "idAt es c \<notin> S" for c
  proof -
    have "c \<in> set (xs @ a # ys)" using that assms(2) by (simp flip: xs)
    with dec that show ?thesis by (auto simp: sorted_wrt_append)
  qed
  have ysS: "idAt es c \<notin> S" if "c \<in> set ys" for c
  proof -
    have "c \<in> set (addrs es S)" using that xs by simp
    then show ?thesis by simp
  qed
  show ?thesis
  proof (cases ys)
    case Nil
    with nx mem show ?thesis by auto
  next
    case (Cons b zs)
    with nx ysS dec have b: "nnext (h ! a) = Some b" "b < a" "idAt es b \<notin> S" "\<forall>c \<in> set ys. c \<le> b"
      by (auto simp: sorted_wrt_append)
    moreover have "\<forall>c. b < c \<and> c < a \<longrightarrow> idAt es c \<in> S" using mem b(4) by (meson not_less)
    ultimately show ?thesis by blast
  qed
qed

lemma tried_next:
  assumes "tried model n es S s a" "callAt es a" "idAt es a \<notin> S \<Longrightarrow> fails model n es S s a"
    and "\<forall>c. b < c \<and> c < a \<longrightarrow> idAt es c \<in> S"
  shows "tried model n es S s b"
  unfolding tried_def
proof (intro allI impI)
  fix c assume c: "b < c \<and> c < length es \<and> idAt es c \<notin> S"
  with assms(4) have "a \<le> c" by (meson not_less)
  with assms c show "callAt es c \<and> fails model n es S s c"
    by (cases "c = a") (auto simp: tried_def)
qed

lemma last_is_return:
  assumes wf: "wf_entries n es" and a: "callAt es a" "idAt es a \<notin> S"
  shows "\<exists>b < a. idAt es b \<notin> S"
  using wf_returnAt [OF wf a(1)] a(2) by metis

subsection \<open>The stack and the cache\<close>

fun stackIds :: "'v entry list \<Rightarrow> (nat \<times> 's) list \<Rightarrow> nat set" where
  "stackIds es [] = {}"
| "stackIds es ((a, s) # cs) = insert (idAt es a) (stackIds es cs)"

fun stack_ok :: "('v, 's) Model \<Rightarrow> nat \<Rightarrow> 'v entry list \<Rightarrow> 'v store \<Rightarrow> (nat \<times> 's) list \<Rightarrow> 'v store \<Rightarrow> 's \<Rightarrow> bool" where
  "stack_ok model n es h1 [] h s \<longleftrightarrow> h = h1 \<and> s = Init model"
| "stack_ok model n es h1 ((a, s0) # cs) h s \<longleftrightarrow>
     callAt es a \<and> idAt es a \<notin> stackIds es cs \<and> tried model n es (stackIds es cs) s0 a \<and>
     stepAt model es s0 a = Inr (True, s) \<and>
     (\<exists>h0. stack_ok model n es h1 cs h0 s0 \<and> lift h0 (Some a) = Inr h \<and> unlift h (Some a) = Inr h0)"

fun stackConfigs :: "'v entry list \<Rightarrow> (nat \<times> 's) list \<Rightarrow> 's \<Rightarrow> (nat set \<times> 's) set" where
  "stackConfigs es [] s = {}"
| "stackConfigs es ((a, s0) # cs) s =
     insert (stackIds es ((a, s0) # cs), s) (stackConfigs es cs s0)"

fun reachStates :: "('v, 's) Model \<Rightarrow> nat \<Rightarrow> 'v entry list \<Rightarrow> nat \<Rightarrow> 's set" where
  "reachStates model n es 0 = {Init model}"
| "reachStates model n es (Suc k) =
     {s'. \<exists>s \<in> reachStates model n es k. \<exists>i < n. Step model s (fst (opOf es i)) (snd (opOf es i)) = Inr (True, s')}"

definition configs :: "('v, 's) Model \<Rightarrow> nat \<Rightarrow> 'v entry list \<Rightarrow> (nat set \<times> 's) set" where
  "configs model n es = Pow {..<n} \<times> (\<Union>k \<le> n. reachStates model n es k)"

lemma finite_configs: "finite (configs model n es)"
proof -
  have "finite (reachStates model n es k)" for k
  proof (induction k)
    case (Suc k)
    let ?f = "\<lambda>(s, i). snd (projr (Step model s (fst (opOf es i)) (snd (opOf es i))))"
    have "reachStates model n es (Suc k) \<subseteq> ?f ` (reachStates model n es k \<times> {..<n})"
      by (force simp: image_iff)
    with Suc show ?case by (meson finite_SigmaI finite_imageI finite_lessThan finite_subset)
  qed simp
  then show ?thesis by (simp add: configs_def)
qed

lemma stackIds_bound:
  assumes "wf_entries n es" "stack_ok model n es h1 cs h s"
  shows "stackIds es cs \<subseteq> {..<n} \<and> finite (stackIds es cs) \<and> card (stackIds es cs) = length cs"
  using assms(2)
proof (induction cs arbitrary: h s)
  case (Cons c cs)
  obtain a s0 where c: "c = (a, s0)" by (cases c)
  with Cons obtain h0 where "stack_ok model n es h1 cs h0 s0" "callAt es a" "idAt es a \<notin> stackIds es cs" by auto
  with Cons.IH [of h0 s0] c wf_idAt [OF assms(1), of a] show ?case by (simp add: callAt_def)
qed simp

lemma stack_depth:
  assumes "wf_entries n es" "stack_ok model n es h1 cs h s"
  shows "length cs \<le> n"
  using stackIds_bound [OF assms] card_mono [of "{..<n}" "stackIds es cs"] by simp

lemma stack_state:
  assumes "wf_entries n es" "stack_ok model n es h1 cs h s"
  shows "s \<in> reachStates model n es (length cs)"
  using assms(2)
proof (induction cs arbitrary: h s)
  case (Cons c cs)
  then show ?case
    using wf_idAt [OF assms(1)]
    by (cases c) (auto simp: stepAt_def callAt_def split_beta intro!: bexI)
qed simp

lemma stack_config:
  assumes "wf_entries n es" "stack_ok model n es h1 cs h s"
  shows "(stackIds es cs, s) \<in> configs model n es"
  using stackIds_bound [OF assms] stack_depth [OF assms] stack_state [OF assms] by (auto simp: configs_def)

lemma stack_good:
  assumes "wf_entries n es" "start_store es h1" "stack_ok model n es h1 cs h s"
  shows "good_store es h1 (stackIds es cs) h"
  using assms(3)
proof (induction cs arbitrary: h s)
  case Nil
  then show ?case using assms(2) by (simp add: good_store_def start_store_def same_data_def)
next
  case (Cons c cs)
  obtain a s0 where c: "c = (a, s0)" by (cases c)
  with Cons obtain h0 where h0: "stack_ok model n es h1 cs h0 s0" "lift h0 (Some a) = Inr h"
    and a: "callAt es a" "idAt es a \<notin> stackIds es cs" by auto
  from good_store_lift [OF assms(1,2) Cons.IH [OF h0(1)] a] h0(2) c show ?case by auto
qed

lemma stackConfigs_subset: "(T, t) \<in> stackConfigs es cs s \<Longrightarrow> T \<subseteq> stackIds es cs"
proof (induction cs arbitrary: s)
  case (Cons c cs)
  obtain a s0 where c: "c = (a, s0)" by (cases c)
  with Cons.prems consider "T = stackIds es (c # cs)" | "(T, t) \<in> stackConfigs es cs s0" by auto
  then show ?case using Cons.IH [of s0] c by cases auto
qed simp

text \<open>A linearization of what remains extends to one of the whole history.\<close>

lemma tried_candidate:
  "tried model n es S s a \<Longrightarrow> callAt es a \<Longrightarrow> idAt es a \<notin> S \<Longrightarrow> candidate es S a"
  by (auto simp: tried_def candidate_def)

lemma stack_solvable:
  assumes wf: "wf_entries n es" and "stack_ok model n es h1 cs h s" "solvable model n es (stackIds es cs) s"
  shows "solvable model n es {} (Init model)"
  using assms(2,3)
proof (induction cs arbitrary: h s)
  case (Cons c cs)
  obtain a s0 where c: "c = (a, s0)" by (cases c)
  with Cons.prems obtain h0 where h0: "stack_ok model n es h1 cs h0 s0"
    and a: "callAt es a" "idAt es a \<notin> stackIds es cs" "tried model n es (stackIds es cs) s0 a"
      "stepAt model es s0 a = Inr (True, s)" by auto
  have "stackIds es cs \<subseteq> {..<n}" using stackIds_bound [OF wf h0] by blast
  then have "solvable model n es (stackIds es cs) s0"
    unfolding solvable_unfold [OF wf \<open>stackIds es cs \<subseteq> {..<n}\<close>, of model s0]
    using tried_candidate [OF a(3,1,2)] a(4) Cons.prems(2) c by auto
  with Cons.IH [OF h0] show ?case by blast
qed simp

definition cache_ok :: "('v, 's) Model \<Rightarrow> nat \<Rightarrow> 'v entry list \<Rightarrow> (nat \<times> 's) list \<Rightarrow> 's
    \<Rightarrow> (64 word \<Rightarrow> 's cacheEntry list) \<Rightarrow> bool" where
  "cache_ok model n es cs s tab \<longleftrightarrow>
     (\<forall>h. \<forall>c \<in> set (tab h). holds_bits n (clinearized c) \<and> bs_hash (clinearized c) = h \<and>
        (positions (clinearized c), cstate c) \<in> configs model n es \<and>
        ((positions (clinearized c), cstate c) \<in> stackConfigs es cs s \<or>
         \<not> solvable model n es (positions (clinearized c)) (cstate c)))"

definition cached :: "(64 word \<Rightarrow> 's cacheEntry list) \<Rightarrow> (nat set \<times> 's) set" where
  "cached tab = {(positions (clinearized c), cstate c) | c h. c \<in> set (tab h)}"

lemma cache_ok_weaken:
  assumes "cache_ok model n es cs s tab"
    and "\<And>T t. (T, t) \<in> stackConfigs es cs s \<Longrightarrow> (T, t) \<in> stackConfigs es cs' s' \<or> \<not> solvable model n es T t"
  shows "cache_ok model n es cs' s' tab"
  unfolding cache_ok_def
proof (intro allI ballI)
  fix h c assume "c \<in> set (tab h)"
  with assms(1) have c: "holds_bits n (clinearized c) \<and> bs_hash (clinearized c) = h \<and>
      (positions (clinearized c), cstate c) \<in> configs model n es \<and>
      ((positions (clinearized c), cstate c) \<in> stackConfigs es cs s \<or>
       \<not> solvable model n es (positions (clinearized c)) (cstate c))"
    unfolding cache_ok_def by simp
  with assms(2) [of "positions (clinearized c)" "cstate c"]
  show "holds_bits n (clinearized c) \<and> bs_hash (clinearized c) = h \<and>
      (positions (clinearized c), cstate c) \<in> configs model n es \<and>
      ((positions (clinearized c), cstate c) \<in> stackConfigs es cs' s' \<or>
       \<not> solvable model n es (positions (clinearized c)) (cstate c))" by metis
qed

lemma cached_configs: "cache_ok model n es cs s tab \<Longrightarrow> cached tab \<subseteq> configs model n es"
  by (auto simp: cache_ok_def cached_def)

lemma cached_add: "cached (tab(h := tab h @ [c])) = insert (positions (clinearized c), cstate c) (cached tab)"
  by (auto simp: cached_def split: if_splits)

lemma cacheScan_eq:
  assumes "equal = Some eq" "\<And>x y. eq x y \<longleftrightarrow> x = y"
  shows "cacheScan equal bucket c = Inr (c \<in> set bucket)"
  using assms by (induction bucket) (auto simp: bs_equals_iff)

lemma cacheContains_iff:
  assumes "Equal model = Some eq" "\<And>x y. eq x y \<longleftrightarrow> x = y"
    and tab: "cache_ok model n es cs s tab" and c: "holds_bits n (clinearized c)"
  shows "cacheContains model tab c = Inr ((positions (clinearized c), cstate c) \<in> cached tab)"
proof -
  have "c \<in> set (tab (bs_hash (clinearized c))) \<longleftrightarrow> (positions (clinearized c), cstate c) \<in> cached tab"
  proof
    assume "(positions (clinearized c), cstate c) \<in> cached tab"
    then obtain d h where d: "d \<in> set (tab h)" "positions (clinearized d) = positions (clinearized c)" "cstate d = cstate c"
      by (auto simp: cached_def)
    with tab have "holds_bits n (clinearized d)" "bs_hash (clinearized d) = h" by (auto simp: cache_ok_def)
    moreover from this have "clinearized d = clinearized c"
      using bits.same_iff [OF _ c] d by (simp add: bs_equals_iff)
    ultimately show "c \<in> set (tab (bs_hash (clinearized c)))" using d by (cases c, cases d) auto
  qed (auto simp: cached_def)
  then show ?thesis unfolding cacheContains_def cacheScan_eq [OF assms(1,2)] by simp
qed

subsection \<open>The loop invariant\<close>

definition checkable :: "('v, 's) Model \<Rightarrow> nat \<Rightarrow> 'v entry list \<Rightarrow> bool" where
  "checkable model n es \<longleftrightarrow> wf_entries n es \<and>
     (\<exists>eq. Equal model = Some eq \<and> (\<forall>x y. eq x y \<longleftrightarrow> x = y)) \<and>
     (\<forall>s. \<forall>i < n. isOk (Step model s (fst (opOf es i)) (snd (opOf es i))))"

definition frameEntry :: "nat \<times> 's \<Rightarrow> 's callsEntry" where
  "frameEntry f = \<lparr>centry = Some (fst f), callState = snd f\<rparr>"

definition search_inv :: "('v, 's) Model \<Rightarrow> nat \<Rightarrow> 'v entry list \<Rightarrow> 'v store \<Rightarrow> (nat \<times> 's) list \<Rightarrow> ('v, 's) Search \<Rightarrow> bool" where
  "search_inv model n es h1 cs S \<longleftrightarrow>
     calls S = rev (map frameEntry cs) \<and> stack_ok model n es h1 cs (heap S) (state S) \<and>
     holds_bits n (linearized S) \<and> positions (linearized S) = stackIds es cs \<and>
     headEntry S = Some (length es) \<and> cache_ok model n es cs (state S) (cache S) \<and>
     (addrs es (stackIds es cs) = [] \<or>
      (\<exists>a < length es. entryp S = Some a \<and> idAt es a \<notin> stackIds es cs \<and>
         tried model n es (stackIds es cs) (state S) a))"

lemma stepAt_ok:
  assumes "checkable model n es" "a < length es"
  obtains ok s' where "stepAt model es s a = Inr (ok, s')"
proof -
  have "isOk (Step model s (fst (opOf es (idAt es a))) (snd (opOf es (idAt es a))))"
    using assms wf_idAt [of n es a] by (auto simp: checkable_def)
  then show ?thesis using that by (auto simp: stepAt_def split_beta isOk_iff)
qed

text \<open>All operations are linearized.\<close>

lemma turn_done:
  assumes "checkable model n es" "start_store es h1" "search_inv model n es h1 cs S"
    and "addrs es (stackIds es cs) = []"
  shows "checkBody model kill S = Inr (Finished True)" "solvable model n es {} (Init model)"
proof -
  have wf: "wf_entries n es" using assms(1) by (simp add: checkable_def)
  have st: "stack_ok model n es h1 cs (heap S) (state S)" using assms(3) by (simp add: search_inv_def)
  note good = stack_good [OF wf assms(2) st]
  show "checkBody model kill S = Inr (Finished True)"
    using good_store_head [OF good] assms(3,4) by (simp add: checkBody_def search_inv_def)
  have "i \<in> stackIds es cs" if "i < n" for i
  proof -
    from wf_address [OF wf that, of callEntry] obtain a where "a < length es" "idAt es a = i"
      by (metis idAt_def label_def prod.inject)
    with assms(4) mem_addrs [of a es "stackIds es cs"] show ?thesis by auto
  qed
  then have "stackIds es cs = {..<n}" using stackIds_bound [OF wf st] by auto
  then have "solvable model n es (stackIds es cs) (state S)"
    by (simp add: solvable_unfold [OF wf])
  with stack_solvable [OF wf st] show "solvable model n es {} (Init model)" by blast
qed

lemma running_entry:
  assumes "checkable model n es" "start_store es h1" "search_inv model n es h1 cs S"
    and "addrs es (stackIds es cs) \<noteq> []"
  obtains a b where "a < length es" "entryp S = Some a" "idAt es a \<notin> stackIds es cs"
    "tried model n es (stackIds es cs) (state S) a" "load (heap S) (headEntry S) = Inr (heap S ! length es)"
    "nnext (heap S ! length es) = Some b" "good_store es h1 (stackIds es cs) (heap S)" "same_data h1 (heap S)"
proof -
  have st: "stack_ok model n es h1 cs (heap S) (state S)" and wf: "wf_entries n es"
    using assms(1,3) by (simp_all add: search_inv_def checkable_def)
  note good = stack_good [OF wf assms(2) st]
  from assms(4) obtain b bs where "addrs es (stackIds es cs) = b # bs" by (cases "addrs es (stackIds es cs)") auto
  with good_store_head [OF good] good assms(3,4) that show ?thesis
    by (auto simp: search_inv_def good_store_def)
qed

text \<open>The current entry does not lead to a linearization: go on to the next one.\<close>

lemma move_on:
  assumes ch: "checkable model n es" and st: "start_store es h1" and inv: "search_inv model n es h1 cs S"
    and a: "callAt es a" "idAt es a \<notin> stackIds es cs" "tried model n es (stackIds es cs) (state S) a"
    and fl: "fails model n es (stackIds es cs) (state S) a"
  shows "\<exists>b < a. nnext (heap S ! a) = Some b \<and> search_inv model n es h1 cs (S\<lparr>turn := t, entryp := Some b\<rparr>)"
proof -
  have wf: "wf_entries n es" using ch by (simp add: checkable_def)
  have len: "a < length es" using a by (simp add: callAt_def)
  have so: "stack_ok model n es h1 cs (heap S) (state S)" using inv by (simp add: search_inv_def)
  from last_is_return [OF wf a(1,2)] good_store_next [OF stack_good [OF wf st so] len a(2)]
  obtain b where b: "nnext (heap S ! a) = Some b" "b < a" "idAt es b \<notin> stackIds es cs"
    "\<forall>c. b < c \<and> c < a \<longrightarrow> idAt es c \<in> stackIds es cs" by auto
  have "tried model n es (stackIds es cs) (state S) b"
    using tried_next [OF a(3,1) fl b(4)] .
  with b inv len show ?thesis by (auto simp: search_inv_def)
qed

lemma cached_fails:
  assumes "cache_ok model n es cs s tab" "idAt es a \<notin> stackIds es cs"
    and "stepAt model es s a = Inr (True, s')" "(insert (idAt es a) (stackIds es cs), s') \<in> cached tab"
  shows "fails model n es (stackIds es cs) s a"
proof -
  let ?c = "(insert (idAt es a) (stackIds es cs), s')"
  have "?c \<in> stackConfigs es cs s \<or> \<not> solvable model n es (insert (idAt es a) (stackIds es cs)) s'"
  proof -
    from assms(4) obtain c h where c: "c \<in> set (tab h)" "insert (idAt es a) (stackIds es cs) = positions (clinearized c)"
      "s' = cstate c" by (auto simp: cached_def)
    from assms(1) have "\<forall>c \<in> set (tab h). (positions (clinearized c), cstate c) \<in> stackConfigs es cs s \<or>
        \<not> solvable model n es (positions (clinearized c)) (cstate c)"
      by (simp add: cache_ok_def)
    from bspec [OF this c(1)] show ?thesis by (simp only: c(2,3))
  qed
  moreover have "?c \<notin> stackConfigs es cs s"
    using stackConfigs_subset [of "fst ?c" s' es cs s] assms(2) by auto
  ultimately show ?thesis using assms(3) by (simp add: fails_def)
qed

text \<open>At the start of a level nothing has been passed over.\<close>

lemma first_tried:
  "addrs es S = [] \<or> (\<exists>b < length es. first (addrs es S) = Some b \<and> idAt es b \<notin> S \<and> tried model n es S s b)"
proof (cases "addrs es S")
  case (Cons b bs)
  have "b < length es \<and> idAt es b \<notin> S" unfolding mem_addrs [symmetric] Cons by simp
  moreover have "c \<le> b" if "c \<in> set (addrs es S)" for c using addrs_decreasing [of es S] that Cons by auto
  then have "tried model n es S s b" unfolding tried_def by (metis mem_addrs not_less)
  ultimately show ?thesis using Cons by auto
qed simp

text \<open>One turn on a call: it is linearized, or the search moves on.\<close>

lemma turn_call:
  assumes ch: "checkable model n es" and st: "start_store es h1" and inv: "search_inv model n es h1 cs S"
    and a: "entryp S = Some a" "callAt es a" "idAt es a \<notin> stackIds es cs" "tried model n es (stackIds es cs) (state S) a"
    and nokill: "\<not> kill (turn S)"
  shows "(\<exists>b < a. checkBody model kill S = Inr (Continue (S\<lparr>turn := turn S + 1, entryp := Some b\<rparr>)) \<and>
            search_inv model n es h1 cs (S\<lparr>turn := turn S + 1, entryp := Some b\<rparr>)) \<or>
    (\<exists>S' s'. checkBody model kill S = Inr (Continue S') \<and> search_inv model n es h1 ((a, state S) # cs) S' \<and>
        (insert (idAt es a) (stackIds es cs), s') \<in> configs model n es - cached (cache S) \<and>
        cached (cache S') = insert (insert (idAt es a) (stackIds es cs), s') (cached (cache S)))"
proof -
  let ?S = "stackIds es cs" and ?i = "idAt es a"
  have wf: "wf_entries n es" and len: "a < length es" using ch a by (auto simp: checkable_def callAt_def)
  have so: "stack_ok model n es h1 cs (heap S) (state S)" and bits: "holds_bits n (linearized S)"
    and pos: "positions (linearized S) = ?S" and tab: "cache_ok model n es cs (state S) (cache S)"
    and head: "headEntry S = Some (length es)" using inv by (simp_all add: search_inv_def)
  note good = stack_good [OF wf st so]
  then have sd: "same_data h1 (heap S)" by (simp add: good_store_def)
  have ne: "addrs es ?S \<noteq> []" using mem_addrs [of a es ?S] len a by fastforce
  then obtain b0 where hd: "length es < length (heap S)" "nnext (heap S ! length es) = Some b0"
    using good_store_head [OF good] by (cases "addrs es ?S") auto
  from node_at [OF wf st sd len] a(2) obtain m where node: "a < length (heap S)" "nid (heap S ! a) = ?i"
    "nmatch (heap S ! a) = Some m" "m < a" "nvalue (heap S ! a) = Some (fst (opOf es ?i))"
    "nvalue (heap S ! m) = Some (snd (opOf es ?i))" by metis
  from stepAt_ok [OF ch len] obtain ok s' where step: "stepAt model es (state S) a = Inr (ok, s')" .
  obtain lin where lin: "bs_set (linearized S) ?i = Inr lin" "holds_bits n lin" "positions lin = insert ?i ?S"
    using bits.add_ok [OF bits wf_idAt [OF wf len]] pos by auto
  from ch obtain eq where eq: "Equal model = Some eq" "\<And>x y. eq x y \<longleftrightarrow> x = y" by (auto simp: checkable_def)
  let ?c = "\<lparr>clinearized = lin, cstate = s'\<rparr>"
  have cont: "cacheContains model (cache S) ?c = Inr ((insert ?i ?S, s') \<in> cached (cache S))"
    using cacheContains_iff [OF eq tab, of ?c] lin by simp
  have "m < length (heap S)" using node by simp
  note eval = this checkBody_def hd head a(1) node nokill step stepNodes_stepAt lin(1) cont Let_def
  show ?thesis
  proof (cases "ok \<and> (insert ?i ?S, s') \<notin> cached (cache S)")
    case False
    then have "fails model n es ?S (state S) a"
      using step cached_fails [OF tab a(3), of s'] by (auto simp: fails_def)
    from move_on [OF ch st inv a(2-4) this, of "turn S + 1"] obtain b where b: "b < a" "nnext (heap S ! a) = Some b"
      "search_inv model n es h1 cs (S\<lparr>turn := turn S + 1, entryp := Some b\<rparr>)" by auto
    moreover have "checkBody model kill S = Inr (Continue (S\<lparr>turn := turn S + 1, entryp := Some b\<rparr>))"
      using False b(2) by (auto simp: eval)
    ultimately show ?thesis by blast
  next
    case True
    from good_store_lift [OF wf st good a(2,3)] obtain k where k: "lift (heap S) (Some a) = Inr k"
      "unlift k (Some a) = Inr (heap S)" "good_store es h1 (insert ?i ?S) k" .
    have klen: "length es < length k" and knext: "nnext (k ! length es) = first (addrs es (insert ?i ?S))"
      using good_store_head [OF k(3)] by auto
    let ?S' = "S\<lparr>turn := turn S + 1, cache := (cache S)(bs_hash lin := cache S (bs_hash lin) @ [?c]),
        calls := calls S @ [\<lparr>centry = Some a, callState = state S\<rparr>], state := s', linearized := lin, heap := k,
        entryp := first (addrs es (insert ?i ?S))\<rparr>"
    have body: "checkBody model kill S = Inr (Continue ?S')"
      using True by (simp add: eval k(1) klen knext)
    have so': "stack_ok model n es h1 ((a, state S) # cs) k s'"
      using so a k step True by auto
    have conf: "(insert ?i ?S, s') \<in> configs model n es" using stack_config [OF wf so'] by simp
    have tab': "cache_ok model n es ((a, state S) # cs) s' (cache ?S')"
      using tab lin conf by (auto simp: cache_ok_def)
    note entry = first_tried [of es "insert ?i ?S" model n s']
    have "search_inv model n es h1 ((a, state S) # cs) ?S'"
      using inv so' lin tab' entry head by (simp add: search_inv_def frameEntry_def)
    moreover have "cached (cache ?S') = insert (insert ?i ?S, s') (cached (cache S))"
      using lin(3) by (simp add: cached_add)
    ultimately show ?thesis using body conf True by blast
  qed
qed

text \<open>One turn on a return: backtrack, or give up at the bottom of the stack.\<close>

lemma turn_return:
  assumes ch: "checkable model n es" and st: "start_store es h1" and inv: "search_inv model n es h1 cs S"
    and a: "a < length es" "entryp S = Some a" "\<not> callAt es a" "idAt es a \<notin> stackIds es cs"
      "tried model n es (stackIds es cs) (state S) a"
    and nokill: "\<not> kill (turn S)"
  shows "\<not> solvable model n es (stackIds es cs) (state S)"
    and "cs = [] \<Longrightarrow> checkBody model kill S = Inr (Finished False)"
    and "cs = (c, s0) # cs' \<Longrightarrow> \<exists>S'. checkBody model kill S = Inr (Continue S') \<and>
           search_inv model n es h1 cs' S' \<and> cache S' = cache S"
proof -
  have wf: "wf_entries n es" using ch by (auto simp: checkable_def)
  have so: "stack_ok model n es h1 cs (heap S) (state S)" and bits: "holds_bits n (linearized S)"
    and pos: "positions (linearized S) = stackIds es cs" and tab: "cache_ok model n es cs (state S) (cache S)"
    and head: "headEntry S = Some (length es)" and cl: "calls S = rev (map frameEntry cs)"
    using inv by (simp_all add: search_inv_def)
  show dead: "\<not> solvable model n es (stackIds es cs) (state S)"
    using exhausted [OF wf _ a(1,4,3,5)] stackIds_bound [OF wf so] by blast
  note good = stack_good [OF wf st so]
  then have sd: "same_data h1 (heap S)" by (simp add: good_store_def)
  have "addrs es (stackIds es cs) \<noteq> []" using mem_addrs [of a es "stackIds es cs"] a by fastforce
  then obtain b0 where hd: "length es < length (heap S)" "nnext (heap S ! length es) = Some b0"
    using good_store_head [OF good] by (cases "addrs es (stackIds es cs)") auto
  note node = node_at(1-3) [OF wf st sd a(1)]
  note eval = checkBody_def hd head a(2) node(1) node(3) [OF a(3)] nokill Let_def cl
  show "checkBody model kill S = Inr (Finished False)" if "cs = []"
    using that by (simp add: eval)
  assume cs: "cs = (c, s0) # cs'"
  with so obtain h0 where c: "callAt es c" "idAt es c \<notin> stackIds es cs'" "tried model n es (stackIds es cs') s0 c"
    "stepAt model es s0 c = Inr (True, state S)" and h0: "stack_ok model n es h1 cs' h0 s0" "unlift (heap S) (Some c) = Inr h0"
    by auto
  have clen: "c < length es" using c by (simp add: callAt_def)
  note cnode = node_at(1-2) [OF wf st sd clen]
  obtain lin where lin: "bs_clear (linearized S) (idAt es c) = Inr lin" "holds_bits n lin" "positions lin = stackIds es cs'"
    using bits.remove_ok [OF bits wf_idAt [OF wf clen]] pos c(2) cs by auto
  have good0: "good_store es h1 (stackIds es cs') h0" by (rule stack_good [OF wf st h0(1)])
  have h0len: "c < length h0" using good_store_head(1) [OF good0] clen by simp
  have fl: "fails model n es (stackIds es cs') s0 c" using dead c(4) cs by (auto simp: fails_def)
  let ?S0 = "S\<lparr>state := s0, linearized := lin, calls := rev (map frameEntry cs'), heap := h0, entryp := Some c\<rparr>"
  have tab0: "cache_ok model n es cs' s0 (cache S)"
    using dead cs by (intro cache_ok_weaken [OF tab]) auto
  have inv0: "search_inv model n es h1 cs' ?S0"
    using h0 lin head tab0 clen c by (simp add: search_inv_def)
  from move_on [OF ch st inv0 c(1,2), of "turn S + 1"] c(3) fl obtain b where
    b: "nnext (h0 ! c) = Some b" "search_inv model n es h1 cs' (?S0\<lparr>turn := turn S + 1, entryp := Some b\<rparr>)" by auto
  moreover have "checkBody model kill S = Inr (Continue (?S0\<lparr>turn := turn S + 1, entryp := Some b\<rparr>))"
    using b(1) by (simp add: eval cs frameEntry_def cnode lin(1) h0(2) h0len)
  ultimately show "\<exists>S'. checkBody model kill S = Inr (Continue S') \<and>
           search_inv model n es h1 cs' S' \<and> cache S' = cache S" by force
qed

subsection \<open>The whole loop\<close>

definition loop_ok :: "('v, 's) Model \<Rightarrow> (nat \<Rightarrow> bool) \<Rightarrow> nat \<Rightarrow> 'v entry list \<Rightarrow> 'v store \<Rightarrow> ('v, 's) outcome go \<Rightarrow> bool" where
  "loop_ok model kill n es h1 r \<longleftrightarrow>
     (case r of Inl _ \<Rightarrow> False
      | Inr (Continue S) \<Rightarrow> \<exists>cs. search_inv model n es h1 cs S
      | Inr (Finished b) \<Rightarrow> (b \<longrightarrow> solvable model n es {} (Init model)) \<and>
          (\<not> b \<longrightarrow> \<not> solvable model n es {} (Init model) \<or> (\<exists>t. kill t)))"

definition loop_measure :: "('v, 's) Model \<Rightarrow> nat \<Rightarrow> 'v entry list \<Rightarrow> ('v, 's) outcome go \<Rightarrow> nat \<times> nat \<times> nat \<times> nat" where
  "loop_measure model n es r =
     (case r of Inr (Continue S) \<Rightarrow>
         (1, card (configs model n es - cached (cache S)), length (calls S), case entryp S of None \<Rightarrow> 0 | Some a \<Rightarrow> a)
      | _ \<Rightarrow> (0, 0, 0, 0))"

definition loop_order :: "((nat \<times> nat \<times> nat \<times> nat) \<times> (nat \<times> nat \<times> nat \<times> nat)) set" where
  "loop_order = less_than <*lex*> less_than <*lex*> less_than <*lex*> less_than"

lemma wf_loop_order: "wf loop_order"
  by (simp add: loop_order_def wf_lex_prod)

lemma loop_turn:
  assumes ch: "checkable model n es" and st: "start_store es h1" and inv: "search_inv model n es h1 cs S"
  shows "loop_ok model kill n es h1 (checkBody model kill S) \<and>
    (loop_measure model n es (checkBody model kill S), loop_measure model n es (Inr (Continue S))) \<in> loop_order"
proof (cases "addrs es (stackIds es cs) = []")
  case True
  from turn_done [OF ch st inv True] show ?thesis
    by (simp add: loop_ok_def loop_measure_def loop_order_def)
next
  case False
  from running_entry [OF ch st inv False] obtain a b where a: "a < length es" "entryp S = Some a"
    "idAt es a \<notin> stackIds es cs" "tried model n es (stackIds es cs) (state S) a"
    and hd: "load (heap S) (headEntry S) = Inr (heap S ! length es)" "nnext (heap S ! length es) = Some b" by metis
  show ?thesis
  proof (cases "kill (turn S)")
    case True
    then have "checkBody model kill S = Inr (Finished False)" using hd by (simp add: checkBody_def)
    with True show ?thesis by (auto simp: loop_ok_def loop_measure_def loop_order_def)
  next
    case nokill: False
    show ?thesis
    proof (cases "callAt es a")
      case True
      from turn_call [where kill = kill, OF ch st inv a(2) True a(3,4) nokill] show ?thesis
      proof (elim disjE exE conjE)
        fix b assume "b < a" "checkBody model kill S = Inr (Continue (S\<lparr>turn := turn S + 1, entryp := Some b\<rparr>))"
          "search_inv model n es h1 cs (S\<lparr>turn := turn S + 1, entryp := Some b\<rparr>)"
        then show ?thesis using a(2) by (auto simp: loop_ok_def loop_measure_def loop_order_def)
      next
        fix S' s'
        assume r: "checkBody model kill S = Inr (Continue S')" "search_inv model n es h1 ((a, state S) # cs) S'"
          "(insert (idAt es a) (stackIds es cs), s') \<in> configs model n es - cached (cache S)"
          "cached (cache S') = insert (insert (idAt es a) (stackIds es cs), s') (cached (cache S))"
        have "configs model n es - cached (cache S') \<subset> configs model n es - cached (cache S)" using r by auto
        then have "card (configs model n es - cached (cache S')) < card (configs model n es - cached (cache S))"
          by (intro psubset_card_mono finite_Diff finite_configs)
        with r show ?thesis by (auto simp: loop_ok_def loop_measure_def loop_order_def)
      qed
    next
      case ret: False
      note t = turn_return [where kill = kill, OF ch st inv a(1,2) ret a(3,4) nokill]
      show ?thesis
      proof (cases cs)
        case Nil
        have "state S = Init model" using inv Nil by (simp add: search_inv_def)
        with t(1,2) Nil show ?thesis by (simp add: loop_ok_def loop_measure_def loop_order_def)
      next
        case (Cons c cs')
        then obtain c0 s0 where "cs = (c0, s0) # cs'" by (cases c) auto
        from t(3) [OF this] obtain S' where "checkBody model kill S = Inr (Continue S')"
          "search_inv model n es h1 cs' S'" "cache S' = cache S" by blast
        moreover have "length (calls S') < length (calls S)" using calculation inv Cons by (simp add: search_inv_def)
        ultimately show ?thesis by (auto simp: loop_ok_def loop_measure_def loop_order_def)
      qed
    qed
  qed
qed

lemma start_of_search:
  assumes wf: "wf_entries n es"
  obtains h h1 where "makeLinkedEntries es = Inr (h, rootOf (length es))" "length_nodes h (rootOf (length es)) = Some (2 * n)"
    "insertBefore (h @ [\<lparr>nvalue = None, nmatch = None, nid = 2 ^ 64 - 1, nnext = None, nprev = None\<rparr>])
       (Some (length h)) (rootOf (length es)) = Inr (h1, Some (length es))" "start_store es h1"
proof -
  let ?m = "length es"
  have "distinct (map label es)" using wf by (simp add: wf_entries_def)
  from makeLinkedEntries_linked [OF this] obtain h where h: "makeLinkedEntries es = Inr (h, rootOf ?m)"
    "linked (rev es) ?m h" .
  have root: "first (rev [0..<?m]) = rootOf ?m" by (cases ?m) (simp_all add: rootOf_def)
  have len: "length_nodes h (rootOf ?m) = Some (2 * n)"
    using length_nodes_seg [of h None "rev [0..<?m]"] h(2) root wf_entries_length [OF wf] by (simp add: linked_def)
  from insertBefore_root [OF h(2), of "\<lparr>nvalue = None, nmatch = None, nid = 2 ^ 64 - 1, nnext = None, nprev = None\<rparr>"]
  obtain h1 where h1: "insertBefore (h @ [\<lparr>nvalue = None, nmatch = None, nid = 2 ^ 64 - 1, nnext = None, nprev = None\<rparr>])
       (Some ?m) (rootOf ?m) = Inr (h1, Some ?m)" "length h1 = Suc ?m" "seg h1 None (rev [0..<Suc ?m]) None"
    "\<forall>a < ?m. nvalue (h1 ! a) = nvalue (h ! a) \<and> nmatch (h1 ! a) = nmatch (h ! a) \<and> nid (h1 ! a) = nid (h ! a)" by auto
  have hlen: "length h = ?m" using h(2) by (simp add: linked_def)
  have "start_store es h1"
    using h1 h(2) by (simp add: start_store_def linked_def node_of_def addrs_def)
  with that h(1) len h1(1) hlen show ?thesis by simp
qed

lemma first_search_inv:
  assumes "start_store es h1"
  shows "search_inv model n es h1 [] \<lparr>heap = h1, linearized = newBitset n, cache = (\<lambda>_. []), calls = [],
    state = Init model, headEntry = Some (length es), entryp = rootOf (length es), turn = 0\<rparr>"
  using bits.room_empty
  by (auto simp: search_inv_def cache_ok_def rootOf_def tried_def addrs_def)

lemma checkSingle_result:
  fixes model :: "('v, 's) Model"
  assumes ch: "checkable model n es"
  shows "\<exists>hr b. makeLinkedEntries es = Inr hr \<and> checkSingle model hr kill = Some (Inr b) \<and>
    (b \<longrightarrow> linearizable model n es) \<and> (\<not> b \<longrightarrow> \<not> linearizable model n es \<or> (\<exists>t. kill t))"
proof -
  have wf: "wf_entries n es" using ch by (simp add: checkable_def)
  from start_of_search [OF wf] obtain h h1 where s: "makeLinkedEntries es = Inr (h, rootOf (length es))"
    "length_nodes h (rootOf (length es)) = Some (2 * n)"
    "insertBefore (h @ [\<lparr>nvalue = None, nmatch = None, nid = 2 ^ 64 - 1, nnext = None, nprev = None\<rparr>])
       (Some (length h)) (rootOf (length es)) = Inr (h1, Some (length es))" and st: "start_store es h1" .
  define r0 :: "('v, 's) outcome go" where "r0 = Inr (Continue \<lparr>heap = h1, linearized = newBitset n, cache = (\<lambda>_. []), calls = [],
    state = Init model, headEntry = Some (length es), entryp = rootOf (length es), turn = 0\<rparr>)"
  have eq: "checkSingle model (h, rootOf (length es)) kill = map_option verdict (while_option running (checkTurn model kill) r0)"
    using s by (simp add: checkSingle_def Let_def r0_def)
  have ok0: "loop_ok model kill n es h1 r0"
    using first_search_inv [OF st] by (auto simp: loop_ok_def r0_def)
  have turn: "loop_ok model kill n es h1 (checkTurn model kill r) \<and>
      (loop_measure model n es (checkTurn model kill r), loop_measure model n es r) \<in> loop_order"
    if "loop_ok model kill n es h1 r" "running r" for r
  proof -
    from that(2) obtain S where r: "r = Inr (Continue S)"
      by (auto simp: running_def split: sum.splits outcome.splits)
    with that(1) obtain cs where "search_inv model n es h1 cs S" by (auto simp: loop_ok_def)
    from loop_turn [OF ch st this] r show ?thesis by (simp add: checkTurn_def)
  qed
  have "\<exists>r. while_option running (checkTurn model kill) r0 = Some r"
    by (rule wf_rel_while_option_Some [where P = "loop_ok model kill n es h1" and
          R = "inv_image loop_order (loop_measure model n es)"])
       (use turn ok0 in \<open>auto simp: wf_loop_order\<close>)
  then obtain r where r: "while_option running (checkTurn model kill) r0 = Some r" ..
  have "loop_ok model kill n es h1 r"
    using while_option_rule [where P = "loop_ok model kill n es h1", OF _ r] turn ok0 by blast
  moreover have "\<not> running r" using while_option_stop [OF r] .
  ultimately obtain b where b: "r = Inr (Finished b)" "b \<longrightarrow> solvable model n es {} (Init model)"
    "\<not> b \<longrightarrow> \<not> solvable model n es {} (Init model) \<or> (\<exists>t. kill t)"
    by (auto simp: loop_ok_def running_def split: sum.splits outcome.splits)
  moreover have "solvable model n es {} (Init model) \<longleftrightarrow> linearizable model n es"
    by (simp add: solvable_def linearizable_def)
  ultimately show ?thesis using s(1) eq r by (auto simp: verdict_def)
qed
end
