(* ===== verification/Lin_History.thy ===== *)
theory Lin_History
  imports Lin_Correct
begin

section \<open>Checking whole histories\<close>

text \<open>
  \<open>CheckOperations\<close>, \<open>CheckEvents\<close> and their versions with a timeout: the history is cut
  into partitions, one goroutine checks each of them, and the caller collects the results.
  The order in which results (and the timer) arrive is an argument. The theorems say that
  the verdict is linearizability of every partition, that a negative verdict is right even
  when the timer fires, and that the key/value model cuts a history by key.
\<close>

subsection \<open>Collecting the results\<close>

text \<open>
  The receive loop of \<open>CheckOperationsTimeout\<close> and \<open>CheckEventsTimeout\<close>. \<open>arrivals\<close> is what the
  \<open>select\<close> statement sees, in order: \<open>Some i\<close> is the result of the goroutine for partition
  \<open>i\<close>, \<open>None\<close> the timer. With nothing left to arrive the loop waits for ever.
\<close>

fun collectResults :: "(nat \<Rightarrow> bool go option) \<Rightarrow> nat \<Rightarrow> nat \<Rightarrow> nat option list \<Rightarrow> bool go option" where
  "collectResults res tot cnt [] = Some (Inl Blocked)"
| "collectResults res tot cnt (None # arrivals) = Some (Inr True)"
| "collectResults res tot cnt (Some i # arrivals) =
     (case res i of None \<Rightarrow> None
      | Some (Inl e) \<Rightarrow> Some (Inl e)
      | Some (Inr result) \<Rightarrow>
          if \<not> result then Some (Inr False)
          else if tot \<le> cnt + 1 then Some (Inr True)
          else collectResults res tot (cnt + 1) arrivals)"

text \<open>
  The flag \<open>kill\<close> is stored only when the loop has ended, so every result that is
  received was computed with all its loads of the flag returning 0.
\<close>

definition runPartitions :: "('v, 's) Model \<Rightarrow> 'v entry list list \<Rightarrow> int \<Rightarrow> nat option list \<Rightarrow> bool go option" where
  "runPartitions model parts timeout arrivals =
     (case mapE makeLinkedEntries parts of Inl e \<Rightarrow> Some (Inl e)
      | Inr ls \<Rightarrow> collectResults (\<lambda>i. checkSingle model (ls ! i) (\<lambda>_. False)) (length parts) 0
          (if 0 < timeout then arrivals else filter (\<lambda>x. x \<noteq> None) arrivals))"

definition CheckOperationsTimeout :: "('v entry list \<Rightarrow> 'v entry list) \<Rightarrow> ('v, 's) Model \<Rightarrow> 'v Operation list
    \<Rightarrow> int \<Rightarrow> nat option list \<Rightarrow> bool go option" where
  "CheckOperationsTimeout sortSort model history timeout arrivals =
     (let model = fillDefault model in
      case Partition model of None \<Rightarrow> Some (Inl NilPointer)
      | Some part \<Rightarrow>
        (case part history of Inl e \<Rightarrow> Some (Inl e)
         | Inr partitions \<Rightarrow> runPartitions model (map (makeEntries sortSort) partitions) timeout arrivals))"

definition CheckOperations :: "('v entry list \<Rightarrow> 'v entry list) \<Rightarrow> ('v, 's) Model \<Rightarrow> 'v Operation list
    \<Rightarrow> nat option list \<Rightarrow> bool go option" where
  "CheckOperations sortSort model history arrivals = CheckOperationsTimeout sortSort model history 0 arrivals"

definition CheckEventsTimeout :: "('v, 's) Model \<Rightarrow> 'v Event list \<Rightarrow> int \<Rightarrow> nat option list \<Rightarrow> bool go option" where
  "CheckEventsTimeout model history timeout arrivals =
     (let model = fillDefault model in
      case PartitionEvent model of None \<Rightarrow> Some (Inl NilPointer)
      | Some part \<Rightarrow>
        (case part history of Inl e \<Rightarrow> Some (Inl e)
         | Inr partitions \<Rightarrow> runPartitions model (map (convertEntries \<circ> renumber) partitions) timeout arrivals))"

definition CheckEvents :: "('v, 's) Model \<Rightarrow> 'v Event list \<Rightarrow> nat option list \<Rightarrow> bool go option" where
  "CheckEvents model history arrivals = CheckEventsTimeout model history 0 arrivals"

lemma collectResults_all:
  assumes "\<And>i. i \<in> set order \<Longrightarrow> res i = Some (Inr (P i))" "tot = cnt + length order" "order \<noteq> []"
  shows "collectResults res tot cnt (map Some order) = Some (Inr (\<forall>i \<in> set order. P i))"
  using assms
proof (induction order arbitrary: cnt)
  case (Cons i order)
  show ?case
  proof (cases "order = []")
    case True
    with Cons.prems show ?thesis by simp
  next
    case False
    with Cons.IH [of "Suc cnt"] Cons.prems show ?thesis by simp
  qed
qed simp

lemma collectResults_false:
  "collectResults res tot cnt arrivals = Some (Inr False) \<Longrightarrow>
     \<exists>i. Some i \<in> set arrivals \<and> res i = Some (Inr False)"
proof (induction arrivals arbitrary: cnt)
  case (Cons x arrivals)
  show ?case
  proof (cases x)
    case (Some i)
    with Cons show ?thesis
      by (auto split: option.splits sum.splits if_splits)
  qed (use Cons in simp)
qed simp

lemma runPartitions_all:
  fixes model :: "('v, 's) Model"
  assumes "\<And>i. i < length parts \<Longrightarrow> checkable model (n i) (parts ! i)"
    and "distinct order" "set order = {..<length parts}" "parts \<noteq> []"
  shows "runPartitions model parts timeout (map Some order) =
    Some (Inr (\<forall>i < length parts. linearizable model (n i) (parts ! i)))"
proof -
  have "\<exists>hr. makeLinkedEntries (parts ! i) = Inr hr \<and>
      checkSingle model hr (\<lambda>_. False) = Some (Inr (linearizable model (n i) (parts ! i)))" if "i < length parts" for i
    using checkSingle_result [OF assms(1) [OF that], of "\<lambda>_. False"] by auto
  then obtain hr where hr: "\<And>i. i < length parts \<Longrightarrow> makeLinkedEntries (parts ! i) = Inr (hr i) \<and>
      checkSingle model (hr i) (\<lambda>_. False) = Some (Inr (linearizable model (n i) (parts ! i)))" by metis
  define g where "g es = projr (makeLinkedEntries es)" for es :: "'v entry list"
  have g: "mapE makeLinkedEntries parts = Inr (map g parts)"
    using hr by (intro mapE_Inr) (auto simp: g_def in_set_conv_nth)
  have len: "length order = length parts" using assms(2,3) distinct_card [of order] by simp
  have "collectResults (\<lambda>i. checkSingle model (map g parts ! i) (\<lambda>_. False)) (length parts) 0 (map Some order) =
      Some (Inr (\<forall>i \<in> set order. linearizable model (n i) (parts ! i)))"
    using hr assms(3,4) len by (intro collectResults_all) (auto simp: g_def)
  moreover have "filter (\<lambda>x. x \<noteq> None) (map Some order) = map Some order" by (induction order) simp_all
  ultimately show ?thesis using g assms(3) by (simp add: runPartitions_def Ball_def)
qed

subsection \<open>Histories of operations\<close>

text \<open>Linearizability of a history of operations, in the words of the definition: a total order
  that respects the real-time order and that the model accepts.\<close>

definition opsLinearizable :: "('v, 's) Model \<Rightarrow> 'v Operation list \<Rightarrow> bool" where
  "opsLinearizable model ops \<longleftrightarrow>
     (\<exists>ord. distinct ord \<and> set ord = {..<length ops} \<and>
        sorted_wrt (\<lambda>i j. \<not> Return (ops ! j) < Call (ops ! i)) ord \<and>
        runs model (Init model) (map (\<lambda>i. (Input (ops ! i), Output (ops ! i))) ord))"

definition no_ties :: "'v Operation list \<Rightarrow> bool" where
  "no_ties ops \<longleftrightarrow> (\<forall>x \<in> set ops. \<forall>y \<in> set ops. Return x \<noteq> Call y)"

lemma makeEntries_entry:
  assumes "sorts_by_time sortSort" "p < length (makeEntries sortSort ops)"
  shows "let e = makeEntries sortSort ops ! p in eid e < length ops \<and>
     etime e = (if kind e = callEntry then Call (ops ! eid e) else Return (ops ! eid e)) \<and>
     evalue e = (if kind e = callEntry then Input (ops ! eid e) else Output (ops ! eid e))"
proof -
  have "mset (makeEntries sortSort ops) = mset (operationEntries 0 ops)"
    using assms(1) by (simp add: makeEntries_def sorts_by_time_def)
  then have "makeEntries sortSort ops ! p \<in> set (operationEntries 0 ops)"
    using assms(2) by (metis mset_eq_setD nth_mem)
  from nth_operationEntries [OF this] show ?thesis by (simp add: Let_def)
qed

lemma makeEntries_returnsBefore:
  assumes so: "sorts_by_time sortSort" and wf: "wf_operations ops" and ties: "no_ties ops"
    and i: "i < length ops" and j: "j < length ops"
  shows "returnsBefore (makeEntries sortSort ops) j i \<longleftrightarrow> Return (ops ! j) < Call (ops ! i)"
proof -
  let ?es = "makeEntries sortSort ops"
  note entry = makeEntries_entry [OF so, unfolded Let_def]
  have sorted: "sorted_wrt (\<lambda>a b. \<not> byTimeLess b a) ?es"
    using so by (simp add: makeEntries_def sorts_by_time_def)
  have neq: "Return (ops ! j) \<noteq> Call (ops ! i)" using ties i j by (simp add: no_ties_def)
  obtain a b where "a < length ?es" "label (rev ?es ! a) = (returnEntry, j)"
    "b < length ?es" "label (rev ?es ! b) = (callEntry, i)"
    using wf_address [OF makeEntries_wf [OF so wf]] i j by metis
  then obtain p q where pq: "p < length ?es" "label (?es ! p) = (returnEntry, j)"
    "q < length ?es" "label (?es ! q) = (callEntry, i)"
    by (metis diff_Suc_less length_greater_0_conv length_rev list.size(3) not_less_zero rev_nth)
  have same: "p' = p" if "p' < length ?es" "label (?es ! p') = (returnEntry, j)" for p'
    using that pq makeEntries_wf [OF so wf] unfolding wf_entries_def distinct_conv_nth by (metis length_map nth_map)
  have same': "q' = q" if "q' < length ?es" "label (?es ! q') = (callEntry, i)" for q'
    using that pq makeEntries_wf [OF so wf] unfolding wf_entries_def distinct_conv_nth by (metis length_map nth_map)
  have t: "etime (?es ! p) = Return (ops ! j)" "etime (?es ! q) = Call (ops ! i)"
    using entry [OF pq(1)] entry [OF pq(3)] pq by (auto simp: label_def)
  have "p < q \<longleftrightarrow> Return (ops ! j) < Call (ops ! i)"
  proof
    assume "p < q"
    with sorted pq(3) have "\<not> etime (?es ! q) < etime (?es ! p)"
      by (auto simp: sorted_wrt_iff_nth_less byTimeLess_def)
    with t neq show "Return (ops ! j) < Call (ops ! i)" by simp
  next
    assume less: "Return (ops ! j) < Call (ops ! i)"
    then have "p \<noteq> q" using t by auto
    moreover have "\<not> q < p"
      using sorted_wrt_nth_less [OF sorted, of q p] pq(1) less t by (auto simp: byTimeLess_def)
    ultimately show "p < q" by simp
  qed
  moreover have "returnsBefore ?es j i \<longleftrightarrow> p < q"
    using pq same same' unfolding returnsBefore_def by (metis order.strict_trans)
  ultimately show ?thesis by simp
qed

lemma makeEntries_opOf:
  assumes so: "sorts_by_time sortSort" and wf: "wf_operations ops" and i: "i < length ops"
  shows "opOf (makeEntries sortSort ops) i = (Input (ops ! i), Output (ops ! i))"
proof -
  let ?es = "makeEntries sortSort ops"
  have "opValue ?es (k, i) = (if k = callEntry then Input (ops ! i) else Output (ops ! i))" for k
  proof -
    obtain a where a: "a < length ?es" "label (rev ?es ! a) = (k, i)"
      using wf_address [OF makeEntries_wf [OF so wf] i] by metis
    have "opValue ?es (label (rev ?es ! a)) = evalue (rev ?es ! a)"
      by (rule opValue_at [OF makeEntries_wf [OF so wf] a(1)])
    moreover have "rev ?es ! a = ?es ! (length ?es - Suc a)" using a by (simp add: rev_nth)
    moreover have "length ?es - Suc a < length ?es" using a by simp
    ultimately show ?thesis
      using makeEntries_entry [OF so, of "length ?es - Suc a" ops] a by (auto simp: Let_def label_def)
  qed
  then show ?thesis by (simp add: opOf_def)
qed

lemma makeEntries_linearizable:
  assumes so: "sorts_by_time sortSort" and wf: "wf_operations ops" and ties: "no_ties ops"
  shows "linearizable model (length ops) (makeEntries sortSort ops) \<longleftrightarrow> opsLinearizable model ops"
proof -
  have "linearizes model (makeEntries sortSort ops) {..<length ops} (Init model) ord \<longleftrightarrow>
      distinct ord \<and> set ord = {..<length ops} \<and> sorted_wrt (\<lambda>i j. \<not> Return (ops ! j) < Call (ops ! i)) ord \<and>
        runs model (Init model) (map (\<lambda>i. (Input (ops ! i), Output (ops ! i))) ord)" for ord
  proof (cases "set ord = {..<length ops}")
    case True
    then have "sorted_wrt (\<lambda>i j. \<not> returnsBefore (makeEntries sortSort ops) j i) ord \<longleftrightarrow>
        sorted_wrt (\<lambda>i j. \<not> Return (ops ! j) < Call (ops ! i)) ord"
      using makeEntries_returnsBefore [OF so wf ties]
      by (intro iffI; elim sorted_wrt_mono_rel [rotated]) auto
    moreover have "map (opOf (makeEntries sortSort ops)) ord = map (\<lambda>i. (Input (ops ! i), Output (ops ! i))) ord"
      using True makeEntries_opOf [OF so wf] by auto
    ultimately show ?thesis using True unfolding linearizes_def by metis
  qed (simp add: linearizes_def)
  then show ?thesis by (simp add: linearizable_def opsLinearizable_def)
qed

lemma checkable_operations:
  assumes "sorts_by_time sortSort" "wf_operations ops"
    and "Equal model = Some eq" "\<And>x y. eq x y \<longleftrightarrow> x = y"
    and "\<And>s x. x \<in> set ops \<Longrightarrow> isOk (Step model s (Input x) (Output x))"
  shows "checkable model (length ops) (makeEntries sortSort ops)"
  using assms makeEntries_wf [OF assms(1,2)]
  by (auto simp: checkable_def makeEntries_opOf [OF assms(1,2)])

lemma fillDefault_eq:
  "fillDefault model = model\<lparr>
     Partition := Some (case Partition model of None \<Rightarrow> NoPartition | Some f \<Rightarrow> f),
     PartitionEvent := Some (case PartitionEvent model of None \<Rightarrow> NoPartitionEvent | Some f \<Rightarrow> f),
     Equal := Some (case Equal model of None \<Rightarrow> ShallowEqual | Some f \<Rightarrow> f)\<rparr>"
  by (cases model; rename_tac p q i st e; case_tac p; case_tac q; case_tac e) (simp_all add: fillDefault_def Let_def)

lemma fillDefault_simps [simp]:
  "Init (fillDefault model) = Init model" "Step (fillDefault model) = Step model"
  "Partition (fillDefault model) = Some (case Partition model of None \<Rightarrow> NoPartition | Some f \<Rightarrow> f)"
  "PartitionEvent (fillDefault model) = Some (case PartitionEvent model of None \<Rightarrow> NoPartitionEvent | Some f \<Rightarrow> f)"
  "Equal (fillDefault model) = Some (case Equal model of None \<Rightarrow> ShallowEqual | Some f \<Rightarrow> f)"
  by (simp_all add: fillDefault_eq)

lemma runs_cong: "Step m = Step m' \<Longrightarrow> runs m s ops = runs m' s ops"
  by (induction m s ops rule: runs.induct) (auto split: sum.splits)

lemma opsLinearizable_fillDefault [simp]: "opsLinearizable (fillDefault model) ops = opsLinearizable model ops"
  by (simp add: opsLinearizable_def runs_cong [of "fillDefault model" model])

text \<open>What the checker may rely on: the model has an equality test that is equality, or none.\<close>

definition proper_equal :: "('v, 's) Model \<Rightarrow> bool" where
  "proper_equal model \<longleftrightarrow> (case Equal model of None \<Rightarrow> True | Some eq \<Rightarrow> \<forall>x y. eq x y \<longleftrightarrow> x = y)"

definition proper_history :: "('v, 's) Model \<Rightarrow> 'v Operation list \<Rightarrow> bool" where
  "proper_history model ops \<longleftrightarrow> wf_operations ops \<and> no_ties ops \<and>
     (\<forall>x \<in> set ops. \<forall>s. isOk (Step model s (Input x) (Output x)))"

lemma fillDefault_equal:
  assumes "proper_equal model"
  obtains eq where "Equal (fillDefault model) = Some eq" "\<forall>x y. eq x y \<longleftrightarrow> x = y"
  using assms by (cases "Equal model") (auto simp: proper_equal_def ShallowEqual_def)

lemma operations_verdict:
  assumes so: "sorts_by_time sortSort" and eq: "proper_equal model"
    and part: "Partition (fillDefault model) = Some part" "part history = Inr parts"
    and parts: "\<And>p. p \<in> set parts \<Longrightarrow> proper_history model p" "parts \<noteq> []"
    and order: "distinct order" "set order = {..<length parts}"
  shows "CheckOperationsTimeout sortSort model history timeout (map Some order) =
    Some (Inr (\<forall>p \<in> set parts. opsLinearizable model p))"
proof -
  let ?m = "fillDefault model"
  from fillDefault_equal [OF eq] obtain e where e: "Equal ?m = Some e" "\<forall>x y. e x y \<longleftrightarrow> x = y" .
  have ch: "checkable ?m (length p) (makeEntries sortSort p)" if "p \<in> set parts" for p
    using parts(1) [OF that] by (intro checkable_operations [OF so _ e(1)]) (auto simp: proper_history_def e(2))
  have lin: "linearizable ?m (length p) (makeEntries sortSort p) \<longleftrightarrow> opsLinearizable model p" if "p \<in> set parts" for p
    using parts(1) [OF that] makeEntries_linearizable [OF so, of p ?m] by (simp add: proper_history_def)
  have "runPartitions ?m (map (makeEntries sortSort) parts) timeout (map Some order) =
      Some (Inr (\<forall>i < length parts. linearizable ?m (length (parts ! i)) (makeEntries sortSort (parts ! i))))"
    using runPartitions_all [of "map (makeEntries sortSort) parts" ?m "\<lambda>i. length (parts ! i)" order] ch order parts(2) by simp
  then show ?thesis
    using lin part by (simp add: CheckOperationsTimeout_def all_set_conv_all_nth)
qed
subsection \<open>The key/value model\<close>

definition kvKey :: "kvval Operation \<Rightarrow> string" where
  "kvKey v = (case Input v of InKv i \<Rightarrow> Key i | OutKv _ \<Rightarrow> '''')"

definition kv_history :: "kvval Operation list \<Rightarrow> bool" where
  "kv_history ops \<longleftrightarrow> (\<forall>v \<in> set ops. (\<exists>i. Input v = InKv i) \<and> (\<exists>r. Output v = OutKv r))"

definition range_order :: "(string list \<Rightarrow> string list) \<Rightarrow> bool" where
  "range_order rangeKeys \<longleftrightarrow> (\<forall>ks. mset (rangeKeys ks) = mset ks)"

definition bucketOf :: "(string \<times> kvval Operation list) list \<Rightarrow> string \<Rightarrow> kvval Operation list" where
  "bucketOf m k = (case map_of m k of None \<Rightarrow> [] | Some ops \<Rightarrow> ops)"

lemma bucketOf_add:
  "bucketOf (if map_of m key = None then m @ [(key, [v])]
             else map (\<lambda>(k, ops). if k = key then (k, bucketOf m key @ [v]) else (k, ops)) m) k =
     bucketOf m k @ (if k = key then [v] else [])"
proof -
  have "map_of (map (\<lambda>(k, ops). if k = key then (k, new) else (k, ops)) m) k =
      (if k = key \<and> map_of m key \<noteq> None then Some new else map_of m k)" for new
    by (induction m) auto
  then show ?thesis by (auto simp: bucketOf_def map_add_def split: option.splits)
qed

lemma groupByKey_groups:
  assumes "\<forall>v \<in> set history. \<exists>i. Input v = InKv i" "distinct (map fst m)"
  shows "\<exists>m'. groupByKey m history = Inr m' \<and> distinct (map fst m') \<and>
    set (map fst m') = set (map fst m) \<union> kvKey ` set history \<and>
    (\<forall>k. bucketOf m' k = bucketOf m k @ filter (\<lambda>v. kvKey v = k) history)"
  using assms
proof (induction history arbitrary: m)
  case (Cons v history)
  then obtain inp where inp: "Input v = InKv inp" by auto
  let ?m = "if map_of m (Key inp) = None then m @ [(Key inp, [v])]
             else map (\<lambda>(k, ops). if k = Key inp then (k, bucketOf m (Key inp) @ [v]) else (k, ops)) m"
  have fst: "map fst (map (\<lambda>(k, ops). if k = Key inp then (k, new) else (k, ops)) m) = map fst m" for new
    by (induction m) auto
  have keys: "map fst ?m = (if map_of m (Key inp) = None then map fst m @ [Key inp] else map fst m)"
    unfolding if_distrib [of "map fst"] fst by simp
  have dist: "distinct (map fst ?m)" and set: "set (map fst ?m) = insert (Key inp) (set (map fst m))"
    unfolding keys using Cons.prems(2) map_of_eq_None_iff [of m "Key inp"] by auto
  from Cons.IH [OF _ dist] Cons.prems obtain m' where m': "groupByKey ?m history = Inr m'" "distinct (map fst m')"
    "set (map fst m') = set (map fst ?m) \<union> kvKey ` set history"
    "\<forall>k. bucketOf m' k = bucketOf ?m k @ filter (\<lambda>v. kvKey v = k) history" by auto
  have key: "kvKey v = Key inp" using inp by (simp add: kvKey_def)
  have "groupByKey m (v # history) = Inr m'"
    using m'(1) by (simp only: groupByKey.simps inp asKvInput.simps bindE_Inr Let_def bucketOf_def)
  with m' set key show ?case unfolding bucketOf_add by auto
qed simp

lemma kvPartition_filters:
  assumes "kv_history history" "range_order rangeKeys"
  obtains ks where "kvPartition rangeKeys history = Inr (map (\<lambda>k. filter (\<lambda>v. kvKey v = k) history) ks)"
    "distinct ks" "set ks = kvKey ` set history"
proof -
  have "\<forall>v \<in> set history. \<exists>i. Input v = InKv i" using assms(1) by (auto simp: kv_history_def)
  from groupByKey_groups [OF this, of "[]"] obtain m where m: "groupByKey [] history = Inr m" "distinct (map fst m)"
    "set (map fst m) = kvKey ` set history" "\<forall>k. bucketOf m k = filter (\<lambda>v. kvKey v = k) history"
    by (auto simp: bucketOf_def)
  let ?ks = "rangeKeys (map fst m)"
  have p: "mset ?ks = mset (map fst m)" using assms(2) by (simp add: range_order_def)
  show ?thesis
  proof (rule that [of ?ks])
    show "kvPartition rangeKeys history = Inr (map (\<lambda>k. filter (\<lambda>v. kvKey v = k) history) ?ks)"
      using m(1,4) by (simp add: kvPartition_def bucketOf_def)
    show "distinct ?ks" using p m(2) mset_eq_imp_distinct_iff by blast
    show "set ?ks = kvKey ` set history" using mset_eq_setD [OF p] m(3) by simp
  qed
qed

lemma kvStep_ok: "isOk (kvStep s (InKv i) (OutKv r))"
  by (simp add: kvStep_def)

lemma kv_proper_history:
  assumes "kv_history ops" "wf_operations ops" "no_ties ops"
  shows "proper_history (KvModel rangeKeys) (filter P ops)"
proof -
  have "isOk (kvStep s (Input x) (Output x))" if "x \<in> set ops" for x s
    using assms(1) that kvStep_ok by (fastforce simp: kv_history_def)
  with assms show ?thesis
    by (auto simp: proper_history_def wf_operations_def no_ties_def KvModel_def)
qed

subsection \<open>Histories of events\<close>

fun assignIds :: "(nat \<Rightarrow> nat option) \<Rightarrow> nat \<Rightarrow> 'v Event list \<Rightarrow> nat \<Rightarrow> nat option" where
  "assignIds m i [] = m"
| "assignIds m i (v # events) =
     (case m (Id v) of Some _ \<Rightarrow> assignIds m i events
      | None \<Rightarrow> assignIds (m(Id v \<mapsto> i)) (i + 1) events)"

lemma assignIds_extends: "m x = Some r \<Longrightarrow> assignIds m i events x = Some r"
proof (induction events arbitrary: m i)
  case (Cons v events)
  have "assignIds (m(Id v \<mapsto> i)) (i + 1) events x = Some r" if "m (Id v) = None"
    using Cons.prems that by (intro Cons.IH) auto
  with Cons show ?case by (cases "m (Id v)") simp_all
qed simp

lemma renumberLoop_map:
  "renumberLoop m i events = map (\<lambda>e. \<lparr>Kind = Kind e, Value = Value e, Id = the (assignIds m i events (Id e))\<rparr>) events"
proof (induction events arbitrary: m i)
  case (Cons v events)
  have "assignIds (m(Id v \<mapsto> i)) (i + 1) events (Id v) = Some i" by (rule assignIds_extends) simp
  then show ?case using Cons assignIds_extends [of m "Id v" _ i events]
    by (cases "m (Id v)") (simp_all del: fun_upd_apply)
qed simp

definition numbers :: "(nat \<Rightarrow> nat option) \<Rightarrow> nat \<Rightarrow> bool" where
  "numbers m i \<longleftrightarrow> inj_on m (dom m) \<and> ran m = {..<i}"

lemma assignIds_numbers:
  "numbers m i \<Longrightarrow> \<exists>j. numbers (assignIds m i events) j \<and> dom (assignIds m i events) = dom m \<union> Id ` set events"
proof (induction m i events rule: assignIds.induct)
  case (2 m i v events)
  show ?case
  proof (cases "m (Id v)")
    case None
    have "numbers (m(Id v \<mapsto> i)) (i + 1)"
      unfolding numbers_def
    proof
      have i: "m x \<noteq> Some i" for x using 2(3) ranI [of m x i] by (auto simp: numbers_def)
      have inj: "inj_on m (dom m)" using 2(3) by (simp add: numbers_def)
      show "inj_on (m(Id v \<mapsto> i)) (dom (m(Id v \<mapsto> i)))"
      proof (rule inj_onI)
        fix x y assume "x \<in> dom (m(Id v \<mapsto> i))" "y \<in> dom (m(Id v \<mapsto> i))"
          and eq: "(m(Id v \<mapsto> i)) x = (m(Id v \<mapsto> i)) y"
        then show "x = y"
          using inj_onD [OF inj, of x y] i [of x] i [of y]
          by (cases "x = Id v"; cases "y = Id v") auto
      qed
      show "ran (m(Id v \<mapsto> i)) = {..<i + 1}" using 2(3) None by (simp add: numbers_def lessThan_Suc)
    qed
    from 2(1) [OF None this] obtain j where "numbers (assignIds (m(Id v \<mapsto> i)) (i + 1) events) j"
      "dom (assignIds (m(Id v \<mapsto> i)) (i + 1) events) = dom (m(Id v \<mapsto> i)) \<union> Id ` set events" by blast
    moreover have "assignIds m i (v # events) = assignIds (m(Id v \<mapsto> i)) (i + 1) events" using None by simp
    moreover have "dom (m(Id v \<mapsto> i)) \<union> Id ` set events = dom m \<union> Id ` set (v # events)" by simp
    ultimately show ?thesis by metis
  next
    case (Some r)
    with 2(2) [OF Some 2(3)] show ?thesis by (auto simp: dom_def)
  qed
qed auto

text \<open>
  A complete history of events: every operation is called once and returns once, later.
\<close>

definition wf_events :: "'v Event list \<Rightarrow> bool" where
  "wf_events evs \<longleftrightarrow> distinct (map (\<lambda>e. (Kind e, Id e)) evs) \<and>
     (\<forall>k. \<forall>i \<in> Id ` set evs. (k, i) \<in> (\<lambda>e. (Kind e, Id e)) ` set evs) \<and>
     (\<forall>p < length evs. \<forall>q < length evs.
        Kind (evs ! p) = CallEvent \<and> Kind (evs ! q) = ReturnEvent \<and> Id (evs ! p) = Id (evs ! q) \<longrightarrow> p < q)"

definition entryKindOf :: "EventKind \<Rightarrow> entryKind" where
  "entryKindOf k = (if k = ReturnEvent then returnEntry else callEntry)"

lemma entryKindOf_inj: "entryKindOf k = entryKindOf k' \<longleftrightarrow> k = k'"
  by (cases k; cases k') (simp_all add: entryKindOf_def)

lemma entryKindOf_simps [simp]:
  "entryKindOf k = callEntry \<longleftrightarrow> k = CallEvent" "entryKindOf k = returnEntry \<longleftrightarrow> k = ReturnEvent"
  by (cases k; simp add: entryKindOf_def)+

text \<open>\<open>renumber\<close> renames the operations by a bijection onto \<open>0, ..., n - 1\<close>.\<close>

lemma renumber_renames:
  obtains f where "bij_betw f (Id ` set evs) {..<card (Id ` set evs)}"
    "renumber evs = map (\<lambda>e. \<lparr>Kind = Kind e, Value = Value e, Id = f (Id e)\<rparr>) evs"
proof -
  have "numbers (\<lambda>_. None) 0" by (simp add: numbers_def)
  from assignIds_numbers [OF this, of evs] obtain j where
    j: "numbers (assignIds (\<lambda>_. None) 0 evs) j" "dom (assignIds (\<lambda>_. None) 0 evs) = Id ` set evs" by auto
  define f where "f i = the (assignIds (\<lambda>_. None) 0 evs i)" for i
  have some: "assignIds (\<lambda>_. None) 0 evs i = Some (f i)" if "i \<in> Id ` set evs" for i
    using that unfolding j(2) [symmetric] by (auto simp: f_def)
  have "inj_on f (Id ` set evs)"
    using j some by (auto simp: numbers_def inj_on_def)
  moreover have "f ` Id ` set evs = {..<j}"
  proof -
    have "ran (assignIds (\<lambda>_. None) 0 evs) = f ` Id ` set evs"
      unfolding ran_def using some j(2) by (auto simp: image_iff) (metis domI imageE option.inject some)
    then show ?thesis using j(1) by (simp add: numbers_def)
  qed
  ultimately have bij: "bij_betw f (Id ` set evs) {..<j}" by (simp add: bij_betw_def)
  then have "j = card (Id ` set evs)" using bij_betw_same_card by fastforce
  moreover have "renumber evs = map (\<lambda>e. \<lparr>Kind = Kind e, Value = Value e, Id = f (Id e)\<rparr>) evs"
    by (simp add: renumber_def renumberLoop_map f_def)
  ultimately show ?thesis using that bij by blast
qed

lemma label_converted:
  "map label (convertEntries (map (\<lambda>e. \<lparr>Kind = Kind e, Value = Value e, Id = f (Id e)\<rparr>) evs)) =
     map (\<lambda>e. (entryKindOf (Kind e), f (Id e))) evs"
  by (simp add: convertEntries_def label_def entryKindOf_def)

lemma renumber_wf:
  assumes "wf_events evs"
  shows "wf_entries (card (Id ` set evs)) (convertEntries (renumber evs))"
proof -
  let ?n = "card (Id ` set evs)"
  obtain f where f: "bij_betw f (Id ` set evs) {..<?n}"
    "renumber evs = map (\<lambda>e. \<lparr>Kind = Kind e, Value = Value e, Id = f (Id e)\<rparr>) evs"
    by (rule renumber_renames)
  have inj: "inj_on f (Id ` set evs)" and im: "f ` Id ` set evs = {..<?n}" using f(1) by (auto simp: bij_betw_def)
  let ?l = "\<lambda>e. (entryKindOf (Kind e), f (Id e))"
  have labels: "map label (convertEntries (renumber evs)) = map ?l evs"
    unfolding f(2) by (rule label_converted)
  have "inj_on ?l (set evs)"
    using assms inj by (auto simp: wf_events_def distinct_map entryKindOf_inj inj_on_def)
  then have "distinct (map ?l evs)"
    using assms by (simp add: wf_events_def distinct_map)
  moreover have "set (map ?l evs) = {callEntry, returnEntry} \<times> {..<?n}"
  proof
    show "set (map ?l evs) \<subseteq> {callEntry, returnEntry} \<times> {..<?n}"
      using im by (auto simp: entryKindOf_def split: if_splits)
    show "{callEntry, returnEntry} \<times> {..<?n} \<subseteq> set (map ?l evs)"
    proof
      fix x assume "x \<in> {callEntry, returnEntry} \<times> {..<?n}"
      then obtain k0 j where kj: "x = (k0, j)" "j \<in> f ` Id ` set evs" using im by auto
      then obtain i where i: "i \<in> Id ` set evs" "j = f i" by blast
      define k where "k = (if k0 = returnEntry then ReturnEvent else CallEvent)"
      have "entryKindOf k = k0" by (cases k0) (simp_all add: k_def)
      with kj i have x: "x = (entryKindOf k, f i)" "i \<in> Id ` set evs" by auto
      with assms have "(k, i) \<in> (\<lambda>e. (Kind e, Id e)) ` set evs" by (auto simp: wf_events_def)
      with x show "x \<in> set (map ?l evs)" by auto
    qed
  qed
  moreover have "p < q" if "p < length evs" "q < length evs" "?l (evs ! p) = (callEntry, f (Id (evs ! q)))"
    "Kind (evs ! q) = ReturnEvent" for p q
  proof -
    have "Id (evs ! p) = Id (evs ! q)" by (rule inj_onD [OF inj]) (use that in auto)
    moreover have "Kind (evs ! p) = CallEvent" using that(3) unfolding prod.inject by simp
    moreover have "\<forall>p < length evs. \<forall>q < length evs.
        Kind (evs ! p) = CallEvent \<and> Kind (evs ! q) = ReturnEvent \<and> Id (evs ! p) = Id (evs ! q) \<longrightarrow> p < q"
      using assms unfolding wf_events_def by (elim conjE)
    ultimately show ?thesis using that(1,2,4) by blast
  qed
  ultimately show ?thesis
    unfolding wf_entries_def labels
    by (simp add: f(2) convertEntries_def label_def entryKindOf_def [symmetric])
qed

lemma opOf_mem:
  assumes wf: "wf_entries n es" and "i < n"
  shows "fst (opOf es i) \<in> evalue ` set es" "snd (opOf es i) \<in> evalue ` set es"
proof -
  have "opValue es (k, i) \<in> evalue ` set es" for k
  proof -
    obtain a where a: "a < length es" "label (rev es ! a) = (k, i)" by (rule wf_address [OF assms])
    then have "opValue es (k, i) = evalue (rev es ! a)" using opValue_at [OF wf a(1)] by simp
    moreover have "rev es ! a \<in> set es" using a nth_mem [of a "rev es"] by simp
    ultimately show ?thesis by auto
  qed
  then show "fst (opOf es i) \<in> evalue ` set es" "snd (opOf es i) \<in> evalue ` set es" by (simp_all add: opOf_def)
qed

lemma evalue_converted: "evalue ` set (convertEntries (renumber evs)) = Value ` set evs"
proof -
  obtain f where "renumber evs = map (\<lambda>e. \<lparr>Kind = Kind e, Value = Value e, Id = f (Id e)\<rparr>) evs"
    by (rule renumber_renames)
  then show ?thesis by (simp add: convertEntries_def image_image)
qed

text \<open>The model does not panic on any two values of the history.\<close>

definition steps_total :: "('v, 's) Model \<Rightarrow> 'v Event list \<Rightarrow> bool" where
  "steps_total model evs \<longleftrightarrow>
     (\<forall>s. \<forall>c \<in> set evs. \<forall>r \<in> set evs. Kind c = CallEvent \<and> Kind r = ReturnEvent \<and> Id c = Id r \<longrightarrow>
        isOk (Step model s (Value c) (Value r)))"

lemma converted_opOf:
  assumes "wf_events evs" "i < card (Id ` set evs)"
  obtains c r where "c \<in> set evs" "r \<in> set evs" "Kind c = CallEvent" "Kind r = ReturnEvent" "Id c = Id r"
    "opOf (convertEntries (renumber evs)) i = (Value c, Value r)"
proof -
  let ?es = "convertEntries (renumber evs)"
  obtain f where f: "bij_betw f (Id ` set evs) {..<card (Id ` set evs)}"
    "renumber evs = map (\<lambda>e. \<lparr>Kind = Kind e, Value = Value e, Id = f (Id e)\<rparr>) evs"
    by (rule renumber_renames)
  note wf = renumber_wf [OF assms(1)]
  have "\<exists>e \<in> set evs. entryKindOf (Kind e) = k \<and> f (Id e) = i \<and> opValue ?es (k, i) = Value e" for k
  proof -
    obtain a where a: "a < length ?es" "label (rev ?es ! a) = (k, i)" by (rule wf_address [OF wf assms(2)])
    have "rev ?es ! a \<in> set ?es" using a nth_mem [of a "rev ?es"] by simp
    then obtain e where "e \<in> set evs" "rev ?es ! a = \<lparr>kind = entryKindOf (Kind e), evalue = Value e, eid = f (Id e), etime = -1\<rparr>"
      unfolding f(2) by (auto simp: convertEntries_def entryKindOf_def)
    with a opValue_at [OF wf a(1)] show ?thesis by (auto simp: label_def)
  qed
  from this [of callEntry] this [of returnEntry] obtain c r where cr: "c \<in> set evs" "r \<in> set evs"
    "Kind c = CallEvent" "Kind r = ReturnEvent" "f (Id c) = f (Id r)"
    "opValue ?es (callEntry, i) = Value c" "opValue ?es (returnEntry, i) = Value r" by auto
  moreover have "Id c = Id r" using cr f(1) by (auto simp: bij_betw_def inj_on_def)
  ultimately show ?thesis using that by (simp add: opOf_def)
qed

lemma checkable_events:
  assumes "wf_events evs" "Equal model = Some eq" "\<forall>x y. eq x y \<longleftrightarrow> x = y" "steps_total model evs"
  shows "checkable model (card (Id ` set evs)) (convertEntries (renumber evs))"
  unfolding checkable_def
proof (intro conjI allI impI)
  fix s i assume "i < card (Id ` set evs)"
  from converted_opOf [OF assms(1) this] obtain c r where "c \<in> set evs" "r \<in> set evs" "Kind c = CallEvent"
    "Kind r = ReturnEvent" "Id c = Id r" "opOf (convertEntries (renumber evs)) i = (Value c, Value r)" .
  with assms(4) show "isOk (Step model s (fst (opOf (convertEntries (renumber evs)) i)) (snd (opOf (convertEntries (renumber evs)) i)))"
    by (simp add: steps_total_def)
qed (use assms renumber_wf in auto)

subsection \<open>Verdicts\<close>

definition samplePut :: "kvval Operation" where
  "samplePut = \<lparr>Input = InKv \<lparr>Op = 1, Key = ''x'', KvValue = ''a''\<rparr>, Call = 0,
                Output = OutKv \<lparr>OutValue = ''''\<rparr>, Return = 10\<rparr>"

definition sampleGet :: "kvval Operation" where
  "sampleGet = \<lparr>Input = InKv \<lparr>Op = 0, Key = ''x'', KvValue = ''''\<rparr>, Call = 5,
                Output = OutKv \<lparr>OutValue = ''a''\<rparr>, Return = 15\<rparr>"

definition sampleStale :: "kvval Operation" where
  "sampleStale = \<lparr>Input = InKv \<lparr>Op = 0, Key = ''x'', KvValue = ''''\<rparr>, Call = 20,
                  Output = OutKv \<lparr>OutValue = ''''\<rparr>, Return = 25\<rparr>"

lemmas sample_defs = samplePut_def sampleGet_def sampleStale_def

lemma sample_ok:
  "kv_history [samplePut, sampleGet]" "wf_operations [samplePut, sampleGet]" "no_ties [samplePut, sampleGet]"
  "kv_history [samplePut, sampleStale]" "wf_operations [samplePut, sampleStale]" "no_ties [samplePut, sampleStale]"
  by (simp_all add: sample_defs kv_history_def wf_operations_def no_ties_def)

lemma sample_linearizable: "opsLinearizable (KvModel f) [samplePut, sampleGet]"
  unfolding opsLinearizable_def
  by (rule exI [of _ "[0, 1]"]) (auto simp: sample_defs KvModel_def kvStep_def)

lemma two_orders:
  assumes "distinct ord" "set ord = {..<Suc (Suc 0)}"
  shows "ord = [0, 1] \<or> ord = [1, 0]"
proof -
  have "length ord = 2" using distinct_card [OF assms(1)] assms(2) by simp
  then obtain a b where "ord = [a, b]" by (auto simp: length_Suc_conv eval_nat_numeral)
  with assms(2) have "{a, b} = {0, 1}" by (auto simp: lessThan_Suc)
  with \<open>ord = [a, b]\<close> show ?thesis by (auto simp: doubleton_eq_iff)
qed

lemma sample_not_linearizable: "\<not> opsLinearizable (KvModel f) [samplePut, sampleStale]"
proof
  assume "opsLinearizable (KvModel f) [samplePut, sampleStale]"
  then obtain ord where ord: "distinct ord" "set ord = {..<Suc (Suc 0)}"
    "sorted_wrt (\<lambda>i j. \<not> Return ([samplePut, sampleStale] ! j) < Call ([samplePut, sampleStale] ! i)) ord"
    "runs (KvModel f) '''' (map (\<lambda>i. (Input ([samplePut, sampleStale] ! i), Output ([samplePut, sampleStale] ! i))) ord)"
    by (auto simp: opsLinearizable_def KvModel_def)
  from two_orders [OF ord(1,2)] ord(3,4) show False
    by (elim disjE) (simp_all add: sample_defs KvModel_def kvStep_def)
qed

lemma sample_proper: "proper_history (KvModel f) [samplePut, sampleGet]" "proper_history (KvModel f) [samplePut, sampleStale]"
  using kv_proper_history [OF sample_ok(1-3), of f "\<lambda>_. True"] kv_proper_history [OF sample_ok(4-6), of f "\<lambda>_. True"]
  by simp_all

text \<open>
  Claim C9. \<open>checkSingle\<close> on the list \<open>makeLinkedEntries\<close> builds from a well-formed list of
  entries always returns, without a panic, and its answer is whether the entries are
  linearizable: the backtracking search with its cache, its doubly linked list and its bit
  sets is a decision procedure. (The model must not panic on the values of the history, and
  \<open>Equal\<close> must be equality of states.)
\<close>

theorem checkSingle_decides:
  assumes "checkable model n es"
  shows "\<exists>hr. makeLinkedEntries es = Inr hr \<and>
    checkSingle model hr (\<lambda>_. False) = Some (Inr (linearizable model n es))"
  using checkSingle_result [OF assms, of "\<lambda>_. False"] by auto

theorem checkSingle_decides_witness:
  "\<exists>hr. makeLinkedEntries (makeEntries (sort_key etime) [samplePut, sampleStale]) = Inr hr \<and>
    checkSingle (KvModel id) hr (\<lambda>_. False) = Some (Inr False)"
proof -
  have so: "sorts_by_time (sort_key etime :: kvval entry list \<Rightarrow> _)" by (rule sort_key_sorts_by_time)
  let ?ops = "[samplePut, sampleStale]"
  have "checkable (KvModel id) (length ?ops) (makeEntries (sort_key etime) ?ops)"
    using checkable_operations [OF so, of ?ops "KvModel id" ShallowEqual] sample_ok sample_proper(2) [of id]
    by (auto simp: proper_history_def KvModel_def ShallowEqual_def)
  from checkSingle_decides [OF this] show ?thesis
    using makeEntries_linearizable [OF so sample_ok(5,6), of "KvModel id"] sample_not_linearizable by simp
qed

text \<open>
  Claim C11. A call to \<open>CheckOperationsTimeout\<close> that receives the result of every partition,
  in whatever order they arrive, returns \<open>true\<close> exactly when every partition is
  linearizable in the sense of the definition: there is a total order of its operations that
  respects their real-time order and that the model accepts.
\<close>

theorem CheckOperations_verdict:
  assumes "sorts_by_time sortSort" "proper_equal model"
    and "Partition (fillDefault model) = Some part" "part history = Inr parts"
    and "\<And>p. p \<in> set parts \<Longrightarrow> proper_history model p" "parts \<noteq> []"
    and "distinct order" "set order = {..<length parts}"
  shows "CheckOperationsTimeout sortSort model history timeout (map Some order) =
    Some (Inr (\<forall>p \<in> set parts. opsLinearizable model p))"
  using assms by (rule operations_verdict)

theorem CheckOperations_verdict_witness:
  "CheckOperationsTimeout (sort_key etime) ((KvModel id)\<lparr>Partition := None, Equal := None\<rparr>) [samplePut, sampleGet] 0 [Some 0] =
     Some (Inr True)"
proof -
  let ?m = "(KvModel id)\<lparr>Partition := None, Equal := None\<rparr>" and ?h = "[samplePut, sampleGet]"
  have "proper_history ?m ?h" using sample_proper(1) [of id] by (simp add: proper_history_def)
  then have "CheckOperationsTimeout (sort_key etime) ?m ?h 0 (map Some [0]) =
      Some (Inr (\<forall>p \<in> set [?h]. opsLinearizable ?m p))"
    by (intro CheckOperations_verdict [where part = NoPartition])
       (auto simp: sort_key_sorts_by_time proper_equal_def NoPartition_def)
  moreover have "opsLinearizable ?m ?h"
    using sample_linearizable [of id] by (simp add: opsLinearizable_def runs_cong [of ?m "KvModel id"])
  ultimately show ?thesis by simp
qed

text \<open>
  Claim C10. With the key/value model, \<open>CheckOperations\<close> answers whether, for every key, the
  operations on that key are linearizable: the model cuts the history by key and by nothing
  else, for any order in which the map of partitions is visited, and the results may arrive
  in any order.
\<close>

theorem kv_CheckOperations_verdict:
  assumes so: "sorts_by_time sortSort" and range: "range_order rangeKeys"
    and h: "kv_history history" "wf_operations history" "no_ties history" "history \<noteq> []"
    and order: "distinct order" "set order = {..<card (kvKey ` set history)}"
  shows "CheckOperations sortSort (KvModel rangeKeys) history (map Some order) =
    Some (Inr (\<forall>k \<in> kvKey ` set history.
       opsLinearizable (KvModel rangeKeys) (filter (\<lambda>v. kvKey v = k) history)))"
proof -
  obtain ks where ks: "kvPartition rangeKeys history = Inr (map (\<lambda>k. filter (\<lambda>v. kvKey v = k) history) ks)"
    "distinct ks" "set ks = kvKey ` set history" by (rule kvPartition_filters [OF h(1) range])
  have len: "length ks = card (kvKey ` set history)" using ks(2,3) distinct_card by metis
  let ?parts = "map (\<lambda>k. filter (\<lambda>v. kvKey v = k) history) ks"
  have "CheckOperationsTimeout sortSort (KvModel rangeKeys) history 0 (map Some order) =
      Some (Inr (\<forall>p \<in> set ?parts. opsLinearizable (KvModel rangeKeys) p))"
  proof (rule operations_verdict [OF so])
    show "proper_equal (KvModel rangeKeys)" by (simp add: proper_equal_def KvModel_def ShallowEqual_def)
    show "Partition (fillDefault (KvModel rangeKeys)) = Some (kvPartition rangeKeys)" by (simp add: KvModel_def)
    show "?parts \<noteq> []" using ks(3) h(4) by auto
  qed (use ks order len kv_proper_history [OF h(1-3)] in auto)
  then show ?thesis using ks(3) by (simp add: CheckOperations_def)
qed

theorem kv_CheckOperations_verdict_witness:
  "CheckOperations (sort_key etime) (KvModel rev) [samplePut, sampleStale] [Some 0] = Some (Inr False)"
proof -
  have "kvKey ` set [samplePut, sampleStale] = {''x''}" by (auto simp: kvKey_def sample_defs)
  moreover have "range_order rev" by (simp add: range_order_def)
  ultimately have "CheckOperations (sort_key etime) (KvModel rev) [samplePut, sampleStale] (map Some [0]) =
      Some (Inr (\<forall>k \<in> {''x''}. opsLinearizable (KvModel rev) (filter (\<lambda>v. kvKey v = k) [samplePut, sampleStale])))"
    using kv_CheckOperations_verdict [OF sort_key_sorts_by_time _ sample_ok(4-6), of rev "[0]"] by auto
  moreover have "filter (\<lambda>v. kvKey v = ''x'') [samplePut, sampleStale] = [samplePut, sampleStale]"
    by (simp add: kvKey_def sample_defs)
  ultimately show ?thesis using sample_not_linearizable [of rev] by simp
qed

text \<open>
  A negative verdict is right even when the timer fires: whatever results and
  timer signals arrive and in whatever order, if \<open>CheckOperationsTimeout\<close> returns \<open>false\<close> then
  some partition is not linearizable.
\<close>

theorem timeout_false_is_right:
  assumes so: "sorts_by_time sortSort" and eq: "proper_equal model"
    and part: "Partition (fillDefault model) = Some part" "part history = Inr parts"
    and parts: "\<And>p. p \<in> set parts \<Longrightarrow> proper_history model p"
    and arrive: "\<And>i. Some i \<in> set arrivals \<Longrightarrow> i < length parts"
    and res: "CheckOperationsTimeout sortSort model history timeout arrivals = Some (Inr False)"
  shows "\<exists>p \<in> set parts. \<not> opsLinearizable model p"
proof -
  let ?m = "fillDefault model" and ?es = "map (makeEntries sortSort) parts"
  let ?arr = "if 0 < timeout then arrivals else filter (\<lambda>x. x \<noteq> None) arrivals"
  from fillDefault_equal [OF eq] obtain e where e: "Equal ?m = Some e" "\<forall>x y. e x y \<longleftrightarrow> x = y" .
  have ch: "checkable ?m (length p) (makeEntries sortSort p)" if "p \<in> set parts" for p
    using parts [OF that] by (intro checkable_operations [OF so _ e(1)]) (auto simp: proper_history_def e(2))
  have "\<exists>hr. makeLinkedEntries (?es ! i) = Inr hr \<and>
      checkSingle ?m hr (\<lambda>_. False) = Some (Inr (opsLinearizable model (parts ! i)))" if "i < length parts" for i
    using checkSingle_result [OF ch [OF nth_mem [OF that]], of "\<lambda>_. False"] that parts [OF nth_mem [OF that]]
      makeEntries_linearizable [OF so, of "parts ! i" ?m] by (auto simp: proper_history_def)
  then obtain hr where hr: "\<And>i. i < length parts \<Longrightarrow> makeLinkedEntries (?es ! i) = Inr (hr i) \<and>
      checkSingle ?m (hr i) (\<lambda>_. False) = Some (Inr (opsLinearizable model (parts ! i)))" by metis
  have mp: "mapE makeLinkedEntries ?es = Inr (map (projr \<circ> makeLinkedEntries) ?es)"
    using hr by (intro mapE_Inr) (auto simp: in_set_conv_nth)
  have "collectResults (\<lambda>i. checkSingle ?m (map (projr \<circ> makeLinkedEntries) ?es ! i) (\<lambda>_. False)) (length parts) 0 ?arr
      = Some (Inr False)"
    using res part mp by (simp add: CheckOperationsTimeout_def runPartitions_def)
  then obtain i where "Some i \<in> set ?arr"
    "checkSingle ?m (map (projr \<circ> makeLinkedEntries) ?es ! i) (\<lambda>_. False) = Some (Inr False)"
    by (auto dest!: collectResults_false)
  moreover from this have "i < length parts" using arrive by (auto split: if_splits)
  ultimately have "\<not> opsLinearizable model (parts ! i)" using hr [of i] by auto
  with \<open>i < length parts\<close> show ?thesis by (auto intro: bexI [OF _ nth_mem])
qed

theorem timeout_false_is_right_witness:
  "\<not> opsLinearizable (KvModel id) (filter (\<lambda>v. kvKey v = ''x'') [samplePut, sampleStale])"
proof -
  let ?h = "[samplePut, sampleStale]"
  have x: "filter (\<lambda>v. kvKey v = ''x'') ?h = ?h" by (simp add: kvKey_def sample_defs)
  have part: "kvPartition id ?h = Inr [?h]" by (simp add: kvPartition_def sample_defs Let_def)
  have res: "CheckOperationsTimeout (sort_key etime) (KvModel id) ?h 1 (map Some [0]) = Some (Inr False)"
    using operations_verdict [OF sort_key_sorts_by_time, of "KvModel id" "kvPartition id" ?h "[?h]" "[0]" 1]
      part sample_proper(2) [of id] sample_not_linearizable [of id]
    by (auto simp: KvModel_def proper_equal_def ShallowEqual_def)
  have "\<exists>p \<in> set [?h]. \<not> opsLinearizable (KvModel id) p"
    by (rule timeout_false_is_right [where sortSort = "sort_key etime" and part = "kvPartition id"
          and history = ?h and arrivals = "map Some [0]" and timeout = 1])
       (use part res in \<open>auto simp: KvModel_def proper_equal_def ShallowEqual_def sample_proper(2) [unfolded KvModel_def] sort_key_sorts_by_time\<close>)
  then show ?thesis unfolding x by simp
qed


definition sampleEvents :: "kvval Event list" where
  "sampleEvents = [\<lparr>Kind = CallEvent, Value = InKv \<lparr>Op = 1, Key = ''x'', KvValue = ''a''\<rparr>, Id = 70\<rparr>,
                   \<lparr>Kind = ReturnEvent, Value = OutKv \<lparr>OutValue = ''''\<rparr>, Id = 70\<rparr>]"



end
