(* ===== verification/Kv_Server.thy ===== *)
theory Kv_Server
  imports Lin_History Raft_Invariant
begin

section \<open>kvraft: the replicated key/value server\<close>

text \<open>
  \<open>kvraft/common.go\<close> and \<open>kvraft/server.go\<close>. A server holds a Raft instance and a map
  \<open>db\<close>; \<open>applyRoutine\<close> takes committed commands from Raft and applies them, \<open>PutAppend\<close>
  starts a command and waits on a channel for it to be applied, \<open>Get\<close> reads \<open>db\<close>.

  A command of the Raft log has a dynamic type: the dummy entry of \<open>Make\<close> is an \<open>int\<close>,
  \<open>PutAppend\<close> starts a pointer, and \<open>applyRoutine\<close> expects a struct. Channels of
  \<open>promise\<close> are numbers; \<open>waiting\<close> says which channel has a handler at its \<open>select\<close>.
  \<open>muHeld\<close> records that \<open>applyRoutine\<close> holds \<open>kv.mu\<close>: the \<open>defer\<close> in its loop unlocks only
  when the function returns.
\<close>

definition OK :: string where "OK = ''OK''"
definition ErrNoKey :: string where "ErrNoKey = ''ErrNoKey''"

record PutAppendArgs =
  paKey :: string
  paValue :: string
  paOp :: string

record PutAppendReply =
  paWrongLeader :: bool
  paErr :: string

record GetArgs =
  getKey :: string

record GetReply =
  getWrongLeader :: bool
  getErr :: string
  getValue :: string

datatype kvcmd = CmdInt int | CmdPtr PutAppendArgs | CmdArgs PutAppendArgs

fun asPutAppendArgs :: "kvcmd \<Rightarrow> PutAppendArgs go" where
  "asPutAppendArgs (CmdArgs args) = Inr args"
| "asPutAppendArgs (CmdInt _) = Inl TypeAssertion"
| "asPutAppendArgs (CmdPtr _) = Inl TypeAssertion"

record KVServer =
  kvme :: int
  rf :: "kvcmd Raft"
  maxraftstate :: int
  db :: "string \<Rightarrow> string option"
  promise :: "int \<Rightarrow> nat option"
  waiting :: "nat \<Rightarrow> PutAppendArgs option"
  nextChan :: nat
  muHeld :: bool

definition kvGetState :: "KVServer \<Rightarrow> int \<times> bool" where
  "kvGetState kv = GetState (rf kv)"

definition isLeader :: "KVServer \<Rightarrow> bool" where
  "isLeader kv = (case GetState (rf kv) of (_, leads) \<Rightarrow> leads)"

text \<open>The change of \<open>db\<close> by one command.\<close>

definition applyDb :: "PutAppendArgs \<Rightarrow> (string \<Rightarrow> string option) \<Rightarrow> (string \<Rightarrow> string option)" where
  "applyDb args d =
     (if paOp args = ''Put'' then d(paKey args \<mapsto> paValue args)
      else (case d (paKey args) of
              Some value \<Rightarrow> d(paKey args \<mapsto> value @ paValue args)
            | None \<Rightarrow> d(paKey args \<mapsto> paValue args)))"

text \<open>
  One turn of the loop of \<open>applyRoutine\<close> on a message from \<open>applyCh\<close>. The result has the
  channel and the value that were sent, if any. A send on a channel where no handler waits
  and a second \<open>Lock\<close> wait for ever.
\<close>

definition applyRoutine :: "kvcmd ApplyMsg \<Rightarrow> KVServer \<Rightarrow> (KVServer \<times> (nat \<times> PutAppendArgs) option) go" where
  "applyRoutine applyMsg kv =
     bindE (asPutAppendArgs (MsgCommand applyMsg)) (\<lambda>args.
     if muHeld kv then Inl Blocked
     else let kv = kv\<lparr>muHeld := True\<rparr> in
     bindE (case promise kv (CommandIndex applyMsg) of
              Some ch \<Rightarrow>
                if waiting kv ch = None then Inl Blocked
                else Inr (kv\<lparr>promise := (promise kv)(CommandIndex applyMsg := None)\<rparr>, Some (ch, args))
            | None \<Rightarrow> Inr (kv, None)) (\<lambda>(kv, sent).
     Inr (kv\<lparr>db := applyDb args (db kv)\<rparr>, sent)))"

definition kvGet :: "GetArgs \<Rightarrow> KVServer \<Rightarrow> GetReply" where
  "kvGet args kv =
     (if isLeader kv then
        (case db kv (getKey args) of
           Some value \<Rightarrow> \<lparr>getWrongLeader = False, getErr = '''', getValue = value\<rparr>
         | None \<Rightarrow> \<lparr>getWrongLeader = False, getErr = '''', getValue = ''''\<rparr>)
      else \<lparr>getWrongLeader = True, getErr = '''', getValue = ''''\<rparr>)"

definition cmd_equal :: "PutAppendArgs \<Rightarrow> PutAppendArgs \<Rightarrow> bool" where
  "cmd_equal arg1 arg2 =
     (if paKey arg1 \<noteq> paKey arg2 then False
      else if paValue arg1 \<noteq> paValue arg2 then False
      else if paOp arg1 \<noteq> paOp arg2 then False
      else True)"

text \<open>
  \<open>PutAppend\<close> up to its \<open>select\<close> (a reply at once, or the channel it waits on), and from the
  receive on \<open>ch\<close> to its return. \<open>shutDownCh\<close> is never closed.
\<close>

definition putAppendStart :: "PutAppendArgs \<Rightarrow> KVServer \<Rightarrow> (KVServer \<times> (PutAppendReply + nat)) go" where
  "putAppendStart args kv =
     bindE (Start (CmdPtr args) (rf kv)) (\<lambda>(r, index, _, leads).
     let kv = kv\<lparr>rf := r\<rparr> in
     if \<not> leads then Inr (kv, Inl \<lparr>paWrongLeader = True, paErr = ''''\<rparr>)
     else if muHeld kv then Inl Blocked
     else let ch = nextChan kv in
       Inr (kv\<lparr>promise := (promise kv)(index \<mapsto> ch), nextChan := ch + 1,
               waiting := (waiting kv)(ch \<mapsto> args)\<rparr>, Inr ch))"

definition putAppendFinish :: "nat \<Rightarrow> PutAppendArgs \<Rightarrow> PutAppendArgs \<Rightarrow> KVServer \<Rightarrow> KVServer \<times> PutAppendReply" where
  "putAppendFinish ch args applyArg kv =
     (kv\<lparr>waiting := (waiting kv)(ch := None)\<rparr>,
      if cmd_equal args applyArg then \<lparr>paWrongLeader = False, paErr = OK\<rparr>
      else \<lparr>paWrongLeader = True, paErr = ''''\<rparr>)"

definition kvKill :: "KVServer \<Rightarrow> KVServer go" where
  "kvKill kv = bindE (Kill (rf kv)) (\<lambda>r. Inr (kv\<lparr>rf := r\<rparr>))"

definition StartKVServer :: "int \<Rightarrow> int \<Rightarrow> kvcmd gobval list Persister \<Rightarrow> int \<Rightarrow> KVServer go" where
  "StartKVServer n i ps maxstate =
     bindE (Make (CmdInt 0) n i ps) (\<lambda>r.
     Inr \<lparr>kvme = i, rf = r, maxraftstate = maxstate, db = (\<lambda>_. None), promise = (\<lambda>_. None),
          waiting = (\<lambda>_. None), nextChan = 0, muHeld = False\<rparr>)"

subsection \<open>The database refines the model of the checker\<close>

text \<open>The string a key stands for: a key that is not there reads as the empty string.\<close>

definition valueAt :: "(string \<Rightarrow> string option) \<Rightarrow> string \<Rightarrow> string" where
  "valueAt d k = (case d k of None \<Rightarrow> '''' | Some v \<Rightarrow> v)"

definition inputOf :: "PutAppendArgs \<Rightarrow> kvval" where
  "inputOf args = InKv \<lparr>Op = (if paOp args = ''Put'' then 1 else 2), Key = paKey args, KvValue = paValue args\<rparr>"

lemma applyDb_step:
  "kvStep (valueAt d k) (inputOf args) (OutKv r) = Inr (True, valueAt (applyDb args d) k)" if "paKey args = k"
  using that by (auto simp: kvStep_def inputOf_def valueAt_def applyDb_def split: option.splits)

lemma applyDb_other: "paKey args \<noteq> k \<Longrightarrow> applyDb args d k = d k"
  by (auto simp: applyDb_def split: option.splits)

lemma fold_applyDb_runs:
  "runs (KvModel f) (valueAt d k) (map (\<lambda>a. (inputOf a, OutKv r)) (filter (\<lambda>a. paKey a = k) cmds)
      @ [(InKv \<lparr>Op = 0, Key = k, KvValue = ''''\<rparr>, OutKv \<lparr>OutValue = v\<rparr>)]) \<longleftrightarrow> v = valueAt (fold applyDb cmds d) k"
proof (induction cmds arbitrary: d)
  case Nil
  show ?case by (simp add: KvModel_def kvStep_def)
next
  case (Cons a cmds)
  show ?case
  proof (cases "paKey a = k")
    case True
    then show ?thesis using Cons [of "applyDb a d"] applyDb_step [of a k d r] by (simp add: KvModel_def)
  next
    case False
    then have "valueAt (applyDb a d) k = valueAt d k" by (simp add: valueAt_def applyDb_other)
    with False Cons [of "applyDb a d"] show ?thesis by simp
  qed
qed


definition sampleKV :: KVServer where
  "sampleKV = \<lparr>kvme = 0,
     rf = \<lparr>peers = 3, me = 0, state = Leader, currentTerm = 1, votedFor = 0,
       logs = [\<lparr>Term = 0, Index = 0, Command = CmdInt 0\<rparr>], leader = 0, electionTimer = False,
       commitIndex = -1, lastApplied = -1, nextIndex = [1, 1, 1], matchIndex = [0, 0, 0],
       persister = MakePersister, votes = (\<lambda>_. 0), hbs = [HbSelect], shutDown = False\<rparr>,
     maxraftstate = -1, db = [''x'' \<mapsto> ''ab''], promise = (\<lambda>_. None), waiting = (\<lambda>_. None),
     nextChan = 0, muHeld = False\<rparr>"

lemma node_ok_sampleKV: "node_ok (rf sampleKV)"
  by (simp add: sampleKV_def node_ok_def leader_ok_def log_ok_def less_Suc_eq All_less_Suc numeral_3_eq_3)


subsection \<open>Replies\<close>

lemma cmd_equal_iff: "cmd_equal a b \<longleftrightarrow> a = b"
  by (cases a; cases b) (auto simp: cmd_equal_def)



subsection \<open>What stops the server\<close>


text \<open>
  A leader panics on its own commands: \<open>PutAppend\<close> hands Raft a pointer, and when
  that entry is applied on the leader \<open>applyRoutine\<close> asserts the struct type.
\<close>

theorem own_command_panics:
  assumes "node_ok (rf kv)" "state (rf kv) = Leader" "\<not> muHeld kv"
  shows "\<exists>kv' ch. putAppendStart args kv = Inr (kv', Inr ch) \<and>
    (\<forall>kv''. applyRoutine (applyMsgOf (last (logs (rf kv')))) kv'' = Inl TypeAssertion)"
  using assms Start_leader [OF assms(1,2), of "CmdPtr args"]
  by (auto simp: putAppendStart_def persist_def Let_def applyRoutine_def applyMsgOf_def)

theorem own_command_panics_witness:
  "\<exists>kv' ch. putAppendStart \<lparr>paKey = ''x'', paValue = ''a'', paOp = ''Put''\<rparr> sampleKV = Inr (kv', Inr ch) \<and>
    applyRoutine (applyMsgOf (last (logs (rf kv')))) kv' = Inl TypeAssertion"
proof -
  have "state (rf sampleKV) = Leader" "\<not> muHeld sampleKV" by (simp_all add: sampleKV_def)
  from own_command_panics [OF node_ok_sampleKV this, of "\<lparr>paKey = ''x'', paValue = ''a'', paOp = ''Put''\<rparr>"]
  show ?thesis by blast
qed

text \<open>
  \<open>applyRoutine\<close> applies at most one command: it locks \<open>kv.mu\<close> in its loop and
  unlocks it by a \<open>defer\<close> that only runs when the function returns, so after one command it
  neither applies another one nor lets a leader's \<open>PutAppend\<close> register.
\<close>

theorem second_apply_deadlocks:
  assumes "applyRoutine msg kv = Inr (kv', sent)"
  shows "(\<forall>msg'. \<not> isOk (applyRoutine msg' kv')) \<and>
    (\<forall>args. node_ok (rf kv') \<and> state (rf kv') = Leader \<longrightarrow> putAppendStart args kv' = Inl Blocked)"
proof -
  have held: "muHeld kv'"
    using assms by (auto simp: applyRoutine_def bindE_eq_Inr_iff Let_def split: if_splits option.splits)
  then have "\<not> isOk (applyRoutine msg' kv')" for msg'
    by (simp add: applyRoutine_def isOk_bindE)
  moreover have "putAppendStart args kv' = Inl Blocked" if "node_ok (rf kv')" "state (rf kv') = Leader" for args
    using held Start_leader [OF that, of "CmdPtr args"] by (simp add: putAppendStart_def Let_def)
  ultimately show ?thesis by blast
qed

theorem second_apply_deadlocks_witness:
  "\<exists>kv'. applyRoutine \<lparr>CommandValid = True, MsgCommand = CmdArgs \<lparr>paKey = ''y'', paValue = ''1'', paOp = ''Put''\<rparr>,
        CommandIndex = 1\<rparr> sampleKV = Inr (kv', None) \<and> db kv' ''y'' = Some ''1'' \<and>
     \<not> isOk (applyRoutine \<lparr>CommandValid = True, MsgCommand = CmdArgs \<lparr>paKey = ''y'', paValue = ''2'', paOp = ''Put''\<rparr>,
        CommandIndex = 2\<rparr> kv')"
proof -
  let ?m = "\<lparr>CommandValid = True, MsgCommand = CmdArgs \<lparr>paKey = ''y'', paValue = ''1'', paOp = ''Put''\<rparr>, CommandIndex = 1\<rparr>"
  obtain kv' where kv': "applyRoutine ?m sampleKV = Inr (kv', None)" "db kv' ''y'' = Some ''1''"
    by (simp add: applyRoutine_def sampleKV_def Let_def applyDb_def)
  with second_apply_deadlocks [OF kv'(1)] show ?thesis by blast
qed

end
