(* ===== verification/Clerks.thy ===== *)
theory Clerks
  imports Kv_Server
begin

section \<open>Clients: the clerks of kvraft, shardmaster and shardkv\<close>

text \<open>
  The client loops of \<open>kvraft/client.go\<close>, \<open>shardmaster/client.go\<close> and \<open>shardkv/client.go\<close>,
  with the servers of the last two packages, whose handlers are still empty. The loops repeat
  until an answer is good enough and may run for ever, so they are partial functions whose
  value \<open>None\<close> means that they do not return.

  What the network does is an argument: \<open>net k i\<close> is the outcome of the \<open>k\<close>-th attempt, or of
  the \<open>k\<close>-th round, at server \<open>i\<close>.
\<close>

subsection \<open>kvraft\<close>

datatype 'r attempt = RpcTimeout | RpcDone bool 'r

record Clerk =
  nservers :: int
  maybeLeader :: int

definition MakeClerk :: "int \<Rightarrow> Clerk" where
  "MakeClerk n = \<lparr>nservers = n, maybeLeader = 0\<rparr>"

definition tryNextleader :: "Clerk \<Rightarrow> Clerk go" where
  "tryNextleader ck =
     (if nservers ck = 0 then Inl DivideByZero
      else Inr (ck\<lparr>maybeLeader := (maybeLeader ck + 1) mod nservers ck\<rparr>))"

text \<open>
  The loop that \<open>Get\<close> and \<open>PutAppend\<close> share: ask the server that may be the leader, and go
  on to the next one on a timeout or a bad answer. \<open>accept\<close> is the test on the answer.
\<close>

partial_function (option) askLeaders :: "('r \<Rightarrow> 'v option) \<Rightarrow> (nat \<Rightarrow> int \<Rightarrow> 'r attempt) \<Rightarrow> nat \<Rightarrow> Clerk
    \<Rightarrow> (Clerk \<times> 'v) go option" where
  "askLeaders accept net k ck =
     (if maybeLeader ck < 0 \<or> nservers ck \<le> maybeLeader ck then Some (Inl IndexOutOfRange)
      else (case (case net k (maybeLeader ck) of
                    RpcTimeout \<Rightarrow> None
                  | RpcDone ok reply \<Rightarrow> if ok then accept reply else None) of
              Some v \<Rightarrow> Some (Inr (ck, v))
            | None \<Rightarrow> (case tryNextleader ck of
                         Inl e \<Rightarrow> Some (Inl e)
                       | Inr ck \<Rightarrow> askLeaders accept net (k + 1) ck)))"

definition acceptGet :: "GetReply \<Rightarrow> string option" where
  "acceptGet reply = (if \<not> getWrongLeader reply then Some (getValue reply) else None)"

definition acceptPutAppend :: "PutAppendReply \<Rightarrow> unit option" where
  "acceptPutAppend reply = (if \<not> paWrongLeader reply \<and> paErr reply = OK then Some () else None)"

text \<open>\<open>srv key k i\<close> is what the RPC \<open>KVServer.Get\<close> does, \<open>srv args k i\<close> the RPC \<open>KVServer.PutAppend\<close>.\<close>

definition clerkGet :: "(GetArgs \<Rightarrow> nat \<Rightarrow> int \<Rightarrow> GetReply attempt) \<Rightarrow> string \<Rightarrow> Clerk \<Rightarrow> (Clerk \<times> string) go option" where
  "clerkGet srv key ck = askLeaders acceptGet (srv \<lparr>getKey = key\<rparr>) 0 ck"

definition clerkPutAppend :: "(PutAppendArgs \<Rightarrow> nat \<Rightarrow> int \<Rightarrow> PutAppendReply attempt)
    \<Rightarrow> string \<Rightarrow> string \<Rightarrow> string \<Rightarrow> Clerk \<Rightarrow> (Clerk \<times> unit) go option" where
  "clerkPutAppend srv key value op ck =
     askLeaders acceptPutAppend (srv \<lparr>paKey = key, paValue = value, paOp = op\<rparr>) 0 ck"

definition clerkPut :: "(PutAppendArgs \<Rightarrow> nat \<Rightarrow> int \<Rightarrow> PutAppendReply attempt)
    \<Rightarrow> string \<Rightarrow> string \<Rightarrow> Clerk \<Rightarrow> (Clerk \<times> unit) go option" where
  "clerkPut srv key value ck = clerkPutAppend srv key value ''Put'' ck"

definition clerkAppend :: "(PutAppendArgs \<Rightarrow> nat \<Rightarrow> int \<Rightarrow> PutAppendReply attempt)
    \<Rightarrow> string \<Rightarrow> string \<Rightarrow> Clerk \<Rightarrow> (Clerk \<times> unit) go option" where
  "clerkAppend srv key value ck = clerkPutAppend srv key value ''Append'' ck"

subsection \<open>shardmaster\<close>

definition NShards :: int where "NShards = 10"

record Config =
  Num :: int
  Shards :: "int list"
  Groups :: "int \<Rightarrow> string list option"

definition zeroConfig :: Config where
  "zeroConfig = \<lparr>Num = 0, Shards = replicate (nat NShards) 0, Groups = (\<lambda>_. None)\<rparr>"

record JoinArgs = joinServers :: "int \<Rightarrow> string list option"
record LeaveArgs = leaveGIDs :: "int list"
record MoveArgs = moveShard :: int moveGID :: int
record QueryArgs = queryNum :: int

text \<open>The replies of \<open>Join\<close>, \<open>Leave\<close> and \<open>Move\<close> have the same two fields.\<close>

record JoinReply =
  joinWrongLeader :: bool
  joinErr :: string

record QueryReply =
  queryWrongLeader :: bool
  queryErr :: string
  queryConfig :: Config

record SMClerk = smServers :: nat

definition smMakeClerk :: "nat \<Rightarrow> SMClerk" where
  "smMakeClerk n = \<lparr>smServers = n\<rparr>"

text \<open>One pass over the known servers: the first answer that is good.\<close>

fun askEach :: "('r \<Rightarrow> 'v option) \<Rightarrow> (nat \<Rightarrow> bool \<times> 'r) \<Rightarrow> nat list \<Rightarrow> 'v option" where
  "askEach accept net [] = None"
| "askEach accept net (i # is) =
     (case net i of (ok, reply) \<Rightarrow>
        (case (if ok then accept reply else None) of Some v \<Rightarrow> Some v | None \<Rightarrow> askEach accept net is))"

partial_function (option) askRounds :: "('r \<Rightarrow> 'v option) \<Rightarrow> (nat \<Rightarrow> nat \<Rightarrow> bool \<times> 'r) \<Rightarrow> nat \<Rightarrow> SMClerk \<Rightarrow> 'v option" where
  "askRounds accept net k ck =
     (case askEach accept (net k) [0..<smServers ck] of
        Some v \<Rightarrow> Some v
      | None \<Rightarrow> askRounds accept net (k + 1) ck)"

definition smQuery :: "(QueryArgs \<Rightarrow> nat \<Rightarrow> nat \<Rightarrow> bool \<times> QueryReply) \<Rightarrow> int \<Rightarrow> SMClerk \<Rightarrow> Config option" where
  "smQuery net num ck =
     askRounds (\<lambda>r. if \<not> queryWrongLeader r then Some (queryConfig r) else None) (net \<lparr>queryNum = num\<rparr>) 0 ck"

definition smJoin :: "(JoinArgs \<Rightarrow> nat \<Rightarrow> nat \<Rightarrow> bool \<times> JoinReply) \<Rightarrow> (int \<Rightarrow> string list option) \<Rightarrow> SMClerk \<Rightarrow> unit option" where
  "smJoin net servers ck =
     askRounds (\<lambda>r. if \<not> joinWrongLeader r then Some () else None) (net \<lparr>joinServers = servers\<rparr>) 0 ck"

definition smLeave :: "(LeaveArgs \<Rightarrow> nat \<Rightarrow> nat \<Rightarrow> bool \<times> JoinReply) \<Rightarrow> int list \<Rightarrow> SMClerk \<Rightarrow> unit option" where
  "smLeave net gids ck =
     askRounds (\<lambda>r. if \<not> joinWrongLeader r then Some () else None) (net \<lparr>leaveGIDs = gids\<rparr>) 0 ck"

definition smMove :: "(MoveArgs \<Rightarrow> nat \<Rightarrow> nat \<Rightarrow> bool \<times> JoinReply) \<Rightarrow> int \<Rightarrow> int \<Rightarrow> SMClerk \<Rightarrow> unit option" where
  "smMove net shard gid ck =
     askRounds (\<lambda>r. if \<not> joinWrongLeader r then Some () else None) (net \<lparr>moveShard = shard, moveGID = gid\<rparr>) 0 ck"

text \<open>The server: its handlers leave the reply as the caller allocated it.\<close>

record 'c ShardMaster =
  smMe :: int
  smRf :: "'c Raft"
  configs :: "Config list"

definition handleJoin :: "JoinArgs \<Rightarrow> 'c ShardMaster \<Rightarrow> 'c ShardMaster \<times> JoinReply" where
  "handleJoin args sm = (sm, \<lparr>joinWrongLeader = False, joinErr = ''''\<rparr>)"

definition handleLeave :: "LeaveArgs \<Rightarrow> 'c ShardMaster \<Rightarrow> 'c ShardMaster \<times> JoinReply" where
  "handleLeave args sm = (sm, \<lparr>joinWrongLeader = False, joinErr = ''''\<rparr>)"

definition handleMove :: "MoveArgs \<Rightarrow> 'c ShardMaster \<Rightarrow> 'c ShardMaster \<times> JoinReply" where
  "handleMove args sm = (sm, \<lparr>joinWrongLeader = False, joinErr = ''''\<rparr>)"

definition handleQuery :: "QueryArgs \<Rightarrow> 'c ShardMaster \<Rightarrow> 'c ShardMaster \<times> QueryReply" where
  "handleQuery args sm = (sm, \<lparr>queryWrongLeader = False, queryErr = '''', queryConfig = zeroConfig\<rparr>)"

definition smKill :: "'c ShardMaster \<Rightarrow> 'c ShardMaster go" where
  "smKill sm = bindE (Kill (smRf sm)) (\<lambda>r. Inr (sm\<lparr>smRf := r\<rparr>))"

definition smRaft :: "'c ShardMaster \<Rightarrow> 'c Raft" where
  "smRaft sm = smRf sm"

definition smStartServer :: "'c \<Rightarrow> int \<Rightarrow> int \<Rightarrow> 'c gobval list Persister \<Rightarrow> 'c ShardMaster go" where
  "smStartServer zero n i ps =
     bindE (Make zero n i ps) (\<lambda>r. Inr \<lparr>smMe = i, smRf = r, configs = [zeroConfig]\<rparr>)"

subsection \<open>shardkv\<close>

definition key2shard :: "string \<Rightarrow> int" where
  "key2shard key = (let shard = (if 0 < length key then of_char (key ! 0) else 0) in shard mod NShards)"

definition ErrWrongGroup :: string where "ErrWrongGroup = ''ErrWrongGroup''"

record ShardClerk =
  skSm :: SMClerk
  skConfig :: Config

definition skMakeClerk :: "nat \<Rightarrow> ShardClerk" where
  "skMakeClerk masters = \<lparr>skSm = smMakeClerk masters, skConfig = zeroConfig\<rparr>"

text \<open>
  The servers of one group in turn, until an answer is good (\<open>Some (Some v)\<close>); a server that
  is not responsible ends the pass, as the last server does (\<open>None\<close>).
\<close>

fun askGroup :: "('r \<Rightarrow> 'v option) \<Rightarrow> ('r \<Rightarrow> string) \<Rightarrow> (string \<Rightarrow> bool \<times> 'r) \<Rightarrow> string list \<Rightarrow> 'v option" where
  "askGroup accept err net [] = None"
| "askGroup accept err net (s # servers) =
     (case net s of (ok, reply) \<Rightarrow>
        (case (if ok then accept reply else None) of
           Some v \<Rightarrow> Some v
         | None \<Rightarrow> if ok \<and> err reply = ErrWrongGroup then None else askGroup accept err net servers))"

text \<open>The loop of \<open>Get\<close> and \<open>PutAppend\<close>; \<open>master k\<close> is the network of the \<open>k\<close>-th query.\<close>

partial_function (option) askShards :: "('r \<Rightarrow> 'v option) \<Rightarrow> ('r \<Rightarrow> string) \<Rightarrow> (nat \<Rightarrow> string \<Rightarrow> bool \<times> 'r)
    \<Rightarrow> (nat \<Rightarrow> QueryArgs \<Rightarrow> nat \<Rightarrow> nat \<Rightarrow> bool \<times> QueryReply) \<Rightarrow> string \<Rightarrow> nat \<Rightarrow> ShardClerk \<Rightarrow> (ShardClerk \<times> 'v) go option" where
  "askShards accept err net master key k ck =
     (case go_nth (Shards (skConfig ck)) (key2shard key) of
        Inl e \<Rightarrow> Some (Inl e)
      | Inr gid \<Rightarrow>
          (case (case Groups (skConfig ck) gid of
                   Some servers \<Rightarrow> askGroup accept err (net k) servers
                 | None \<Rightarrow> None) of
             Some v \<Rightarrow> Some (Inr (ck, v))
           | None \<Rightarrow> Option.bind (smQuery (master k) (-1) (skSm ck)) (\<lambda>config.
               askShards accept err net master key (k + 1) (ck\<lparr>skConfig := config\<rparr>))))"

definition acceptShardGet :: "GetReply \<Rightarrow> string option" where
  "acceptShardGet reply =
     (if \<not> getWrongLeader reply \<and> (getErr reply = OK \<or> getErr reply = ErrNoKey) then Some (getValue reply) else None)"

definition skGet :: "(GetArgs \<Rightarrow> nat \<Rightarrow> string \<Rightarrow> bool \<times> GetReply) \<Rightarrow> (nat \<Rightarrow> QueryArgs \<Rightarrow> nat \<Rightarrow> nat \<Rightarrow> bool \<times> QueryReply)
    \<Rightarrow> string \<Rightarrow> ShardClerk \<Rightarrow> (ShardClerk \<times> string) go option" where
  "skGet net master key ck = askShards acceptShardGet getErr (net \<lparr>getKey = key\<rparr>) master key 0 ck"

definition skPutAppend :: "(PutAppendArgs \<Rightarrow> nat \<Rightarrow> string \<Rightarrow> bool \<times> PutAppendReply)
    \<Rightarrow> (nat \<Rightarrow> QueryArgs \<Rightarrow> nat \<Rightarrow> nat \<Rightarrow> bool \<times> QueryReply)
    \<Rightarrow> string \<Rightarrow> string \<Rightarrow> string \<Rightarrow> ShardClerk \<Rightarrow> (ShardClerk \<times> unit) go option" where
  "skPutAppend net master key value op ck =
     askShards acceptPutAppend paErr (net \<lparr>paKey = key, paValue = value, paOp = op\<rparr>) master key 0 ck"

definition skPut :: "(PutAppendArgs \<Rightarrow> nat \<Rightarrow> string \<Rightarrow> bool \<times> PutAppendReply)
    \<Rightarrow> (nat \<Rightarrow> QueryArgs \<Rightarrow> nat \<Rightarrow> nat \<Rightarrow> bool \<times> QueryReply)
    \<Rightarrow> string \<Rightarrow> string \<Rightarrow> ShardClerk \<Rightarrow> (ShardClerk \<times> unit) go option" where
  "skPut net master key value ck = skPutAppend net master key value ''Put'' ck"

definition skAppend :: "(PutAppendArgs \<Rightarrow> nat \<Rightarrow> string \<Rightarrow> bool \<times> PutAppendReply)
    \<Rightarrow> (nat \<Rightarrow> QueryArgs \<Rightarrow> nat \<Rightarrow> nat \<Rightarrow> bool \<times> QueryReply)
    \<Rightarrow> string \<Rightarrow> string \<Rightarrow> ShardClerk \<Rightarrow> (ShardClerk \<times> unit) go option" where
  "skAppend net master key value ck = skPutAppend net master key value ''Append'' ck"

text \<open>The server of the package, whose handlers are empty too.\<close>

record 'c ShardKV =
  skMe :: int
  skRf :: "'c Raft"
  skGid :: int
  skMax :: int

definition handleShardGet :: "GetArgs \<Rightarrow> 'c ShardKV \<Rightarrow> 'c ShardKV \<times> GetReply" where
  "handleShardGet args kv = (kv, \<lparr>getWrongLeader = False, getErr = '''', getValue = ''''\<rparr>)"

definition handleShardPutAppend :: "PutAppendArgs \<Rightarrow> 'c ShardKV \<Rightarrow> 'c ShardKV \<times> PutAppendReply" where
  "handleShardPutAppend args kv = (kv, \<lparr>paWrongLeader = False, paErr = ''''\<rparr>)"

definition skKill :: "'c ShardKV \<Rightarrow> 'c ShardKV go" where
  "skKill kv = bindE (Kill (skRf kv)) (\<lambda>r. Inr (kv\<lparr>skRf := r\<rparr>))"

definition skStartServer :: "'c \<Rightarrow> int \<Rightarrow> int \<Rightarrow> 'c gobval list Persister \<Rightarrow> int \<Rightarrow> int \<Rightarrow> 'c ShardKV go" where
  "skStartServer zero n i ps maxstate gid =
     bindE (Make zero n i ps) (\<lambda>r. Inr \<lparr>skMe = i, skRf = r, skGid = gid, skMax = maxstate\<rparr>)"

subsection \<open>The kvraft clerk finds the leader\<close>

definition attemptValue :: "('r \<Rightarrow> 'v option) \<Rightarrow> 'r attempt \<Rightarrow> 'v option" where
  "attemptValue accept a = (case a of RpcTimeout \<Rightarrow> None | RpcDone ok reply \<Rightarrow> if ok then accept reply else None)"

lemma askLeaders_unfold:
  "0 \<le> maybeLeader ck \<Longrightarrow> maybeLeader ck < nservers ck \<Longrightarrow>
     askLeaders accept net k ck =
       (case attemptValue accept (net k (maybeLeader ck)) of
          Some v \<Rightarrow> Some (Inr (ck, v))
        | None \<Rightarrow> askLeaders accept net (k + 1) (ck\<lparr>maybeLeader := (maybeLeader ck + 1) mod nservers ck\<rparr>))"
proof -
  assume l: "0 \<le> maybeLeader ck" "maybeLeader ck < nservers ck"
  then have "tryNextleader ck = Inr (ck\<lparr>maybeLeader := (maybeLeader ck + 1) mod nservers ck\<rparr>)"
    by (simp add: tryNextleader_def)
  with l show ?thesis
    by (subst askLeaders.simps) (auto simp: attemptValue_def split: attempt.splits option.splits)
qed

lemma askLeaders_returns:
  assumes "askLeaders accept net k ck = Some res"
  shows "0 \<le> maybeLeader ck \<longrightarrow> maybeLeader ck < nservers ck \<longrightarrow>
    (\<exists>ck' v j. res = Inr (ck', v) \<and> attemptValue accept (net j (maybeLeader ck')) = Some v)"
  using assms
proof (rule askLeaders.raw_induct [rotated])
  fix ask accept net k ck res
  assume ih: "\<And>accept net k ck res. ask accept net k ck = Some res \<Longrightarrow>
      0 \<le> maybeLeader ck \<longrightarrow> maybeLeader ck < nservers ck \<longrightarrow>
      (\<exists>ck' v j. res = Inr (ck', v) \<and> attemptValue accept (net j (maybeLeader ck')) = Some v)"
    and eq: "(if maybeLeader ck < 0 \<or> nservers ck \<le> maybeLeader ck then Some (Inl IndexOutOfRange)
      else (case (case net k (maybeLeader ck) of
                    RpcTimeout \<Rightarrow> None
                  | RpcDone ok reply \<Rightarrow> if ok then accept reply else None) of
              Some v \<Rightarrow> Some (Inr (ck, v))
            | None \<Rightarrow> (case tryNextleader ck of
                         Inl e \<Rightarrow> Some (Inl e)
                       | Inr ck \<Rightarrow> ask accept net (k + 1) ck))) = Some res"
  let ?ck = "ck\<lparr>maybeLeader := (maybeLeader ck + 1) mod nservers ck\<rparr>"
  show "0 \<le> maybeLeader ck \<longrightarrow> maybeLeader ck < nservers ck \<longrightarrow>
    (\<exists>ck' v j. res = Inr (ck', v) \<and> attemptValue accept (net j (maybeLeader ck')) = Some v)"
  proof (intro impI)
    assume l: "0 \<le> maybeLeader ck" "maybeLeader ck < nservers ck"
    with eq have r: "(case attemptValue accept (net k (maybeLeader ck)) of Some v \<Rightarrow> Some (Inr (ck, v))
        | None \<Rightarrow> ask accept net (k + 1) ?ck) = Some res"
      by (auto simp: attemptValue_def tryNextleader_def split: attempt.splits option.splits if_splits)
    show "\<exists>ck' v j. res = Inr (ck', v) \<and> attemptValue accept (net j (maybeLeader ck')) = Some v"
    proof (cases "attemptValue accept (net k (maybeLeader ck))")
      case None
      with r have "ask accept net (k + 1) ?ck = Some res" by simp
      from ih [OF this] l show ?thesis by simp
    qed (use r in auto)
  qed
qed

lemma askLeaders_within:
  assumes "0 \<le> maybeLeader ck" "maybeLeader ck < nservers ck"
    and "\<And>j. attemptValue accept (net j ((maybeLeader ck + int d) mod nservers ck)) \<noteq> None"
  shows "\<exists>j \<le> d. \<exists>v. askLeaders accept net k ck = Some (Inr (ck\<lparr>maybeLeader := (maybeLeader ck + int j) mod nservers ck\<rparr>, v)) \<and>
    attemptValue accept (net (k + j) ((maybeLeader ck + int j) mod nservers ck)) = Some v"
  using assms
proof (induction d arbitrary: k ck)
  case 0
  then have "(maybeLeader ck + int 0) mod nservers ck = maybeLeader ck" by simp
  with 0 show ?case
    using askLeaders_unfold [of ck accept net k] by (auto split: option.splits)
next
  case (Suc d)
  let ?n = "nservers ck"
  have self: "(maybeLeader ck + int 0) mod ?n = maybeLeader ck" using Suc.prems by simp
  show ?case
  proof (cases "attemptValue accept (net k (maybeLeader ck))")
    case (Some v)
    then show ?thesis
      using askLeaders_unfold [OF Suc.prems(1,2), of accept net k] self by (intro exI [of _ 0]) simp
  next
    case None
    let ?ck = "ck\<lparr>maybeLeader := (maybeLeader ck + 1) mod ?n\<rparr>"
    have shift: "(maybeLeader ?ck + int j) mod ?n = (maybeLeader ck + int (Suc j)) mod ?n" for j
      by (simp add: mod_simps algebra_simps)
    have ok: "0 \<le> maybeLeader ?ck" "maybeLeader ?ck < nservers ?ck" using Suc.prems by simp_all
    have "\<exists>j \<le> d. \<exists>v. askLeaders accept net (k + 1) ?ck =
        Some (Inr (?ck\<lparr>maybeLeader := (maybeLeader ?ck + int j) mod nservers ?ck\<rparr>, v)) \<and>
        attemptValue accept (net (k + 1 + j) ((maybeLeader ?ck + int j) mod nservers ?ck)) = Some v"
      using Suc.prems(3) shift [of d] by (intro Suc.IH ok) simp
    then obtain j v where "j \<le> d"
      "askLeaders accept net (k + 1) ?ck = Some (Inr (ck\<lparr>maybeLeader := (maybeLeader ck + int (Suc j)) mod ?n\<rparr>, v))"
      "attemptValue accept (net (k + Suc j) ((maybeLeader ck + int (Suc j)) mod ?n)) = Some v"
      using shift by auto
    with None askLeaders_unfold [OF Suc.prems(1,2), of accept net k] show ?thesis
      by (intro exI [of _ "Suc j"]) auto
  qed
qed

lemma distance_to: "0 \<le> l \<Longrightarrow> l < n \<Longrightarrow> 0 \<le> L \<Longrightarrow> L < n \<Longrightarrow> \<exists>d < nat n. (l + int d) mod n = (L :: int)"
proof (intro exI conjI)
  assume a: "0 \<le> l" "l < n" "0 \<le> L" "L < n"
  then have b: "0 \<le> (L - l) mod n" "(L - l) mod n < n" by simp_all
  then show "nat ((L - l) mod n) < nat n" using a by linarith
  show "(l + int (nat ((L - l) mod n))) mod n = L" using a b by (simp add: mod_add_right_eq)
qed

text \<open>
  Claim C18. The clerk's \<open>Get\<close> finds the leader: if some server would answer every attempt as a
  leader, \<open>Get\<close> returns after fewer attempts than there are servers plus one, with the value
  that a server which claimed to lead answered in that attempt, and it remembers that server.
\<close>

theorem clerkGet_finds_leader:
  assumes "0 \<le> maybeLeader ck" "maybeLeader ck < nservers ck" "0 \<le> L" "L < nservers ck"
    and "\<And>k. \<exists>r. srv \<lparr>getKey = key\<rparr> k L = RpcDone True r \<and> \<not> getWrongLeader r"
  shows "\<exists>ck' r k. int k < nservers ck \<and> clerkGet srv key ck = Some (Inr (ck', getValue r)) \<and>
    srv \<lparr>getKey = key\<rparr> k (maybeLeader ck') = RpcDone True r \<and> \<not> getWrongLeader r"
proof -
  obtain d where d: "d < nat (nservers ck)" "(maybeLeader ck + int d) mod nservers ck = L"
    using distance_to [OF assms(1-4)] by blast
  have "attemptValue acceptGet (srv \<lparr>getKey = key\<rparr> j L) \<noteq> None" for j
    using assms(5) [of j] by (auto simp: attemptValue_def acceptGet_def)
  then obtain j v where j: "j \<le> d"
    "clerkGet srv key ck = Some (Inr (ck\<lparr>maybeLeader := (maybeLeader ck + int j) mod nservers ck\<rparr>, v))"
    "attemptValue acceptGet (srv \<lparr>getKey = key\<rparr> j ((maybeLeader ck + int j) mod nservers ck)) = Some v"
    using askLeaders_within [OF assms(1,2), of acceptGet "srv \<lparr>getKey = key\<rparr>" d 0] d
    by (auto simp: clerkGet_def)
  then show ?thesis
    using d(1) by (auto simp: attemptValue_def acceptGet_def split: attempt.splits if_splits
        intro!: exI [of _ j] exI [of _ "ck\<lparr>maybeLeader := (maybeLeader ck + int j) mod nservers ck\<rparr>"])
qed

theorem clerkGet_finds_leader_witness:
  "\<exists>ck'. clerkGet (\<lambda>args k i. if i = 2 then RpcDone True \<lparr>getWrongLeader = False, getErr = '''', getValue = ''v''\<rparr>
      else RpcTimeout) ''x'' (MakeClerk 3) = Some (Inr (ck', ''v''))"
proof -
  let ?r = "\<lparr>getWrongLeader = False, getErr = '''', getValue = ''v''\<rparr>"
  let ?srv = "\<lambda>args k i. if i = 2 then RpcDone True ?r else RpcTimeout"
  have "\<exists>ck' r k. int k < nservers (MakeClerk 3) \<and> clerkGet ?srv ''x'' (MakeClerk 3) = Some (Inr (ck', getValue r)) \<and>
    ?srv \<lparr>getKey = ''x''\<rparr> k (maybeLeader ck') = RpcDone True r \<and> \<not> getWrongLeader r"
    by (rule clerkGet_finds_leader [of _ 2]) (simp_all add: MakeClerk_def)
  then show ?thesis by (auto split: if_splits)
qed

text \<open>
  \<open>PutAppend\<close> of the clerk returns only with the success of a server: whatever the
  network does, if it returns then in that last attempt the server it remembers answered, did
  not deny being the leader, and reported \<open>OK\<close>; and with at least one server it never panics.
\<close>

theorem clerkPutAppend_returns_on_OK:
  assumes "clerkPutAppend srv key value op ck = Some res" "0 \<le> maybeLeader ck" "maybeLeader ck < nservers ck"
  shows "\<exists>ck' r k. res = Inr (ck', ()) \<and>
    srv \<lparr>paKey = key, paValue = value, paOp = op\<rparr> k (maybeLeader ck') = RpcDone True r \<and>
    \<not> paWrongLeader r \<and> paErr r = OK"
proof -
  from askLeaders_returns [OF assms(1) [unfolded clerkPutAppend_def]] assms(2,3) obtain ck' j where
    "res = Inr (ck', ())" "attemptValue acceptPutAppend (srv \<lparr>paKey = key, paValue = value, paOp = op\<rparr> j (maybeLeader ck')) = Some ()"
    by auto
  then show ?thesis
    by (auto simp: attemptValue_def acceptPutAppend_def split: attempt.splits if_splits)
qed

theorem clerkPutAppend_returns_on_OK_witness:
  "\<exists>ck'. clerkPutAppend (\<lambda>args k i. if i = 1 then RpcDone True \<lparr>paWrongLeader = False, paErr = OK\<rparr> else RpcTimeout)
       ''x'' ''1'' ''Put'' (MakeClerk 2) = Some (Inr (ck', ())) \<and> maybeLeader ck' = 1"
proof -
  let ?srv = "\<lambda>args k i. if i = 1 then RpcDone True \<lparr>paWrongLeader = False, paErr = OK\<rparr> else RpcTimeout"
  have res: "clerkPutAppend ?srv ''x'' ''1'' ''Put'' (MakeClerk 2) = Some (Inr (\<lparr>nservers = 2, maybeLeader = 1\<rparr>, ()))"
    by (simp add: clerkPutAppend_def MakeClerk_def askLeaders.simps [of _ _ 0] askLeaders.simps [of _ _ "Suc 0"]
        tryNextleader_def acceptPutAppend_def)
  from clerkPutAppend_returns_on_OK [OF res] res show ?thesis by (auto simp: MakeClerk_def)
qed

subsection \<open>The sharded service\<close>

text \<open>
  \<open>key2shard\<close> always names a shard: for every key, the empty one included, it lies
  between 0 and \<open>NShards - 1\<close>, so that indexing \<open>Shards\<close> never panics.
\<close>

theorem key2shard_in_range:
  "0 \<le> key2shard key \<and> key2shard key < NShards \<and>
   (length (Shards c) = nat NShards \<longrightarrow> isOk (go_nth (Shards c) (key2shard key)))"
  by (simp add: key2shard_def NShards_def Let_def)

theorem key2shard_in_range_witness:
  "key2shard ''a'' = 7 \<and> isOk (go_nth (Shards zeroConfig) (key2shard ''a''))"
  using key2shard_in_range [of "''a''" zeroConfig] by (simp add: zeroConfig_def key2shard_def NShards_def)

lemma askEach_value: "askEach accept net is = Some v \<Longrightarrow> \<exists>i r. net i = (True, r) \<and> accept r = Some v"
  by (induction "is") (auto split: prod.splits if_splits option.splits)

lemma askRounds_value:
  assumes "askRounds accept net k ck = Some v"
  shows "\<exists>j i r. net j i = (True, r) \<and> accept r = Some v"
  using assms
proof (rule askRounds.raw_induct [rotated])
  fix ask accept net k ck v
  assume ih: "\<And>accept net k ck v. ask accept net k ck = Some v \<Longrightarrow> \<exists>j i r. net j i = (True, r) \<and> accept r = Some v"
    and eq: "(case askEach accept (net k) [0..<smServers ck] of Some v \<Rightarrow> Some v | None \<Rightarrow> ask accept net (k + 1) ck) = Some v"
  show "\<exists>j i r. net j i = (True, r) \<and> accept r = Some v"
  proof (cases "askEach accept (net k) [0..<smServers ck]")
    case None
    with eq have "ask accept net (k + 1) ck = Some v" by simp
    from ih [OF this] show ?thesis .
  next
    case (Some w)
    with eq askEach_value [OF Some] show ?thesis by auto
  qed
qed

text \<open>A master whose answers, when they arrive, are those of the empty handler \<open>Query\<close>.\<close>

definition stub_master :: "(QueryArgs \<Rightarrow> nat \<Rightarrow> nat \<Rightarrow> bool \<times> QueryReply) \<Rightarrow> bool" where
  "stub_master net \<longleftrightarrow>
     (\<forall>args k i r (sm :: int ShardMaster). net args k i = (True, r) \<longrightarrow> r = snd (handleQuery args sm))"

lemma smQuery_stub: "stub_master net \<Longrightarrow> smQuery net num ck = Some c \<Longrightarrow> c = zeroConfig"
proof -
  assume stub: "stub_master net" and "smQuery net num ck = Some c"
  then obtain j i r where r: "net \<lparr>queryNum = num\<rparr> j i = (True, r)"
    "(if \<not> queryWrongLeader r then Some (queryConfig r) else None) = Some c"
    unfolding smQuery_def by (blast dest: askRounds_value)
  then have "r = \<lparr>queryWrongLeader = False, queryErr = '''', queryConfig = zeroConfig\<rparr>"
    using stub by (auto simp: stub_master_def handleQuery_def)
  with r(2) show ?thesis by simp
qed

lemma key2shard_zeroConfig: "go_nth (Shards zeroConfig) (key2shard key) = Inr 0"
proof -
  have "0 \<le> key2shard key" "key2shard key < 10" by (simp_all add: key2shard_def NShards_def Let_def)
  then show ?thesis by (simp add: go_nth_def zeroConfig_def NShards_def)
qed

lemma askShards_never:
  assumes "askShards accept err net master key k ck = Some res"
  shows "(\<forall>k. stub_master (master k)) \<longrightarrow> skConfig ck \<noteq> zeroConfig"
  using assms
proof (rule askShards.raw_induct [rotated])
  fix ask accept err net master key k and ck :: ShardClerk and res
  assume ih: "\<And>accept err net master key k ck res. ask accept err net master key k ck = Some res \<Longrightarrow>
      (\<forall>k. stub_master (master k)) \<longrightarrow> skConfig ck \<noteq> zeroConfig"
    and eq: "(case go_nth (Shards (skConfig ck)) (key2shard key) of
        Inl e \<Rightarrow> Some (Inl e)
      | Inr gid \<Rightarrow>
          (case (case Groups (skConfig ck) gid of
                   Some servers \<Rightarrow> askGroup accept err (net k) servers
                 | None \<Rightarrow> None) of
             Some v \<Rightarrow> Some (Inr (ck, v))
           | None \<Rightarrow> Option.bind (smQuery (master k) (-1) (skSm ck)) (\<lambda>config.
               ask accept err net master key (k + 1) (ck\<lparr>skConfig := config\<rparr>)))) = Some res"
  show "(\<forall>k. stub_master (master k)) \<longrightarrow> skConfig ck \<noteq> zeroConfig"
  proof (intro impI notI)
    assume stub: "\<forall>k. stub_master (master k)" and z: "skConfig ck = zeroConfig"
    have "Groups zeroConfig 0 = None" by (simp add: zeroConfig_def)
    with eq z obtain c where c: "smQuery (master k) (-1) (skSm ck) = Some c"
      "ask accept err net master key (k + 1) (ck\<lparr>skConfig := c\<rparr>) = Some res"
      by (auto simp: key2shard_zeroConfig bind_eq_Some_conv)
    from ih [OF c(2)] smQuery_stub [OF _ c(1)] stub show False by auto
  qed
qed

text \<open>
  Claim C20. The sharded service is a skeleton: the handlers of \<open>shardmaster/server.go\<close> leave
  the reply unset, so a query of any master that answers yields the configuration with no
  groups, and a new clerk of \<open>shardkv\<close> never returns from \<open>Get\<close> or \<open>PutAppend\<close>, whatever the
  key and whatever the network does.
\<close>

theorem shardkv_never_returns:
  assumes "\<And>k. stub_master (master k)"
  shows "(\<forall>c. smQuery (master k) num ck = Some c \<longrightarrow> c = zeroConfig) \<and>
    skGet getNet master key (skMakeClerk n) = None \<and>
    skPutAppend putNet master key value op (skMakeClerk n) = None"
proof -
  have z: "skConfig (skMakeClerk n) = zeroConfig" by (simp add: skMakeClerk_def)
  have "skGet getNet master key (skMakeClerk n) = None" "skPutAppend putNet master key value op (skMakeClerk n) = None"
    unfolding skGet_def skPutAppend_def using askShards_never z assms by (metis option.exhaust)+
  with smQuery_stub [OF assms] show ?thesis by blast
qed

theorem shardkv_never_returns_witness:
  "skGet (\<lambda>_ _ _. (True, \<lparr>getWrongLeader = False, getErr = '''', getValue = ''''\<rparr>))
     (\<lambda>_ _ _ _. (True, \<lparr>queryWrongLeader = False, queryErr = '''', queryConfig = zeroConfig\<rparr>)) ''x'' (skMakeClerk 3) = None"
proof -
  have "stub_master (\<lambda>_ _ _. (True, \<lparr>queryWrongLeader = False, queryErr = '''', queryConfig = zeroConfig\<rparr>))"
    by (simp add: stub_master_def handleQuery_def)
  from shardkv_never_returns [OF this] show ?thesis by blast
qed

end
