(* ===== verification/Lab_Rpc.thy ===== *)
theory Lab_Rpc
  imports Go_Prelude
begin

section \<open>labrpc: the simulated network\<close>

text \<open>
  \<open>labrpc/labrpc.go\<close>: the network of the tests, its servers and services, and the life of one
  request. Names of ends and of servers are type parameters (\<open>interface{}\<close>). A \<open>*Server\<close> is an
  address, since \<open>IsServerDead\<close> compares pointers. Encoded arguments and replies are values of a
  type parameter; a method is the function that decodes its argument, runs on the receiver and
  encodes its reply, and the receivers are a shared state \<open>'o\<close> that all methods work on.

  \<open>ProcessReq\<close> runs as a goroutine per request, with the handler in a goroutine of its own. Its
  state is \<open>req_pc\<close>; \<open>req_step\<close> has one rule per step and lets the tester reconfigure the network
  and other requests change the receivers between any two of them. Random decisions (loss,
  delay) are free choices.
\<close>

subsection \<open>Messages, services and servers\<close>

record ('e, 'b) reqMsg =
  endname :: 'e
  svcMeth :: string
  rqArgs :: 'b

record 'b replyMsg =
  rpOk :: bool
  rpReply :: "'b option"

definition noReply :: "'b replyMsg" where
  "noReply = \<lparr>rpOk = False, rpReply = None\<rparr>"

record ('o, 'b) Service =
  svcName :: string
  methods :: "string \<Rightarrow> ('b \<Rightarrow> 'o \<Rightarrow> ('o \<times> 'b) go) option"

text \<open>What \<open>reflect\<close> tells of a method, and the methods that \<open>MakeService\<close> takes as handlers.\<close>

record ('o, 'b) goMethod =
  mname :: string
  exported :: bool
  numIn :: int
  replyIsPtr :: bool
  numOut :: int
  func :: "'b \<Rightarrow> 'o \<Rightarrow> ('o \<times> 'b) go"

definition isHandler :: "('o, 'b) goMethod \<Rightarrow> bool" where
  "isHandler m \<longleftrightarrow> \<not> (\<not> exported m \<or> numIn m \<noteq> 3 \<or> \<not> replyIsPtr m \<or> numOut m \<noteq> 0)"

definition MakeService :: "string \<Rightarrow> ('o, 'b) goMethod list \<Rightarrow> ('o, 'b) Service" where
  "MakeService typeName ms =
     \<lparr>svcName = typeName,
      methods = fold (\<lambda>m tab. if isHandler m then tab(mname m \<mapsto> func m) else tab) ms (\<lambda>_. None)\<rparr>"

definition svcDispatch :: "('o, 'b) Service \<Rightarrow> string \<Rightarrow> ('e, 'b) reqMsg \<Rightarrow> 'o \<Rightarrow> ('o \<times> 'b replyMsg) go" where
  "svcDispatch svc methname req w =
     (case methods svc methname of
        Some method \<Rightarrow> bindE (method (rqArgs req) w) (\<lambda>(w, rb). Inr (w, \<lparr>rpOk = True, rpReply = Some rb\<rparr>))
      | None \<Rightarrow> Inl LogFatal)"

record ('o, 'b) Server =
  services :: "string \<Rightarrow> ('o, 'b) Service option"
  svCount :: int

definition MakeServer :: "('o, 'b) Server" where
  "MakeServer = \<lparr>services = (\<lambda>_. None), svCount = 0\<rparr>"

definition AddService :: "('o, 'b) Service \<Rightarrow> ('o, 'b) Server \<Rightarrow> ('o, 'b) Server" where
  "AddService svc rs = rs\<lparr>services := (services rs)(svcName svc \<mapsto> svc)\<rparr>"

definition svGetCount :: "('o, 'b) Server \<Rightarrow> int" where
  "svGetCount rs = svCount rs"

text \<open>\<open>strings.LastIndex(s, ".")\<close>.\<close>

definition lastDot :: "string \<Rightarrow> int" where
  "lastDot s = (let r = takeWhile (\<lambda>c. c \<noteq> CHR ''.'') (rev s) in int (length s) - 1 - int (length r))"

text \<open>
  \<open>Server.dispatch\<close>: the count goes up under the lock; with no dot in the name the slice
  \<open>svcMeth[:-1]\<close> panics.
\<close>

definition countRpc :: "('o, 'b) Server \<Rightarrow> ('o, 'b) Server" where
  "countRpc rs = rs\<lparr>svCount := svCount rs + 1\<rparr>"

definition dispatch :: "('o, 'b) Server \<Rightarrow> ('e, 'b) reqMsg \<Rightarrow> 'o \<Rightarrow> ('o \<times> 'b replyMsg) go" where
  "dispatch rs req w =
     (let dot = lastDot (svcMeth req) in
      bindE (go_slice (svcMeth req) 0 dot) (\<lambda>serviceName.
      bindE (go_slice (svcMeth req) (dot + 1) (int (length (svcMeth req)))) (\<lambda>methodName.
      case services rs serviceName of
        Some service \<Rightarrow> svcDispatch service methodName req w
      | None \<Rightarrow> Inl LogFatal)))"

subsection \<open>The network\<close>

record ('e, 'n) Network =
  reliable :: bool
  longDelays :: bool
  longReordering :: bool
  ends :: "'e \<Rightarrow> bool"
  enabled :: "'e \<Rightarrow> bool"
  servers :: "'n \<Rightarrow> nat option"
  connections :: "'e \<Rightarrow> 'n option"
  netDone :: bool
  netCount :: "32 word"

definition MakeNetwork :: "('e, 'n) Network" where
  "MakeNetwork = \<lparr>reliable = True, longDelays = False, longReordering = False, ends = (\<lambda>_. False), enabled = (\<lambda>_. False),
     servers = (\<lambda>_. None), connections = (\<lambda>_. None), netDone = False, netCount = 0\<rparr>"

definition Cleanup :: "('e, 'n) Network \<Rightarrow> ('e, 'n) Network go" where
  "Cleanup rn = (if netDone rn then Inl CloseOfClosedChannel else Inr (rn\<lparr>netDone := True\<rparr>))"

definition Reliable :: "bool \<Rightarrow> ('e, 'n) Network \<Rightarrow> ('e, 'n) Network" where
  "Reliable yes rn = rn\<lparr>reliable := yes\<rparr>"

definition LongReordering :: "bool \<Rightarrow> ('e, 'n) Network \<Rightarrow> ('e, 'n) Network" where
  "LongReordering yes rn = rn\<lparr>longReordering := yes\<rparr>"

definition LongDelays :: "bool \<Rightarrow> ('e, 'n) Network \<Rightarrow> ('e, 'n) Network" where
  "LongDelays yes rn = rn\<lparr>longDelays := yes\<rparr>"

record 'n EndInfo =
  iEnabled :: bool
  iServername :: "'n option"
  iServer :: "nat option"
  iReliable :: bool
  iLongreordering :: bool

definition ReadEndnameInfo :: "'e \<Rightarrow> ('e, 'n) Network \<Rightarrow> 'n EndInfo" where
  "ReadEndnameInfo e rn =
     \<lparr>iEnabled = enabled rn e, iServername = connections rn e,
      iServer = (case connections rn e of None \<Rightarrow> None | Some n \<Rightarrow> servers rn n),
      iReliable = reliable rn, iLongreordering = longReordering rn\<rparr>"

definition IsServerDead :: "'e \<Rightarrow> 'n \<Rightarrow> nat \<Rightarrow> ('e, 'n) Network \<Rightarrow> bool" where
  "IsServerDead e n srv rn \<longleftrightarrow> \<not> enabled rn e \<or> servers rn n \<noteq> Some srv"

definition MakeEnd :: "'e \<Rightarrow> ('e, 'n) Network \<Rightarrow> ('e, 'n) Network go" where
  "MakeEnd e rn =
     (if ends rn e then Inl LogFatal
      else Inr (rn\<lparr>ends := (ends rn)(e := True), enabled := (enabled rn)(e := False), connections := (connections rn)(e := None)\<rparr>))"

definition AddServer :: "'n \<Rightarrow> nat \<Rightarrow> ('e, 'n) Network \<Rightarrow> ('e, 'n) Network" where
  "AddServer n rs rn = rn\<lparr>servers := (servers rn)(n \<mapsto> rs)\<rparr>"

definition DeleteServer :: "'n \<Rightarrow> ('e, 'n) Network \<Rightarrow> ('e, 'n) Network" where
  "DeleteServer n rn = rn\<lparr>servers := (servers rn)(n := None)\<rparr>"

definition Connect :: "'e \<Rightarrow> 'n \<Rightarrow> ('e, 'n) Network \<Rightarrow> ('e, 'n) Network" where
  "Connect e n rn = rn\<lparr>connections := (connections rn)(e \<mapsto> n)\<rparr>"

definition Enable :: "'e \<Rightarrow> bool \<Rightarrow> ('e, 'n) Network \<Rightarrow> ('e, 'n) Network" where
  "Enable e yes rn = rn\<lparr>enabled := (enabled rn)(e := yes)\<rparr>"

definition netGetCount :: "(nat \<Rightarrow> ('o, 'b) Server) \<Rightarrow> 'n \<Rightarrow> ('e, 'n) Network \<Rightarrow> int go" where
  "netGetCount heap n rn = (case servers rn n of None \<Rightarrow> Inl NilPointer | Some a \<Rightarrow> Inr (svGetCount (heap a)))"

definition GetTotalCount :: "('e, 'n) Network \<Rightarrow> int" where
  "GetTotalCount rn = sint (netCount rn)"

subsection \<open>One request\<close>

text \<open>
  \<open>ReqSent\<close>: handed to the network, or the network is cleaned up. \<open>ReqWaiting\<close>: the loop of
  \<open>ProcessReq\<close>, with the server it read at the start and what the handler has put on \<open>ech\<close> so
  far. \<open>ReqReplying\<close>: after the loop. \<open>ReqDone\<close>: what the caller receives.
\<close>

datatype ('n, 'b) req_pc =
    ReqSent
  | ReqWaiting 'n nat bool bool "'b replyMsg option"
  | ReqReplying 'n nat bool bool "'b replyMsg option"
  | ReqDone "'b replyMsg"

text \<open>\<open>ProcessReq\<close> until the handler is started; \<open>lose\<close> is the random choice on an unreliable network.\<close>

definition beginReq :: "bool \<Rightarrow> 'e \<Rightarrow> ('e, 'n) Network \<Rightarrow> ('n, 'b) req_pc" where
  "beginReq lose e rn =
     (let i = ReadEndnameInfo e rn in
      case (iEnabled i, iServername i, iServer i) of
        (True, Some n, Some srv) \<Rightarrow>
          if \<not> iReliable i \<and> lose then ReqDone noReply else ReqWaiting n srv (iReliable i) (iLongreordering i) None
      | _ \<Rightarrow> ReqDone noReply)"

text \<open>After the loop: the server may have been deleted, and the reply may be lost.\<close>

definition finishReq :: "bool \<Rightarrow> 'e \<Rightarrow> 'n \<Rightarrow> nat \<Rightarrow> bool \<Rightarrow> 'b replyMsg option \<Rightarrow> ('e, 'n) Network \<Rightarrow> 'b replyMsg" where
  "finishReq lose e n srv rel r rn =
     (if r = None \<or> IsServerDead e n srv rn then noReply
      else if \<not> rel \<and> lose then noReply
      else the r)"

text \<open>The end of \<open>ClientEnd.Call\<close>: a positive reply is decoded, and a reply that cannot be decoded ends the process.\<close>

definition callResult :: "('b \<Rightarrow> 'v option) \<Rightarrow> 'b replyMsg \<Rightarrow> (bool \<times> 'v option) go" where
  "callResult decode rep =
     (if rpOk rep then
        (case Option.bind (rpReply rep) decode of None \<Rightarrow> Inl LogFatal | Some v \<Rightarrow> Inr (True, Some v))
      else Inr (False, None))"

record ('e, 'n, 'o, 'b) RpcState =
  net :: "('e, 'n) Network"
  heap :: "nat \<Rightarrow> ('o, 'b) Server"
  obj :: 'o
  pc :: "('n, 'b) req_pc"

definition sendReq :: "('e, 'n, 'o, 'b) RpcState \<Rightarrow> ('e, 'n, 'o, 'b) RpcState" where
  "sendReq s = s\<lparr>net := (net s)\<lparr>netCount := netCount (net s) + 1\<rparr>\<rparr>"

inductive req_step :: "('e, 'b) reqMsg \<Rightarrow> ('e, 'n, 'o, 'b) RpcState \<Rightarrow> ('e, 'n, 'o, 'b) RpcState \<Rightarrow> bool"
  for req :: "('e, 'b) reqMsg" where
  cleaned_up: "pc s = ReqSent \<Longrightarrow> netDone (net s) \<Longrightarrow> req_step req s (s\<lparr>pc := ReqDone noReply\<rparr>)"
| process: "pc s = ReqSent \<Longrightarrow> req_step req s ((sendReq s)\<lparr>pc := beginReq lose (endname req) (net s)\<rparr>)"
| handle: "pc s = ReqWaiting n srv rel lr None \<Longrightarrow> dispatch (heap s srv) req (obj s) = Inr (w', r) \<Longrightarrow>
    req_step req s (s\<lparr>heap := (heap s)(srv := countRpc (heap s srv)), obj := w', pc := ReqWaiting n srv rel lr (Some r)\<rparr>)"
| handled: "pc s = ReqWaiting n srv rel lr (Some r) \<Longrightarrow> req_step req s (s\<lparr>pc := ReqReplying n srv rel lr (Some r)\<rparr>)"
| timer: "pc s = ReqWaiting n srv rel lr r \<Longrightarrow> IsServerDead (endname req) n srv (net s) \<Longrightarrow>
    req_step req s (s\<lparr>pc := ReqReplying n srv rel lr None\<rparr>)"
| finish: "pc s = ReqReplying n srv rel lr r \<Longrightarrow> req_step req s (s\<lparr>pc := ReqDone (finishReq lose (endname req) n srv rel r (net s))\<rparr>)"
| environment: "req_step req s (s\<lparr>net := rn, heap := h, obj := w'\<rparr>)"

text \<open>
  \<open>ClientEnd.Call\<close> on the end \<open>e\<close>: the arguments are encoded, the request is handed to the network in
  state \<open>s0\<close> (or the network has been cleaned up), and \<open>res\<close> is what the caller gets in state \<open>s\<close>.
\<close>

definition callReq :: "('a \<Rightarrow> 'b) \<Rightarrow> 'e \<Rightarrow> string \<Rightarrow> 'a \<Rightarrow> ('e, 'b) reqMsg" where
  "callReq encode e meth args = \<lparr>endname = e, svcMeth = meth, rqArgs = encode args\<rparr>"

definition Call :: "('a \<Rightarrow> 'b) \<Rightarrow> ('b \<Rightarrow> 'v option) \<Rightarrow> 'e \<Rightarrow> string \<Rightarrow> 'a \<Rightarrow> ('e, 'n, 'o, 'b) RpcState \<Rightarrow> ('e, 'n, 'o, 'b) RpcState \<Rightarrow> (bool \<times> 'v option) go \<Rightarrow> bool" where
  "Call encode decode e meth args s0 s res \<longleftrightarrow> pc s0 = ReqSent \<and> reachable_from (req_step (callReq encode e meth args)) s0 s \<and>
     (\<exists>rep. pc s = ReqDone rep \<and> res = callResult decode rep)"

subsection \<open>Properties\<close>

lemma lastDot_split:
  assumes "CHR ''.'' \<notin> set m"
  shows "lastDot (s @ ''.'' @ m) = int (length s)"
proof -
  have "takeWhile (\<lambda>c. c \<noteq> CHR ''.'') (rev m @ CHR ''.'' # rev s) = rev m"
    using assms by (subst takeWhile_append2) auto
  then show ?thesis by (simp add: lastDot_def)
qed

lemma lastDot_none: "CHR ''.'' \<notin> set s \<Longrightarrow> lastDot s = -1"
proof -
  assume "CHR ''.'' \<notin> set s"
  then have "takeWhile (\<lambda>c. c \<noteq> CHR ''.'') (rev s) = rev s" by (auto simp: takeWhile_eq_all_conv)
  then have "length (takeWhile (\<lambda>c. c \<noteq> CHR ''.'') (rev s)) = length s" by (metis length_rev)
  then show ?thesis by (simp add: lastDot_def)
qed

text \<open>
  Claim C30. \<open>Server.dispatch\<close> calls the method \<open>m\<close> of the service \<open>s\<close> on a request for \<open>s.m\<close>, where
  the last dot separates the two; the process ends when the service or the method is not known,
  and the slice expression panics when the name has no dot. A reply that comes back is positive.
\<close>

theorem dispatch_contract:
  fixes req :: "('e, 'b) reqMsg" and rs :: "('o, 'b) Server"
  shows "(\<forall>s m. CHR ''.'' \<notin> set m \<longrightarrow> svcMeth req = s @ ''.'' @ m \<longrightarrow>
      dispatch rs req w =
        (case services rs s of
           None \<Rightarrow> Inl LogFatal
         | Some svc \<Rightarrow> (case methods svc m of
             None \<Rightarrow> Inl LogFatal
           | Some f \<Rightarrow> bindE (f (rqArgs req) w) (\<lambda>(w', rb). Inr (w', \<lparr>rpOk = True, rpReply = Some rb\<rparr>))))) \<and>
    (CHR ''.'' \<notin> set (svcMeth req) \<longrightarrow> dispatch rs req w = Inl SliceBoundsOutOfRange)"
proof (intro conjI allI impI)
  fix s m
  assume m: "CHR ''.'' \<notin> set m" and req: "svcMeth req = s @ ''.'' @ m"
  have "go_slice (s @ ''.'' @ m) 0 (int (length s)) = Inr s"
    "go_slice (s @ ''.'' @ m) (int (length s) + 1) (int (length (s @ ''.'' @ m))) = Inr m"
    by (simp_all add: go_slice_def nat_add_distrib)
  then show "dispatch rs req w =
        (case services rs s of
           None \<Rightarrow> Inl LogFatal
         | Some svc \<Rightarrow> (case methods svc m of
             None \<Rightarrow> Inl LogFatal
           | Some f \<Rightarrow> bindE (f (rqArgs req) w) (\<lambda>(w', rb). Inr (w', \<lparr>rpOk = True, rpReply = Some rb\<rparr>))))"
    unfolding dispatch_def req lastDot_split [OF m] Let_def by (simp add: svcDispatch_def split: option.splits)
qed (simp add: dispatch_def lastDot_none go_slice_def)

definition echoServer :: "(int, string) Server" where
  "echoServer = AddService (MakeService ''Echo''
     [\<lparr>mname = ''Say'', exported = True, numIn = 3, replyIsPtr = True, numOut = 0, func = (\<lambda>b n. Inr (n + 1, rev b))\<rparr>,
      \<lparr>mname = ''hidden'', exported = False, numIn = 3, replyIsPtr = True, numOut = 0, func = (\<lambda>b n. Inr (n, b))\<rparr>]) MakeServer"

definition echoReq :: "string \<Rightarrow> (int, string) reqMsg" where
  "echoReq meth = \<lparr>endname = 7, svcMeth = ''Echo.'' @ meth, rqArgs = ''ab''\<rparr>"

theorem dispatch_contract_witness:
  "dispatch echoServer (echoReq ''Say'') 0 = Inr (1, \<lparr>rpOk = True, rpReply = Some ''ba''\<rparr>) \<and>
    dispatch echoServer (echoReq ''hidden'') 0 = Inl LogFatal"
proof -
  have "svcMeth (echoReq m) = ''Echo'' @ ''.'' @ m" for m by (simp add: echoReq_def)
  then have "dispatch echoServer (echoReq m) 0 =
        (case services echoServer ''Echo'' of
           None \<Rightarrow> Inl LogFatal
         | Some svc \<Rightarrow> (case methods svc m of
             None \<Rightarrow> Inl LogFatal
           | Some f \<Rightarrow> bindE (f (rqArgs (echoReq m)) 0) (\<lambda>(w', rb). Inr (w', \<lparr>rpOk = True, rpReply = Some rb\<rparr>))))"
    if "CHR ''.'' \<notin> set m" for m
    using dispatch_contract [of "echoReq m" echoServer 0] that by blast
  from this [of "''Say''"] this [of "''hidden''"] show ?thesis
    by (simp add: echoServer_def AddService_def MakeServer_def MakeService_def isHandler_def echoReq_def)
qed

text \<open>What is on the way to the caller comes from a run of the handler on the server read at the start.\<close>

definition genuine :: "('e, 'b) reqMsg \<Rightarrow> ('e, 'n, 'o, 'b) RpcState \<Rightarrow> nat \<Rightarrow> 'b replyMsg \<Rightarrow> bool" where
  "genuine req s0 srv r \<longleftrightarrow> (\<exists>u w'. reachable_from (req_step req) s0 u \<and> dispatch (heap u srv) req (obj u) = Inr (w', r))"

definition pc_ok :: "('e, 'b) reqMsg \<Rightarrow> ('e, 'n, 'o, 'b) RpcState \<Rightarrow> ('e, 'n, 'o, 'b) RpcState \<Rightarrow> bool" where
  "pc_ok req s0 s \<longleftrightarrow>
     (case pc s of
        ReqWaiting n srv rel lr (Some r) \<Rightarrow> genuine req s0 srv r
      | ReqReplying n srv rel lr (Some r) \<Rightarrow> genuine req s0 srv r
      | ReqDone r \<Rightarrow> rpOk r \<longrightarrow> (\<exists>srv. genuine req s0 srv r)
      | _ \<Rightarrow> True)"

lemma rpOk_noReply [simp]: "\<not> rpOk noReply"
  by (simp add: noReply_def)

lemma beginReq_cases: "beginReq lose e rn = ReqDone noReply \<or>
    (\<exists>n srv rel lr. beginReq lose e rn = ReqWaiting n srv rel lr None \<and> enabled rn e \<and> connections rn e = Some n \<and> servers rn n = Some srv)"
  by (auto simp: beginReq_def ReadEndnameInfo_def Let_def split: option.splits bool.splits)

lemma beginReq_pc: "x = beginReq lose e rn \<Longrightarrow> x = ReqDone noReply \<or> (\<exists>n srv rel lr. x = ReqWaiting n srv rel lr None)"
  using beginReq_cases by metis

lemma finishReq_positive: "rpOk (finishReq lose e n srv rel r rn) \<Longrightarrow>
    \<exists>x. r = Some x \<and> finishReq lose e n srv rel r rn = x \<and> enabled rn e \<and> servers rn n = Some srv"
  by (auto simp: finishReq_def IsServerDead_def split: if_splits)

lemma pc_ok_reachable:
  assumes "reachable_from (req_step req) s0 s" "pc s0 = ReqSent"
  shows "pc_ok req s0 s"
  using assms
proof (induction rule: reachable_from.induct)
  case reach_start
  then show ?case by (simp add: pc_ok_def)
next
  case (reach_step s t)
  from reach_step.hyps(2) show ?case
  proof cases
    case (process lose)
    then have "pc t = beginReq lose (endname req) (net s)" by simp
    from beginReq_pc [OF this] show ?thesis by (auto simp: pc_ok_def)
  next
    case (handle n srv rel lr w' r)
    with reach_step.hyps(1) have "genuine req s0 srv r" by (auto simp: genuine_def)
    with handle show ?thesis by (simp add: pc_ok_def)
  next
    case (finish n srv rel lr r lose)
    then have old: "case r of None \<Rightarrow> True | Some x \<Rightarrow> genuine req s0 srv x"
      using reach_step.IH [OF reach_step.prems] by (auto simp: pc_ok_def split: option.splits)
    have "\<exists>srv. genuine req s0 srv (finishReq lose (endname req) n srv' rel r (net s))"
      if "rpOk (finishReq lose (endname req) n srv' rel r (net s))" for srv'
    proof -
      from finishReq_positive [OF that] obtain x where "r = Some x" "finishReq lose (endname req) n srv' rel r (net s) = x" by blast
      with old show ?thesis by auto
    qed
    then show ?thesis by (simp add: finish pc_ok_def)
  qed (use reach_step.IH [OF reach_step.prems] in \<open>auto simp: pc_ok_def split: req_pc.splits option.splits\<close>)
qed


text \<open>On a quiet, reliable network an enabled and connected end gets the reply of the handler.\<close>

lemma reliable_call:
  assumes "pc s = ReqSent" "reliable (net s)" "enabled (net s) (endname req)" "connections (net s) (endname req) = Some n"
    "servers (net s) n = Some srv" "dispatch (heap s srv) req (obj s) = Inr (w', r)"
  shows "\<exists>u t. reachable_from (req_step req) s u \<and> req_step req u t \<and> pc u \<noteq> pc t \<and> pc t = ReqDone r \<and> obj t = w'"
proof -
  let ?s1 = "(sendReq s)\<lparr>pc := ReqWaiting n srv True (longReordering (net s)) None\<rparr>"
  have s1: "req_step req s ?s1"
    using req_step.process [OF assms(1), of req False] assms(2-5) by (simp add: beginReq_def ReadEndnameInfo_def)
  let ?s2 = "?s1\<lparr>heap := (heap ?s1)(srv := countRpc (heap ?s1 srv)), obj := w', pc := ReqWaiting n srv True (longReordering (net s)) (Some r)\<rparr>"
  have s2: "req_step req ?s1 ?s2"
    by (rule req_step.handle) (use assms(6) in \<open>simp_all add: sendReq_def\<close>)
  let ?s3 = "?s2\<lparr>pc := ReqReplying n srv True (longReordering (net s)) (Some r)\<rparr>"
  have s3: "req_step req ?s2 ?s3" by (rule req_step.handled) simp
  have fin: "finishReq False (endname req) n srv True (Some r) (net ?s3) = r"
    using assms(3,5) by (simp add: finishReq_def IsServerDead_def sendReq_def)
  have s4: "req_step req ?s3 (?s3\<lparr>pc := ReqDone (finishReq False (endname req) n srv True (Some r) (net ?s3))\<rparr>)"
    by (rule req_step.finish) simp
  have "reachable_from (req_step req) s ?s3"
    using s1 s2 s3 reach_start [of "req_step req" s] reach_step [of "req_step req" s] by meson
  moreover have "pc ?s3 \<noteq> pc (?s3\<lparr>pc := ReqDone r\<rparr>)" "pc (?s3\<lparr>pc := ReqDone r\<rparr>) = ReqDone r" "obj (?s3\<lparr>pc := ReqDone r\<rparr>) = w'"
    by simp_all
  ultimately show ?thesis using s4 unfolding fin by blast
qed

text \<open>
  A call that returns true has decoded what a handler encoded, on the request of this call; on a quiet,
  reliable network a call on an enabled end returns the reply of the handler, if it can be decoded.
\<close>

lemma Call_genuine:
  assumes "Call encode decode e meth args s0 s (Inr (True, v))"
  shows "\<exists>srv u w' r rb. reachable_from (req_step (callReq encode e meth args)) s0 u \<and> dispatch (heap u srv) (callReq encode e meth args) (obj u) = Inr (w', r) \<and>
    rpReply r = Some rb \<and> v = decode rb \<and> v \<noteq> None"
proof -
  from assms obtain rep where rep: "pc s0 = ReqSent" "reachable_from (req_step (callReq encode e meth args)) s0 s" "pc s = ReqDone rep"
    "Inr (True, v) = callResult decode rep" by (auto simp: Call_def)
  then have ok: "rpOk rep" "\<exists>rb. rpReply rep = Some rb \<and> v = decode rb \<and> v \<noteq> None"
    by (auto simp: callResult_def split: if_splits option.splits bind_splits)
  from pc_ok_reachable [OF rep(2,1)] rep(3) ok(1) obtain srv where "genuine (callReq encode e meth args) s0 srv rep" by (auto simp: pc_ok_def)
  with ok(2) show ?thesis unfolding genuine_def by blast
qed

lemma Call_reliable:
  assumes "pc s = ReqSent" "reliable (net s)" "enabled (net s) e" "connections (net s) e = Some n" "servers (net s) n = Some srv"
    and "dispatch (heap s srv) (callReq encode e meth args) (obj s) = Inr (w', r)" "rpOk r" "Option.bind (rpReply r) decode = Some v"
  shows "\<exists>t. Call encode decode e meth args s t (Inr (True, Some v)) \<and> obj t = w'"
proof -
  have e: "endname (callReq encode e meth args) = e" by (simp add: callReq_def)
  from reliable_call [OF assms(1,2) _ _ assms(5,6)] assms(3,4) obtain u t where
    t: "reachable_from (req_step (callReq encode e meth args)) s u" "req_step (callReq encode e meth args) u t" "pc t = ReqDone r" "obj t = w'" by (auto simp: e)
  then have "reachable_from (req_step (callReq encode e meth args)) s t" by (meson reach_step)
  with t(3,4) assms(1,7,8) show ?thesis unfolding Call_def by (intro exI [of _ t]) (auto simp: callResult_def)
qed

definition echoState :: "(int, string, int, string) RpcState" where
  "echoState = \<lparr>net = Enable 7 True (Connect 7 ''srv'' (AddServer ''srv'' 0 MakeNetwork)), heap = (\<lambda>_. echoServer), obj = 0, pc = ReqSent\<rparr>"


end
