(* ===== verification/Config_Net.thy ===== *)
theory Config_Net
  imports Lab_Rpc
begin

section \<open>What the test configurations share\<close>

text \<open>
  The files \<open>config.go\<close> of \<open>raft\<close>, \<open>kvraft\<close>, \<open>shardmaster\<close> and \<open>shardkv\<close> build clusters on the
  simulated network. This theory has what they share: the random names of ends, the loop that
  makes a row of ends, the shuffle of a client's ends, and the interface \<open>switchboard\<close> through
  which the configurations rely on the network: \<open>Enable\<close> changes one end and nothing else.

  Random bytes and random indices are arguments.
\<close>

subsection \<open>Names of ends\<close>

text \<open>\<open>base64.URLEncoding.EncodeToString\<close>: three bytes become four characters, the last group is padded.\<close>

definition b64char :: "nat \<Rightarrow> char" where
  "b64char d = ''ABCDEFGHIJKLMNOPQRSTUVWXYZabcdefghijklmnopqrstuvwxyz0123456789-_'' ! (d mod 64)"

definition b64group :: "nat \<Rightarrow> string" where
  "b64group v = [b64char (v div 262144), b64char (v div 4096), b64char (v div 64), b64char v]"

fun base64url :: "8 word list \<Rightarrow> string" where
  "base64url [] = []"
| "base64url [a] = take 2 (b64group (unat a * 65536)) @ ''==''"
| "base64url [a, b] = take 3 (b64group (unat a * 65536 + unat b * 256)) @ ''=''"
| "base64url (a # b # c # bs) = b64group (unat a * 65536 + unat b * 256 + unat c) @ base64url bs"

text \<open>\<open>randstring(n)\<close>; \<open>crand\<close> gives the bytes that \<open>crand.Read\<close> writes into a buffer of a given length.\<close>

definition randstring :: "(nat \<Rightarrow> 8 word list) \<Rightarrow> int \<Rightarrow> string go" where
  "randstring crand n =
     (if n < 0 then Inl MakeSliceLenOutOfRange else go_slice (base64url (crand (nat (2 * n)))) 0 n)"

lemma length_b64group [simp]: "length (b64group v) = 4"
  by (simp add: b64group_def)

lemma length_base64url: "length (base64url bs) = 4 * ((length bs + 2) div 3)"
proof (induction bs rule: base64url.induct)
  case (4 a b c bs)
  have "(length (a # b # c # bs) + 2) div 3 = (length bs + 2) div 3 + 1" by simp
  with 4 show ?case by simp
qed simp_all

lemma b64char_inject: "x < 64 \<Longrightarrow> y < 64 \<Longrightarrow> b64char x = b64char y \<longleftrightarrow> x = y"
  unfolding b64char_def by (subst nth_eq_iff_index_eq) simp_all

lemma b64char_mod: "b64char x = b64char y \<longleftrightarrow> x mod 64 = y mod 64"
proof -
  have "b64char x = b64char (x mod 64)" for x by (simp add: b64char_def)
  then show ?thesis using b64char_inject [of "x mod 64" "y mod 64"] by simp
qed

lemma b64group_inject: "v < 16777216 \<Longrightarrow> w < 16777216 \<Longrightarrow> b64group v = b64group w \<longleftrightarrow> v = w"
proof -
  have digits: "u = ((u div 262144 mod 64 * 64 + u div 4096 mod 64) * 64 + u div 64 mod 64) * 64 + u mod 64" if "u < 16777216" for u :: nat
  proof -
    have "u div 4096 = u div 64 div 64" "u div 262144 = u div 64 div 64 div 64" by (simp_all flip: div_mult2_eq)
    moreover have "u div 262144 < 64" using that by simp
    then have "u div 262144 mod 64 = u div 262144" by simp
    ultimately show ?thesis by simp
  qed
  assume "v < 16777216" "w < 16777216"
  from digits [OF this(1)] digits [OF this(2)] show ?thesis
    by (auto simp: b64group_def b64char_mod)
qed

lemma byte_inject: "x < 256 \<Longrightarrow> x' < 256 \<Longrightarrow> y * 256 + x = y' * 256 + x' \<Longrightarrow> y = y' \<and> x = (x' :: nat)"
proof -
  assume less: "x < 256" "x' < 256" and eq: "y * 256 + x = y' * 256 + x'"
  from less have "(y * 256 + x) div 256 = y" "(y' * 256 + x') div 256 = y'" by simp_all
  with eq show ?thesis by simp
qed

lemma three_bytes_inject:
  fixes a b c d e f :: "8 word"
  shows "unat a * 65536 + unat b * 256 + unat c = unat d * 65536 + unat e * 256 + unat f \<longleftrightarrow> a = d \<and> b = e \<and> c = f"
proof -
  have "unat x < 256" for x :: "8 word" using unsigned_less [of x] by simp
  note less = this [of a] this [of b] this [of c] this [of d] this [of e] this [of f]
  have "unat a = unat d \<and> unat b = unat e \<and> unat c = unat f"
    if "unat a * 65536 + unat b * 256 + unat c = unat d * 65536 + unat e * 256 + unat f"
  proof -
    have "(unat a * 256 + unat b) * 256 + unat c = (unat d * 256 + unat e) * 256 + unat f" using that by simp
    from byte_inject [OF less(3,6) this] byte_inject [OF less(2,5), of "unat a" "unat d"] show ?thesis by simp
  qed
  then show ?thesis by (auto simp: unsigned_word_eqI)
qed

lemma three_bytes_less:
  fixes a b c :: "8 word"
  shows "unat a * 65536 + unat b * 256 + unat c < 16777216"
proof -
  have "unat x < 256" for x :: "8 word" using unsigned_less [of x] by simp
  from this [of a] this [of b] this [of c] show ?thesis by simp
qed

lemma base64url_take:
  assumes "3 * k \<le> length xs" "3 * k \<le> length ys"
  shows "take (4 * k) (base64url xs) = take (4 * k) (base64url ys) \<longleftrightarrow> take (3 * k) xs = take (3 * k) ys"
  using assms
proof (induction k arbitrary: xs ys)
  case (Suc k)
  have split3: "\<exists>a b c zs'. zs = a # b # c # zs'" if "3 * Suc k \<le> length zs" for zs :: "8 word list"
  proof -
    have "3 \<le> length zs" using that by simp
    then show ?thesis by (auto simp: numeral_3_eq_3 Suc_le_length_iff)
  qed
  from split3 [OF Suc.prems(1)] split3 [OF Suc.prems(2)] obtain a b c xs' d e f ys'
    where xy: "xs = a # b # c # xs'" "ys = d # e # f # ys'" by blast
  then have "take (4 * k) (base64url xs') = take (4 * k) (base64url ys') \<longleftrightarrow> take (3 * k) xs' = take (3 * k) ys'"
    using Suc.prems by (intro Suc.IH) simp_all
  moreover have "4 * Suc k - 4 = 4 * k" by simp
  moreover have "take (3 * Suc k) (u # v # w # zs) = u # v # w # take (3 * k) zs" for u v w and zs :: "8 word list"
    by (simp add: take_Cons')
  ultimately show ?case
    unfolding xy by (simp add: b64group_inject three_bytes_less three_bytes_inject del: mult_Suc_right)
qed simp

lemma randstring_names:
  assumes "0 \<le> k" "\<And>n. length (crand n) = n" "\<And>n. length (crand' n) = n"
  shows "\<exists>s s'. randstring crand (4 * k) = Inr s \<and> randstring crand' (4 * k) = Inr s' \<and> length s = nat (4 * k) \<and>
    (s = s' \<longleftrightarrow> take (nat (3 * k)) (crand (nat (8 * k))) = take (nat (3 * k)) (crand' (nat (8 * k))))"
proof -
  let ?k = "nat k"
  have nats: "nat (4 * k) = 4 * ?k" "nat (3 * k) = 3 * ?k" "nat (8 * k) = 8 * ?k" "nat (2 * (4 * k)) = 8 * ?k" "\<not> 4 * k < 0"
    using assms(1) by simp_all
  have long: "4 * ?k \<le> length (base64url (c (8 * ?k)))" if "\<And>n. length (c n) = n" for c
    unfolding length_base64url that by simp
  have rand: "randstring c (4 * k) = Inr (take (4 * ?k) (base64url (c (8 * ?k))))" if "\<And>n. length (c n) = n" for c
    using long [OF that] assms(1) nats by (simp add: randstring_def go_slice_def)
  show ?thesis
    unfolding rand [OF assms(2)] rand [OF assms(3)] nats
    using base64url_take [of ?k "crand (8 * ?k)" "crand' (8 * ?k)"] assms(2,3) long [OF assms(2)] by simp
qed

subsection \<open>The shuffle of a client's ends\<close>

text \<open>\<open>random_handles\<close>: \<open>js ! i\<close> is the result of \<open>rand.Intn(i + 1)\<close>.\<close>

definition random_handles :: "(int \<Rightarrow> int) \<Rightarrow> 'a list \<Rightarrow> 'a list go" where
  "random_handles intn kvh = foldE (\<lambda>i sa. go_swap sa i (intn i)) [0..int (length kvh) - 1] kvh"

lemma random_handles_permutes:
  assumes "\<And>i. 0 \<le> i \<Longrightarrow> 0 \<le> intn i \<and> intn i \<le> i"
  shows "\<exists>sa. random_handles intn kvh = Inr sa \<and> mset sa = mset kvh"
proof -
  have "\<exists>sa. foldE (\<lambda>i sa. go_swap sa i (intn i)) [0..int (length kvh) - 1] kvh = Inr sa \<and>
      length sa = length kvh \<and> mset sa = mset kvh"
  proof (rule foldE_rule [where I = "\<lambda>_ sa. length sa = length kvh \<and> mset sa = mset kvh"])
    fix dn i sa
    assume sa: "length sa = length kvh \<and> mset sa = mset kvh" and i: "i \<in> set [0..int (length kvh) - 1]"
    with assms [of i] have "0 \<le> i" "i < int (length sa)" "0 \<le> intn i" "intn i < int (length sa)" by auto
    then have swap: "go_swap sa i (intn i) = Inr (sa[nat i := sa ! nat (intn i), nat (intn i) := sa ! nat i])" "nat i < length sa" "nat (intn i) < length sa"
      by (auto simp: go_swap_eq_Inr_iff)
    then have "mset (sa[nat i := sa ! nat (intn i), nat (intn i) := sa ! nat i]) = mset sa"
      using mset_swap [OF swap(3,2)] by simp
    with swap sa show "\<exists>sa'. go_swap sa i (intn i) = Inr sa' \<and> length sa' = length kvh \<and> mset sa' = mset kvh"
      by auto
  qed simp
  then show ?thesis by (auto simp: random_handles_def)
qed

subsection \<open>The switchboard of a network\<close>

text \<open>
  What a configuration relies on: after \<open>enable e b\<close> the end \<open>e\<close> is on exactly if \<open>b\<close>, the other
  ends are as before and so is everything else that can be seen of the network.
\<close>

locale switchboard =
  fixes enable :: "'e \<Rightarrow> bool \<Rightarrow> 'w \<Rightarrow> 'w" and on :: "'w \<Rightarrow> 'e \<Rightarrow> bool" and rest :: "'w \<Rightarrow> 'v"
  assumes on_enable: "on (enable e b w) x = (if x = e then b else on w x)"
    and rest_enable: "rest (enable e b w) = rest w"
begin

definition switch :: "('e \<times> bool) list \<Rightarrow> 'w \<Rightarrow> 'w" where
  "switch ops = fold (\<lambda>(e, b). enable e b) ops"

lemma switch_append: "switch (xs @ ys) w = switch ys (switch xs w)"
  by (simp add: switch_def)

lemma rest_switch [simp]: "rest (switch ops w) = rest w"
  by (induction ops arbitrary: w) (auto simp: switch_def rest_enable)

lemma on_switch_same: "(\<And>e c. (e, c) \<in> set ops \<Longrightarrow> c = b) \<Longrightarrow> on (switch ops w) x = (if (x, b) \<in> set ops then b else on w x)"
proof (induction ops arbitrary: w)
  case (Cons op ops)
  obtain e where op: "op = (e, b)" using Cons.prems by (cases op) auto
  have "on (switch ops (enable e b w)) x = (if (x, b) \<in> set ops then b else on (enable e b w) x)"
    by (rule Cons.IH) (use Cons.prems in auto)
  then show ?case by (auto simp: op switch_def on_enable)
qed (simp add: switch_def)

lemma on_switch_other: "x \<notin> fst ` set ops \<Longrightarrow> on (switch ops w) x = on w x"
  by (induction ops arbitrary: w) (auto simp: switch_def on_enable)

end

definition wires :: "('e, 'n) Network \<Rightarrow> bool \<times> bool \<times> bool \<times> ('e \<Rightarrow> bool) \<times> ('n \<Rightarrow> nat option) \<times> ('e \<Rightarrow> 'n option) \<times> bool \<times> 32 word" where
  "wires rn = (reliable rn, longDelays rn, longReordering rn, ends rn, servers rn, connections rn, netDone rn, netCount rn)"

interpretation net: switchboard Enable enabled wires
  by unfold_locales (simp_all add: Enable_def wires_def)

lemma wires_eqD:
  assumes "wires rn = wires rn'"
  shows "reliable rn = reliable rn'" "ends rn = ends rn'" "servers rn = servers rn'"
    "connections rn = connections rn'" "netDone rn = netDone rn'"
  using assms by (simp_all add: wires_def)

text \<open>
  A configuration that holds a network: \<open>onNetwork f\<close> changes the network by \<open>f\<close>. A loop that
  switches an end on or off at some of its turns does so one after the other.
\<close>

locale net_holder =
  fixes onNetwork :: "(('e, 'n) Network \<Rightarrow> ('e, 'n) Network) \<Rightarrow> 'k \<Rightarrow> 'k"
  assumes on_on: "onNetwork g (onNetwork f c) = onNetwork (\<lambda>rn. g (f rn)) c"
    and on_id: "onNetwork (\<lambda>rn. rn) c = c"
begin

lemma switch_loop:
  assumes "\<And>j f. j \<in> set js \<Longrightarrow> body j (onNetwork f c) = Inr (if P j then onNetwork (Enable (e j) b) (onNetwork f c) else onNetwork f c)"
  shows "foldE body js (onNetwork f c) = Inr (onNetwork (\<lambda>rn. net.switch (map (\<lambda>j. (e j, b)) (filter P js)) (f rn)) c)"
  using assms
proof (induction js arbitrary: f)
  case Nil
  show ?case by (simp add: net.switch_def)
next
  case (Cons j js)
  show ?case
  proof (cases "P j")
    case True
    have "foldE body js (onNetwork (\<lambda>rn. Enable (e j) b (f rn)) c) =
        Inr (onNetwork (\<lambda>rn. net.switch (map (\<lambda>j. (e j, b)) (filter P js)) (Enable (e j) b (f rn))) c)"
      by (rule Cons.IH) (use Cons.prems in auto)
    with True Cons.prems [of j f] show ?thesis by (simp add: net.switch_def on_on)
  next
    case False
    have "foldE body js (onNetwork f c) = Inr (onNetwork (\<lambda>rn. net.switch (map (\<lambda>j. (e j, b)) (filter P js)) (f rn)) c)"
      by (rule Cons.IH) (use Cons.prems in auto)
    with False Cons.prems [of j f] show ?thesis by simp
  qed
qed

lemma switch_all:
  assumes "\<And>j f. j \<in> set js \<Longrightarrow> body j (onNetwork f c) = Inr (onNetwork (Enable (e j) b) (onNetwork f c))"
  shows "foldE body js c = Inr (onNetwork (net.switch (map (\<lambda>j. (e j, b)) js)) c)"
  using switch_loop [of js body c "\<lambda>_. True" e b "\<lambda>rn. rn"] assms by (simp add: on_id)

end

lemma enabled_switch:
  "enabled (net.switch (map (\<lambda>j. (e j, b)) js) rn) x \<longleftrightarrow> (if x \<in> e ` set js then b else enabled rn x)"
  by (subst net.on_switch_same [where b = b]) auto

lemma image_nth_upto: "(\<lambda>j. f (xs ! nat j)) ` set [0..int (length xs) - 1] = f ` set xs"
proof (intro equalityI subsetI)
  fix y assume "y \<in> (\<lambda>j. f (xs ! nat j)) ` set [0..int (length xs) - 1]"
  then obtain j where "j \<in> set [0..int (length xs) - 1]" "y = f (xs ! nat j)" by blast
  then show "y \<in> f ` set xs" by (auto intro!: imageI nth_mem)
next
  fix y assume "y \<in> f ` set xs"
  then obtain k where "k < length xs" "y = f (xs ! k)" by (auto simp: in_set_conv_nth)
  then show "y \<in> (\<lambda>j. f (xs ! nat j)) ` set [0..int (length xs) - 1]" by (intro image_eqI [of _ _ "int k"]) auto
qed

text \<open>The server that a request sent on an end is processed by, if it is not lost.\<close>

definition delivered :: "'e \<Rightarrow> ('e, 'n) Network \<Rightarrow> 'n option" where
  "delivered e rn = (case (beginReq False e rn :: ('n, unit) req_pc) of ReqWaiting n _ _ _ _ \<Rightarrow> Some n | _ \<Rightarrow> None)"

lemma delivered_iff: "delivered e rn = Some n \<longleftrightarrow> enabled rn e \<and> connections rn e = Some n \<and> servers rn n \<noteq> None"
  by (auto simp: delivered_def beginReq_def ReadEndnameInfo_def Let_def split: option.splits bool.splits)

subsection \<open>Rows of ends\<close>

text \<open>\<open>MakeEnd\<close> and \<open>Connect\<close> for each \<open>j\<close>; \<open>live\<close> in the configurations that enable the ends at once.\<close>

definition makeEnds :: "(int \<Rightarrow> 'e) \<Rightarrow> (int \<Rightarrow> 'n) \<Rightarrow> int list \<Rightarrow> ('e, 'n) Network \<Rightarrow> ('e, 'n) Network go" where
  "makeEnds name target = foldE (\<lambda>j rn. bindE (MakeEnd (name j) rn) (\<lambda>rn. Inr (Connect (name j) (target j) rn)))"

definition makeLiveEnds :: "(int \<Rightarrow> 'e) \<Rightarrow> (int \<Rightarrow> 'n) \<Rightarrow> int list \<Rightarrow> ('e, 'n) Network \<Rightarrow> ('e, 'n) Network go" where
  "makeLiveEnds name target = foldE (\<lambda>j rn. bindE (MakeEnd (name j) rn) (\<lambda>rn.
     Inr (Enable (name j) True (Connect (name j) (target j) rn))))"

lemma makeEnds_fresh:
  assumes "inj_on name (set js)" "\<And>j. j \<in> set js \<Longrightarrow> \<not> ends rn (name j)" "distinct js"
  shows "\<exists>rn'. makeEnds name target js rn = Inr rn' \<and>
    ends rn' = (\<lambda>e. ends rn e \<or> e \<in> name ` set js) \<and>
    enabled rn' = (\<lambda>e. enabled rn e \<and> e \<notin> name ` set js) \<and>
    (\<forall>j\<in>set js. connections rn' (name j) = Some (target j)) \<and>
    (\<forall>e. e \<notin> name ` set js \<longrightarrow> connections rn' e = connections rn e) \<and>
    servers rn' = servers rn \<and> netDone rn' = netDone rn \<and> reliable rn' = reliable rn"
  using assms
proof (induction js arbitrary: rn)
  case Nil
  show ?case by (simp add: makeEnds_def)
next
  case (Cons j js)
  let ?rn = "Connect (name j) (target j) (rn\<lparr>ends := (ends rn)(name j := True), enabled := (enabled rn)(name j := False), connections := (connections rn)(name j := None)\<rparr>)"
  have eq: "makeEnds name target (j # js) rn = makeEnds name target js ?rn"
    using Cons.prems(2) [of j] by (simp add: makeEnds_def MakeEnd_def)
  have new: "name j \<notin> name ` set js" using Cons.prems(1,3) by (auto simp: inj_on_def)
  have "\<exists>rn'. makeEnds name target js ?rn = Inr rn' \<and>
    ends rn' = (\<lambda>e. ends ?rn e \<or> e \<in> name ` set js) \<and>
    enabled rn' = (\<lambda>e. enabled ?rn e \<and> e \<notin> name ` set js) \<and>
    (\<forall>j\<in>set js. connections rn' (name j) = Some (target j)) \<and>
    (\<forall>e. e \<notin> name ` set js \<longrightarrow> connections rn' e = connections ?rn e) \<and>
    servers rn' = servers ?rn \<and> netDone rn' = netDone ?rn \<and> reliable rn' = reliable ?rn"
    by (rule Cons.IH) (use Cons.prems new in \<open>auto simp: Connect_def inj_on_def\<close>)
  then obtain rn' where rn': "makeEnds name target js ?rn = Inr rn'" "ends rn' = (\<lambda>e. ends ?rn e \<or> e \<in> name ` set js)"
    "enabled rn' = (\<lambda>e. enabled ?rn e \<and> e \<notin> name ` set js)" "\<forall>j\<in>set js. connections rn' (name j) = Some (target j)"
    "\<forall>e. e \<notin> name ` set js \<longrightarrow> connections rn' e = connections ?rn e"
    "servers rn' = servers ?rn" "netDone rn' = netDone ?rn" "reliable rn' = reliable ?rn" by blast
  show ?case
    unfolding eq by (rule exI [of _ rn']) (use rn' new in \<open>auto simp: Connect_def fun_eq_iff\<close>)
qed

text \<open>
  A table of ends in which row \<open>i\<close> is replaced by new names: if the ends of the rows that were made
  are all different, they still are.
\<close>

lemma new_row_distinct:
  assumes entry: "\<And>a b. a \<in> R \<Longrightarrow> b \<in> R \<Longrightarrow> E' a b = (if a = i then name b else E a b)"
    and row: "\<And>a. a \<in> R \<Longrightarrow> made' a \<longleftrightarrow> a = i \<or> made a"
    and inj: "inj_on name R" and new: "\<And>a b c. a \<in> R \<Longrightarrow> b \<in> R \<Longrightarrow> c \<in> R \<Longrightarrow> made a \<Longrightarrow> E a b \<noteq> name c"
    and old: "\<And>a b c d. a \<in> R \<Longrightarrow> b \<in> R \<Longrightarrow> c \<in> R \<Longrightarrow> d \<in> R \<Longrightarrow> made a \<Longrightarrow> made c \<Longrightarrow> E a b = E c d \<Longrightarrow> a = c \<and> b = d"
    and at: "a \<in> R" "b \<in> R" "c \<in> R" "d \<in> R" "made' a" "made' c" "E' a b = E' c d"
  shows "a = c \<and> b = d"
proof -
  have eq: "(if a = i then name b else E a b) = (if c = i then name d else E c d)"
    using entry [OF at(1,2)] entry [OF at(3,4)] at(7) by simp
  consider "a = i" "c = i" | "a = i" "c \<noteq> i" | "a \<noteq> i" "c = i" | "a \<noteq> i" "c \<noteq> i" by blast
  then show ?thesis
  proof cases
    case 1
    with eq inj_onD [OF inj, of b d] at(2,4) show ?thesis by simp
  next
    case 2
    with eq new [OF at(3,4,2)] row [OF at(3)] at(6) show ?thesis by simp
  next
    case 3
    with eq new [OF at(1,2,4)] row [OF at(1)] at(5) show ?thesis by simp
  next
    case 4
    with eq row [OF at(1)] row [OF at(3)] at(5,6) have "made a" "made c" "E a b = E c d" by simp_all
    then show ?thesis by (rule old [OF at(1-4)])
  qed
qed

text \<open>While the rows are made one after the other, the names of the next row are new.\<close>

lemma next_row_fresh:
  assumes inj: "\<And>i j k l. i \<in> R \<Longrightarrow> j \<in> R \<Longrightarrow> k \<in> R \<Longrightarrow> l \<in> R \<Longrightarrow> randname i j = randname k l \<Longrightarrow> i = k \<and> j = l"
    and "i \<in> R" "D \<subseteq> R" "i \<notin> D" "\<And>e. ends rn e \<Longrightarrow> \<exists>k\<in>D. \<exists>j\<in>R. e = randname k j"
  shows "inj_on (randname i) R" "j \<in> R \<Longrightarrow> \<not> ends rn (randname i j)"
proof -
  show "inj_on (randname i) R" using inj [of i _ i] assms(2) by (intro inj_onI) blast
  assume j: "j \<in> R"
  show "\<not> ends rn (randname i j)"
  proof
    assume "ends rn (randname i j)"
    with assms(5) obtain k l where "k \<in> D" "l \<in> R" "randname i j = randname k l" by blast
    with inj [of i j k l] assms(2-4) j show False by blast
  qed
qed

text \<open>\<open>makeEnds\<close> succeeds only on new names, because \<open>MakeEnd\<close> ends the process on a name in use.\<close>

lemma makeEnds_Inr:
  assumes "makeEnds name target js rn = Inr rn'"
  shows "distinct js \<longrightarrow> inj_on name (set js) \<and> (\<forall>j\<in>set js. \<not> ends rn (name j))"
  using assms
proof (induction js arbitrary: rn)
  case (Cons j js)
  then have new: "\<not> ends rn (name j)" by (auto simp: makeEnds_def MakeEnd_def)
  let ?rn = "Connect (name j) (target j) (rn\<lparr>ends := (ends rn)(name j := True), enabled := (enabled rn)(name j := False), connections := (connections rn)(name j := None)\<rparr>)"
  have "makeEnds name target js ?rn = Inr rn'" using Cons.prems new by (simp add: makeEnds_def MakeEnd_def)
  note IH = Cons.IH [OF this]
  have ends: "ends ?rn e \<longleftrightarrow> e = name j \<or> ends rn e" for e by (simp add: Connect_def)
  show ?case
  proof
    assume "distinct (j # js)"
    with IH have inj: "inj_on name (set js)" and fresh: "\<And>k. k \<in> set js \<Longrightarrow> name k \<noteq> name j \<and> \<not> ends rn (name k)"
      unfolding ends by auto
    have "name j \<notin> name ` (set js - {j})" using fresh by force
    with inj new fresh show "inj_on name (set (j # js)) \<and> (\<forall>k\<in>set (j # js). \<not> ends rn (name k))" by simp
  qed
qed simp

end
