(* ===== verification/Kv_Config.thy ===== *)
theory Kv_Config
  imports Clerks Config_Net
begin

section \<open>kvraft/config.go and shardmaster/config.go: test configurations of the services\<close>

text \<open>
  The two files have the same operations, up to the type of the servers and a few statistics. The
  record \<open>svc_config\<close> and the operations on it are polymorphic in the server; \<open>kv_config\<close> extends
  the record with the fields that only \<open>kvraft\<close> has. The operations that use a server take what
  they use of it (its Raft instance, \<open>Kill\<close>, the function that starts it) as arguments and are
  instantiated for both packages.

  As in \<open>raft/config.go\<close>, the content of \<open>saved[i]\<close> is in the persister of the server while it runs.
  The mutex is not modelled: \<open>connect\<close>, \<open>disconnect\<close>, \<open>ConnectClient\<close> and \<open>DisconnectClient\<close> are the
  operations on the name \<open>Unlocked\<close> between lock and unlock. A clerk is an address.
\<close>

subsection \<open>State\<close>

record ('s, 'c, 'o, 'b) svc_config =
  scNet :: "(string, int) Network"
  scHeap :: "('o, 'b) Server list"
  scN :: int
  scServers :: "'s option list"
  scSaved :: "'c gobval list Persister option list"
  scEndnames :: "string list list"
  scClerks :: "nat \<rightharpoonup> string list"
  scNextClientId :: int
  scStart :: int

record ('o, 'b) kv_config = "(KVServer, kvcmd, 'o, 'b) svc_config" +
  kcMaxraftstate :: int
  kcT0 :: int
  kcRpcs0 :: int
  kcOps :: "32 word"

definition onSc :: "((string, int) Network \<Rightarrow> (string, int) Network) \<Rightarrow> ('s, 'c, 'o, 'b, 'z) svc_config_scheme \<Rightarrow> ('s, 'c, 'o, 'b, 'z) svc_config_scheme" where
  "onSc f cfg = cfg\<lparr>scNet := f (scNet cfg)\<rparr>"

definition scEndname :: "('s, 'c, 'o, 'b, 'z) svc_config_scheme \<Rightarrow> int \<Rightarrow> int \<Rightarrow> string go" where
  "scEndname cfg i j = bindE (go_nth (scEndnames cfg) i) (\<lambda>row. go_nth row j)"

subsection \<open>Connections between servers\<close>

definition connectUnlocked :: "int \<Rightarrow> int list \<Rightarrow> ('s, 'c, 'o, 'b, 'z) svc_config_scheme \<Rightarrow> ('s, 'c, 'o, 'b, 'z) svc_config_scheme go" where
  "connectUnlocked i to cfg =
     bindE (foldE (\<lambda>j cfg. bindE (scEndname cfg i j) (\<lambda>e. Inr (onSc (Enable e True) cfg))) to cfg) (\<lambda>cfg.
     foldE (\<lambda>j cfg. bindE (scEndname cfg j i) (\<lambda>e. Inr (onSc (Enable e True) cfg))) to cfg)"

text \<open>The second loop asks whether row \<open>j\<close> is nil and then uses row \<open>from[j]\<close>.\<close>

definition disconnectUnlocked :: "int \<Rightarrow> int list \<Rightarrow> ('s, 'c, 'o, 'b, 'z) svc_config_scheme \<Rightarrow> ('s, 'c, 'o, 'b, 'z) svc_config_scheme go" where
  "disconnectUnlocked i from cfg =
     bindE (foldE (\<lambda>j cfg.
       bindE (go_nth (scEndnames cfg) i) (\<lambda>row.
       if row \<noteq> [] then bindE (scEndname cfg i j) (\<lambda>e. Inr (onSc (Enable e False) cfg)) else Inr cfg)) from cfg) (\<lambda>cfg.
     foldE (\<lambda>j cfg.
       bindE (go_nth (scEndnames cfg) j) (\<lambda>row.
       if row \<noteq> [] then
         bindE (go_nth from j) (\<lambda>k. bindE (scEndname cfg k i) (\<lambda>e. Inr (onSc (Enable e False) cfg)))
       else Inr cfg)) [0..int (length from) - 1] cfg)"

definition AllServers :: "('s, 'c, 'o, 'b, 'z) svc_config_scheme \<Rightarrow> int list" where
  "AllServers cfg = [0..scN cfg - 1]"

definition ConnectAll :: "('s, 'c, 'o, 'b, 'z) svc_config_scheme \<Rightarrow> ('s, 'c, 'o, 'b, 'z) svc_config_scheme go" where
  "ConnectAll cfg = foldE (\<lambda>i cfg. connectUnlocked i (AllServers cfg) cfg) [0..scN cfg - 1] cfg"

definition partition :: "int list \<Rightarrow> int list \<Rightarrow> ('s, 'c, 'o, 'b, 'z) svc_config_scheme \<Rightarrow> ('s, 'c, 'o, 'b, 'z) svc_config_scheme go" where
  "partition p1 p2 cfg =
     bindE (foldE (\<lambda>i cfg. bindE (disconnectUnlocked i p2 cfg) (connectUnlocked i p1)) p1 cfg) (\<lambda>cfg.
     foldE (\<lambda>i cfg. bindE (disconnectUnlocked i p1 cfg) (connectUnlocked i p2)) p2 cfg)"

subsection \<open>Clients\<close>

text \<open>\<open>cfg.clerks[ck]\<close> of a clerk that is not there is the nil slice.\<close>

definition clerkEnds :: "('s, 'c, 'o, 'b, 'z) svc_config_scheme \<Rightarrow> nat \<Rightarrow> string list" where
  "clerkEnds cfg ck = (case scClerks cfg ck of None \<Rightarrow> [] | Some es \<Rightarrow> es)"

definition ConnectClientUnlocked :: "nat \<Rightarrow> int list \<Rightarrow> ('s, 'c, 'o, 'b, 'z) svc_config_scheme \<Rightarrow> ('s, 'c, 'o, 'b, 'z) svc_config_scheme go" where
  "ConnectClientUnlocked ck to cfg =
     (let es = clerkEnds cfg ck in
      foldE (\<lambda>j cfg. bindE (go_nth es j) (\<lambda>s. Inr (onSc (Enable s True) cfg))) to cfg)"

definition DisconnectClientUnlocked :: "nat \<Rightarrow> int list \<Rightarrow> ('s, 'c, 'o, 'b, 'z) svc_config_scheme \<Rightarrow> ('s, 'c, 'o, 'b, 'z) svc_config_scheme go" where
  "DisconnectClientUnlocked ck from cfg =
     (let es = clerkEnds cfg ck in
      foldE (\<lambda>j cfg. bindE (go_nth es j) (\<lambda>s. Inr (onSc (Enable s False) cfg))) from cfg)"

text \<open>
  \<open>makeClient\<close>: \<open>ck\<close> is the address of the new clerk, \<open>intn\<close> the random numbers of the shuffle.
  The result also has the names of the ends in the order in which the clerk knows its servers;
  \<open>mkClerk\<close> is the \<open>MakeClerk\<close> of the package.
\<close>

definition makeClient :: "(string list \<Rightarrow> 'k) \<Rightarrow> (int \<Rightarrow> string) \<Rightarrow> (int \<Rightarrow> int) \<Rightarrow> nat \<Rightarrow> int list \<Rightarrow> ('s, 'c, 'o, 'b, 'z) svc_config_scheme \<Rightarrow>
    (('s, 'c, 'o, 'b, 'z) svc_config_scheme \<times> string list \<times> 'k) go" where
  "makeClient mkClerk randname intn ck to cfg =
     (let es = map randname [0..scN cfg - 1] in
      bindE (makeEnds randname (\<lambda>j. j) [0..scN cfg - 1] (scNet cfg)) (\<lambda>rn.
      bindE (random_handles intn es) (\<lambda>handles.
      let cfg = cfg\<lparr>scNet := rn, scClerks := (scClerks cfg)(ck \<mapsto> es), scNextClientId := scNextClientId cfg + 1\<rparr> in
      bindE (ConnectClientUnlocked ck to cfg) (\<lambda>cfg.
      Inr (cfg, handles, mkClerk handles)))))"

text \<open>\<open>deleteClient\<close> removes files named like the ends (\<open>rm\<close>) and forgets the clerk.\<close>

definition deleteClient :: "(string \<Rightarrow> 'fs \<Rightarrow> 'fs) \<Rightarrow> nat \<Rightarrow> 'fs \<Rightarrow> ('s, 'c, 'o, 'b, 'z) svc_config_scheme \<Rightarrow> 'fs \<times> ('s, 'c, 'o, 'b, 'z) svc_config_scheme" where
  "deleteClient rm ck fs cfg = (fold rm (clerkEnds cfg ck) fs, cfg\<lparr>scClerks := (scClerks cfg)(ck := None)\<rparr>)"

subsection \<open>Servers\<close>

definition scSavedNow :: "('s \<Rightarrow> 'c Raft) \<Rightarrow> ('s, 'c, 'o, 'b, 'z) svc_config_scheme \<Rightarrow> int \<Rightarrow> 'c gobval list Persister option go" where
  "scSavedNow raftOf cfg i =
     bindE (go_nth (scSaved cfg) i) (\<lambda>ps.
     bindE (go_nth (scServers cfg) i) (\<lambda>srv.
     Inr (case (ps, srv) of (Some _, Some srv) \<Rightarrow> Some (persister (raftOf srv)) | _ \<Rightarrow> ps)))"

definition shutdownServer :: "('s \<Rightarrow> 'c Raft) \<Rightarrow> ('s \<Rightarrow> 's go) \<Rightarrow> int \<Rightarrow> ('s, 'c, 'o, 'b, 'z) svc_config_scheme \<Rightarrow> ('s, 'c, 'o, 'b, 'z) svc_config_scheme go" where
  "shutdownServer raftOf kill i cfg =
     bindE (disconnectUnlocked i (AllServers cfg) cfg) (\<lambda>cfg.
     let cfg = onSc (DeleteServer i) cfg in
     bindE (scSavedNow raftOf cfg i) (\<lambda>ps.
     bindE (go_update (scSaved cfg) i (map_option Copy ps)) (\<lambda>saved.
     bindE (go_nth (scServers cfg) i) (\<lambda>srv.
     bindE (case srv of None \<Rightarrow> Inr (scServers cfg) | Some srv \<Rightarrow> bindE (kill srv) (\<lambda>_. go_update (scServers cfg) i None)) (\<lambda>srvs.
     Inr (cfg\<lparr>scSaved := saved, scServers := srvs\<rparr>))))))"

text \<open>\<open>svcs\<close>: the services that \<open>MakeService\<close> makes of the server and of its Raft instance.\<close>

definition startServer :: "('s \<Rightarrow> 'c Raft) \<Rightarrow> ('c gobval list Persister \<Rightarrow> 's go) \<Rightarrow> ('o, 'b) Service list \<Rightarrow> (int \<Rightarrow> string) \<Rightarrow> int \<Rightarrow>
    ('s, 'c, 'o, 'b, 'z) svc_config_scheme \<Rightarrow> ('s, 'c, 'o, 'b, 'z) svc_config_scheme go" where
  "startServer raftOf boot svcs randname i cfg =
     bindE (go_update (scEndnames cfg) i (map randname [0..scN cfg - 1])) (\<lambda>names.
     bindE (makeEnds randname (\<lambda>j. j) [0..scN cfg - 1] (scNet cfg)) (\<lambda>rn.
     bindE (scSavedNow raftOf cfg i) (\<lambda>ps.
     let ps = (case ps of Some ps \<Rightarrow> Copy ps | None \<Rightarrow> MakePersister) in
     bindE (go_update (scSaved cfg) i (Some ps)) (\<lambda>saved.
     bindE (boot ps) (\<lambda>srv.
     bindE (go_update (scServers cfg) i (Some srv)) (\<lambda>srvs.
     Inr (cfg\<lparr>scEndnames := names, scSaved := saved, scServers := srvs,
              scHeap := scHeap cfg @ [fold AddService svcs MakeServer],
              scNet := AddServer i (length (scHeap cfg)) rn\<rparr>)))))))"

definition kvShutdownServer :: "int \<Rightarrow> ('o, 'b) kv_config \<Rightarrow> ('o, 'b) kv_config go" where
  "kvShutdownServer = shutdownServer rf kvKill"

definition smShutdownServer :: "int \<Rightarrow> ('c ShardMaster, 'c, 'o, 'b) svc_config \<Rightarrow> ('c ShardMaster, 'c, 'o, 'b) svc_config go" where
  "smShutdownServer = shutdownServer smRf smKill"

definition kvStartServer :: "('o, 'b) goMethod list \<Rightarrow> ('o, 'b) goMethod list \<Rightarrow> (int \<Rightarrow> string) \<Rightarrow> int \<Rightarrow> ('o, 'b) kv_config \<Rightarrow> ('o, 'b) kv_config go" where
  "kvStartServer kvms rfms randname i cfg =
     startServer rf (\<lambda>ps. StartKVServer (scN cfg) i ps (kcMaxraftstate cfg)) [MakeService ''KVServer'' kvms, MakeService ''Raft'' rfms] randname i cfg"

definition smConfigStartServer :: "'c \<Rightarrow> ('o, 'b) goMethod list \<Rightarrow> ('o, 'b) goMethod list \<Rightarrow> (int \<Rightarrow> string) \<Rightarrow> int \<Rightarrow>
    ('c ShardMaster, 'c, 'o, 'b) svc_config \<Rightarrow> ('c ShardMaster, 'c, 'o, 'b) svc_config go" where
  "smConfigStartServer zero smms rfms randname i cfg =
     startServer smRf (\<lambda>ps. smStartServer zero (scN cfg) i ps) [MakeService ''ShardMaster'' smms, MakeService ''Raft'' rfms] randname i cfg"

definition scCheckTimeout :: "bool \<Rightarrow> int \<Rightarrow> ('s, 'c, 'o, 'b, 'z) svc_config_scheme \<Rightarrow> unit go" where
  "scCheckTimeout failed now cfg = (if \<not> failed \<and> now - scStart cfg > 120 * 10 ^ 9 then Inl TestFatal else Inr ())"

definition scCleanup :: "('s \<Rightarrow> 's go) \<Rightarrow> bool \<Rightarrow> int \<Rightarrow> ('s, 'c, 'o, 'b, 'z) svc_config_scheme \<Rightarrow> ('s, 'c, 'o, 'b, 'z) svc_config_scheme go" where
  "scCleanup kill failed now cfg =
     bindE (mapE (\<lambda>srv. case srv of None \<Rightarrow> Inr None | Some srv \<Rightarrow> bindE (kill srv) (\<lambda>srv. Inr (Some srv))) (scServers cfg)) (\<lambda>srvs.
     bindE (Cleanup (scNet cfg)) (\<lambda>rn.
     let cfg = cfg\<lparr>scServers := srvs, scNet := rn\<rparr> in
     bindE (scCheckTimeout failed now cfg) (\<lambda>_. Inr cfg)))"

definition kvCleanup :: "bool \<Rightarrow> int \<Rightarrow> ('o, 'b) kv_config \<Rightarrow> ('o, 'b) kv_config go" where
  "kvCleanup = scCleanup kvKill"

definition smCleanup :: "bool \<Rightarrow> int \<Rightarrow> ('c ShardMaster, 'c, 'o, 'b) svc_config \<Rightarrow> ('c ShardMaster, 'c, 'o, 'b) svc_config go" where
  "smCleanup = scCleanup smKill"

text \<open>\<open>LogSize\<close> and \<open>SnapshotSize\<close>: \<open>size\<close> is the method of the persister; a nil persister panics.\<close>

definition maxSaved :: "('s \<Rightarrow> 'c Raft) \<Rightarrow> ('c gobval list Persister \<Rightarrow> nat) \<Rightarrow> ('s, 'c, 'o, 'b, 'z) svc_config_scheme \<Rightarrow> int go" where
  "maxSaved raftOf sz cfg = foldE (\<lambda>i logsize.
     bindE (scSavedNow raftOf cfg i) (\<lambda>ps.
     case ps of None \<Rightarrow> Inl NilPointer | Some ps \<Rightarrow> Inr (let n = int (sz ps) in if n > logsize then n else logsize))) [0..scN cfg - 1] 0"

definition kvLogSize :: "(kvcmd gobval list \<Rightarrow> nat) \<Rightarrow> ('o, 'b) kv_config \<Rightarrow> int go" where
  "kvLogSize len = maxSaved rf (RaftStateSize len)"

definition kvSnapshotSize :: "(kvcmd gobval list \<Rightarrow> nat) \<Rightarrow> ('o, 'b) kv_config \<Rightarrow> int go" where
  "kvSnapshotSize len = maxSaved rf (SnapshotSize len)"

definition smLogSize :: "('c gobval list \<Rightarrow> nat) \<Rightarrow> ('c ShardMaster, 'c, 'o, 'b) svc_config \<Rightarrow> int go" where
  "smLogSize len = maxSaved smRf (RaftStateSize len)"

subsection \<open>Leader and partitions\<close>

fun findLeader :: "('s \<Rightarrow> 'c Raft) \<Rightarrow> 's option list \<Rightarrow> int list \<Rightarrow> (bool \<times> int) go" where
  "findLeader raftOf srvs [] = Inr (False, 0)"
| "findLeader raftOf srvs (i # is) =
     bindE (go_nth srvs i) (\<lambda>srv.
     case srv of
       None \<Rightarrow> Inl NilPointer
     | Some srv \<Rightarrow> if snd (GetState (raftOf srv)) then Inr (True, i) else findLeader raftOf srvs is)"

definition scLeader :: "('s \<Rightarrow> 'c Raft) \<Rightarrow> ('s, 'c, 'o, 'b, 'z) svc_config_scheme \<Rightarrow> (bool \<times> int) go" where
  "scLeader raftOf cfg = findLeader raftOf (scServers cfg) [0..scN cfg - 1]"

text \<open>The loop of \<open>make_partition\<close>, for a leader \<open>l\<close>.\<close>

definition placeServer :: "int \<Rightarrow> int \<Rightarrow> int list \<times> int list \<times> int \<Rightarrow> (int list \<times> int list \<times> int) go" where
  "placeServer l i st =
     (case st of (p1, p2, j) \<Rightarrow>
        if i \<noteq> l then
          if j < int (length p1) then bindE (go_update p1 j i) (\<lambda>p1. Inr (p1, p2, j + 1))
          else bindE (go_update p2 (j - int (length p1)) i) (\<lambda>p2. Inr (p1, p2, j + 1))
        else Inr (p1, p2, j))"

definition splitServers :: "int \<Rightarrow> int \<Rightarrow> (int list \<times> int list) go" where
  "splitServers n l =
     bindE (foldE (placeServer l) [0..n - 1] (replicate (nat (n div 2 + 1)) 0, replicate (nat (n div 2)) 0, 0)) (\<lambda>(p1, p2, _).
     bindE (go_update p2 (int (length p2) - 1) l) (\<lambda>p2. Inr (p1, p2)))"

definition make_partition :: "('s \<Rightarrow> 'c Raft) \<Rightarrow> ('s, 'c, 'o, 'b, 'z) svc_config_scheme \<Rightarrow> (int list \<times> int list) go" where
  "make_partition raftOf cfg = bindE (scLeader raftOf cfg) (\<lambda>(_, l). splitServers (scN cfg) l)"

definition kvLeader :: "('o, 'b) kv_config \<Rightarrow> (bool \<times> int) go" where
  "kvLeader = scLeader rf"

definition smLeader :: "('c ShardMaster, 'c, 'o, 'b) svc_config \<Rightarrow> (bool \<times> int) go" where
  "smLeader = scLeader smRf"

definition kvMakePartition :: "('o, 'b) kv_config \<Rightarrow> (int list \<times> int list) go" where
  "kvMakePartition = make_partition rf"

definition smMakePartition :: "('c ShardMaster, 'c, 'o, 'b) svc_config \<Rightarrow> (int list \<times> int list) go" where
  "smMakePartition = make_partition smRf"

subsection \<open>The same operations in the two packages\<close>

text \<open>
  The bodies of these operations are the same in \<open>kvraft/config.go\<close> and \<open>shardmaster/config.go\<close>; the
  definitions fix the types of the second package.
\<close>

definition kvMakeClient :: "(int \<Rightarrow> string) \<Rightarrow> (int \<Rightarrow> int) \<Rightarrow> nat \<Rightarrow> int list \<Rightarrow> ('o, 'b) kv_config \<Rightarrow> (('o, 'b) kv_config \<times> string list \<times> Clerk) go" where
  "kvMakeClient = makeClient (\<lambda>handles. MakeClerk (int (length handles)))"

type_synonym ('c, 'o, 'b) sm_config = "('c ShardMaster, 'c, 'o, 'b) svc_config"

definition smMakeClient :: "(int \<Rightarrow> string) \<Rightarrow> (int \<Rightarrow> int) \<Rightarrow> nat \<Rightarrow> int list \<Rightarrow> ('c, 'o, 'b) sm_config \<Rightarrow> (('c, 'o, 'b) sm_config \<times> string list \<times> SMClerk) go" where
  "smMakeClient = makeClient (\<lambda>handles. smMakeClerk (length handles))"

definition smDeleteClient :: "(string \<Rightarrow> 'fs \<Rightarrow> 'fs) \<Rightarrow> nat \<Rightarrow> 'fs \<Rightarrow> ('c, 'o, 'b) sm_config \<Rightarrow> 'fs \<times> ('c, 'o, 'b) sm_config" where
  "smDeleteClient = deleteClient"

definition smCheckTimeout :: "bool \<Rightarrow> int \<Rightarrow> ('c, 'o, 'b) sm_config \<Rightarrow> unit go" where
  "smCheckTimeout = scCheckTimeout"

definition smAllServers :: "('c, 'o, 'b) sm_config \<Rightarrow> int list" where
  "smAllServers = AllServers"

definition smConnectUnlocked :: "int \<Rightarrow> int list \<Rightarrow> ('c, 'o, 'b) sm_config \<Rightarrow> ('c, 'o, 'b) sm_config go" where
  "smConnectUnlocked = connectUnlocked"

definition smDisconnectUnlocked :: "int \<Rightarrow> int list \<Rightarrow> ('c, 'o, 'b) sm_config \<Rightarrow> ('c, 'o, 'b) sm_config go" where
  "smDisconnectUnlocked = disconnectUnlocked"

definition smConnectAll :: "('c, 'o, 'b) sm_config \<Rightarrow> ('c, 'o, 'b) sm_config go" where
  "smConnectAll = ConnectAll"

definition smPartition :: "int list \<Rightarrow> int list \<Rightarrow> ('c, 'o, 'b) sm_config \<Rightarrow> ('c, 'o, 'b) sm_config go" where
  "smPartition = partition"

definition smConnectClient :: "nat \<Rightarrow> int list \<Rightarrow> ('c, 'o, 'b) sm_config \<Rightarrow> ('c, 'o, 'b) sm_config go" where
  "smConnectClient = ConnectClientUnlocked"

definition smDisconnectClient :: "nat \<Rightarrow> int list \<Rightarrow> ('c, 'o, 'b) sm_config \<Rightarrow> ('c, 'o, 'b) sm_config go" where
  "smDisconnectClient = DisconnectClientUnlocked"

subsection \<open>Building a configuration, statistics\<close>

definition freshSc :: "int \<Rightarrow> int \<Rightarrow> ('s, 'c, 'o, 'b) svc_config" where
  "freshSc now n = \<lparr>scNet = MakeNetwork, scHeap = [], scN = n, scServers = replicate (nat n) None, scSaved = replicate (nat n) None,
     scEndnames = replicate (nat n) [], scClerks = (\<lambda>_. None), scNextClientId = n + 1000, scStart = now\<rparr>"

definition kv_make_config :: "int \<Rightarrow> (int \<Rightarrow> ('o, 'b) goMethod list) \<Rightarrow> (int \<Rightarrow> ('o, 'b) goMethod list) \<Rightarrow> (int \<Rightarrow> int \<Rightarrow> string) \<Rightarrow> int \<Rightarrow> bool \<Rightarrow> int \<Rightarrow> ('o, 'b) kv_config go" where
  "kv_make_config now kvms rfms randname n unreliable maxstate =
     (if n < 0 then Inl MakeSliceLenOutOfRange
      else
        let cfg = svc_config.extend (freshSc now n) (kv_config.fields maxstate 0 0 0) in
        bindE (foldE (\<lambda>i cfg. kvStartServer (kvms i) (rfms i) (randname i) i cfg) [0..n - 1] cfg) (\<lambda>cfg.
        bindE (ConnectAll cfg) (\<lambda>cfg.
        Inr (onSc (Reliable (\<not> unreliable)) cfg))))"

definition sm_make_config :: "'c \<Rightarrow> int \<Rightarrow> (int \<Rightarrow> ('o, 'b) goMethod list) \<Rightarrow> (int \<Rightarrow> ('o, 'b) goMethod list) \<Rightarrow> (int \<Rightarrow> int \<Rightarrow> string) \<Rightarrow> int \<Rightarrow> bool \<Rightarrow>
    ('c ShardMaster, 'c, 'o, 'b) svc_config go" where
  "sm_make_config zero now smms rfms randname n unreliable =
     (if n < 0 then Inl MakeSliceLenOutOfRange
      else
        bindE (foldE (\<lambda>i cfg. smConfigStartServer zero (smms i) (rfms i) (randname i) i cfg) [0..n - 1] (freshSc now n)) (\<lambda>cfg.
        bindE (ConnectAll cfg) (\<lambda>cfg.
        Inr (onSc (Reliable (\<not> unreliable)) cfg))))"

definition kvRpcTotal :: "('o, 'b) kv_config \<Rightarrow> int" where
  "kvRpcTotal cfg = GetTotalCount (scNet cfg)"

definition kvBegin :: "int \<Rightarrow> ('o, 'b) kv_config \<Rightarrow> ('o, 'b) kv_config" where
  "kvBegin now cfg = cfg\<lparr>kcT0 := now, kcRpcs0 := kvRpcTotal cfg, kcOps := 0\<rparr>"

definition kvOp :: "('o, 'b) kv_config \<Rightarrow> ('o, 'b) kv_config" where
  "kvOp cfg = cfg\<lparr>kcOps := kcOps cfg + 1\<rparr>"

definition kvEnd :: "bool \<Rightarrow> int \<Rightarrow> ('o, 'b) kv_config \<Rightarrow> (int \<times> int \<times> int \<times> int) option go" where
  "kvEnd failed now cfg =
     bindE (scCheckTimeout failed now cfg) (\<lambda>_.
     Inr (if failed then None else Some (now - kcT0 cfg, scN cfg, kvRpcTotal cfg - kcRpcs0 cfg, sint (kcOps cfg))))"

subsection \<open>Switching ends\<close>

lemma onSc_simps [simp]:
  "scNet (onSc f cfg) = f (scNet cfg)" "scN (onSc f cfg) = scN cfg" "scEndnames (onSc f cfg) = scEndnames cfg"
  "scServers (onSc f cfg) = scServers cfg" "scSaved (onSc f cfg) = scSaved cfg" "scEndname (onSc f cfg) = scEndname cfg"
  by (simp_all add: onSc_def scEndname_def fun_eq_iff)

lemma onSc_onSc [simp]: "onSc g (onSc f cfg) = onSc (\<lambda>rn. g (f rn)) cfg"
  by (simp add: onSc_def)

interpretation scNet: net_holder onSc
  by unfold_locales (simp_all add: onSc_def)

definition scEnd :: "('s, 'c, 'o, 'b, 'z) svc_config_scheme \<Rightarrow> int \<Rightarrow> int \<Rightarrow> string" where
  "scEnd cfg i j = scEndnames cfg ! nat i ! nat j"

text \<open>A complete table of ends: one row per server, one end per column, all names distinct.\<close>

definition table_ok :: "('s, 'c, 'o, 'b, 'z) svc_config_scheme \<Rightarrow> bool" where
  "table_ok cfg \<longleftrightarrow> length (scEndnames cfg) = nat (scN cfg) \<and> (\<forall>row\<in>set (scEndnames cfg). length row = nat (scN cfg)) \<and>
     (\<forall>i j k l. i \<in> {0..<scN cfg} \<and> j \<in> {0..<scN cfg} \<and> k \<in> {0..<scN cfg} \<and> l \<in> {0..<scN cfg} \<and>
        scEnd cfg i j = scEnd cfg k l \<longrightarrow> i = k \<and> j = l)"

lemma table_row:
  assumes "table_ok cfg" "i \<in> {0..<scN cfg}"
  shows "go_nth (scEndnames cfg) i = Inr (scEndnames cfg ! nat i)" "length (scEndnames cfg ! nat i) = nat (scN cfg)" "scEndnames cfg ! nat i \<noteq> []"
proof -
  have len: "nat i < length (scEndnames cfg)" using assms by (auto simp: table_ok_def)
  from nth_mem [OF len] assms(1) show row: "length (scEndnames cfg ! nat i) = nat (scN cfg)" by (auto simp: table_ok_def)
  show "go_nth (scEndnames cfg) i = Inr (scEndnames cfg ! nat i)" using assms len by simp
  show "scEndnames cfg ! nat i \<noteq> []" using row assms(2) by auto
qed

lemma table_end: "table_ok cfg \<Longrightarrow> i \<in> {0..<scN cfg} \<Longrightarrow> j \<in> {0..<scN cfg} \<Longrightarrow> scEndname cfg i j = Inr (scEnd cfg i j)"
  using table_row [of cfg i] by (simp add: scEndname_def scEnd_def)

lemma table_inj:
  "table_ok cfg \<Longrightarrow> i \<in> {0..<scN cfg} \<Longrightarrow> j \<in> {0..<scN cfg} \<Longrightarrow> k \<in> {0..<scN cfg} \<Longrightarrow> l \<in> {0..<scN cfg} \<Longrightarrow>
    scEnd cfg i j = scEnd cfg k l \<longleftrightarrow> i = k \<and> j = l"
  unfolding table_ok_def by blast

definition touching :: "('s, 'c, 'o, 'b, 'z) svc_config_scheme \<Rightarrow> int \<Rightarrow> int set \<Rightarrow> string set" where
  "touching cfg i S = scEnd cfg i ` S \<union> (\<lambda>j. scEnd cfg j i) ` S"

lemma connectUnlocked_eq:
  assumes "table_ok cfg" "i \<in> {0..<scN cfg}" "set to \<subseteq> {0..<scN cfg}"
  shows "\<exists>f. connectUnlocked i to cfg = Inr (onSc f cfg) \<and> (\<forall>rn. wires (f rn) = wires rn) \<and>
    (\<forall>rn e. enabled (f rn) e \<longleftrightarrow> enabled rn e \<or> e \<in> touching cfg i (set to))"
proof -
  let ?out = "net.switch (map (\<lambda>j. (scEnd cfg i j, True)) to) :: (string, int) Network \<Rightarrow> _"
  let ?inc = "net.switch (map (\<lambda>j. (scEnd cfg j i, True)) to) :: (string, int) Network \<Rightarrow> _"
  have names: "scEndname cfg i j = Inr (scEnd cfg i j)" "scEndname cfg j i = Inr (scEnd cfg j i)" if "j \<in> set to" for j
    using table_end [OF assms(1)] assms(2) subsetD [OF assms(3) that] by blast+
  have out: "foldE (\<lambda>j cfg. bindE (scEndname cfg i j) (\<lambda>e. Inr (onSc (Enable e True) cfg))) to cfg = Inr (onSc ?out cfg)"
    by (rule scNet.switch_all) (simp add: names del: onSc_onSc)
  have inc: "foldE (\<lambda>j cfg. bindE (scEndname cfg j i) (\<lambda>e. Inr (onSc (Enable e True) cfg))) to (onSc ?out cfg) = Inr (onSc ?inc (onSc ?out cfg))"
    by (rule scNet.switch_all) (simp add: names del: onSc_onSc)
  have "connectUnlocked i to cfg = Inr (onSc (\<lambda>rn. ?inc (?out rn)) cfg)" using out inc by (simp add: connectUnlocked_def)
  moreover have "enabled (?inc (?out rn)) e \<longleftrightarrow> enabled rn e \<or> e \<in> touching cfg i (set to)" for rn e
    by (auto simp: enabled_switch touching_def)
  moreover have "wires (?inc (?out rn)) = wires rn" for rn by simp
  ultimately show ?thesis by blast
qed

lemma disconnectUnlocked_eq:
  assumes "table_ok cfg" "i \<in> {0..<scN cfg}" "set from \<subseteq> {0..<scN cfg}" "int (length from) \<le> scN cfg"
  shows "\<exists>f. disconnectUnlocked i from cfg = Inr (onSc f cfg) \<and> (\<forall>rn. wires (f rn) = wires rn) \<and>
    (\<forall>rn e. enabled (f rn) e \<longleftrightarrow> enabled rn e \<and> e \<notin> touching cfg i (set from))"
proof -
  let ?out = "net.switch (map (\<lambda>j. (scEnd cfg i j, False)) from) :: (string, int) Network \<Rightarrow> _"
  let ?inc = "net.switch (map (\<lambda>j. (scEnd cfg (from ! nat j) i, False)) [0..int (length from) - 1]) :: (string, int) Network \<Rightarrow> _"
  have names: "scEndname cfg i j = Inr (scEnd cfg i j)" if "j \<in> set from" for j
    using table_end [OF assms(1)] assms(2) subsetD [OF assms(3) that] by blast
  have out: "foldE (\<lambda>j cfg. bindE (go_nth (scEndnames cfg) i) (\<lambda>row.
       if row \<noteq> [] then bindE (scEndname cfg i j) (\<lambda>e. Inr (onSc (Enable e False) cfg)) else Inr cfg)) from cfg = Inr (onSc ?out cfg)"
    by (rule scNet.switch_all) (simp add: names table_row [OF assms(1,2)] del: onSc_onSc)
  have elem: "from ! nat j \<in> {0..<scN cfg}" "go_nth from j = Inr (from ! nat j)" "j \<in> {0..<scN cfg}" if "j \<in> set [0..int (length from) - 1]" for j
  proof -
    have j: "0 \<le> j" "j < int (length from)" using that by auto
    then have "from ! nat j \<in> set from" by (intro nth_mem) linarith
    with assms(3) show "from ! nat j \<in> {0..<scN cfg}" by blast
    from j assms(4) show "go_nth from j = Inr (from ! nat j)" "j \<in> {0..<scN cfg}" by simp_all
  qed
  have inc: "foldE (\<lambda>j cfg. bindE (go_nth (scEndnames cfg) j) (\<lambda>row.
       if row \<noteq> [] then bindE (go_nth from j) (\<lambda>k. bindE (scEndname cfg k i) (\<lambda>e. Inr (onSc (Enable e False) cfg)))
       else Inr cfg)) [0..int (length from) - 1] (onSc ?out cfg) = Inr (onSc ?inc (onSc ?out cfg))"
  proof (rule scNet.switch_all)
    fix j and f :: "(string, int) Network \<Rightarrow> (string, int) Network"
    assume j: "j \<in> set [0..int (length from) - 1]"
    show "bindE (go_nth (scEndnames (onSc f (onSc ?out cfg))) j) (\<lambda>row.
       if row \<noteq> [] then bindE (go_nth from j) (\<lambda>k. bindE (scEndname (onSc f (onSc ?out cfg)) k i) (\<lambda>e. Inr (onSc (Enable e False) (onSc f (onSc ?out cfg)))))
       else Inr (onSc f (onSc ?out cfg))) = Inr (onSc (Enable (scEnd cfg (from ! nat j) i) False) (onSc f (onSc ?out cfg)))"
      using table_row(1,3) [OF assms(1) elem(3) [OF j]] table_end [OF assms(1) elem(1) [OF j] assms(2)] elem(2) [OF j]
      by (simp del: onSc_onSc)
  qed
  note ends = image_nth_upto [of "\<lambda>j. scEnd cfg j i" "from"]
  have "disconnectUnlocked i from cfg = Inr (onSc (\<lambda>rn. ?inc (?out rn)) cfg)"
    using out inc by (simp add: disconnectUnlocked_def)
  moreover have "enabled (?inc (?out rn)) e \<longleftrightarrow> enabled rn e \<and> e \<notin> touching cfg i (set from)" for rn e
    by (simp only: enabled_switch ends touching_def Un_iff if_bool_eq_conj) blast
  moreover have "wires (?inc (?out rn)) = wires rn" for rn by simp
  ultimately show ?thesis by blast
qed

subsection \<open>Partitions of the network\<close>

lemma table_ok_onSc [simp]: "table_ok (onSc f cfg) = table_ok cfg"
  by (simp add: table_ok_def scEnd_def)

lemma scEnd_onSc [simp]: "scEnd (onSc f cfg) = scEnd cfg" "touching (onSc f cfg) = touching cfg"
  by (simp_all add: scEnd_def touching_def fun_eq_iff)

text \<open>A server is cut off from one side and joined to the other.\<close>

lemma regroup:
  assumes "table_ok cfg" "i \<in> set p" "set p \<union> set q = {0..<scN cfg}" "set p \<inter> set q = {}" "int (length q) \<le> scN cfg"
  shows "\<exists>f. bindE (disconnectUnlocked i q cfg) (connectUnlocked i p) = Inr (onSc f cfg) \<and> (\<forall>rn. wires (f rn) = wires rn) \<and>
    (\<forall>rn a b. a \<in> {0..<scN cfg} \<and> b \<in> {0..<scN cfg} \<longrightarrow>
      (enabled (f rn) (scEnd cfg a b) \<longleftrightarrow> (if a = i \<or> b = i then a \<in> set p \<and> b \<in> set p else enabled rn (scEnd cfg a b)))) \<and>
    (\<forall>rn e. (\<forall>a\<in>{0..<scN cfg}. \<forall>b\<in>{0..<scN cfg}. e \<noteq> scEnd cfg a b) \<longrightarrow> enabled (f rn) e = enabled rn e)"
proof -
  have i: "i \<in> {0..<scN cfg}" and p: "set p \<subseteq> {0..<scN cfg}" and q: "set q \<subseteq> {0..<scN cfg}" using assms(2,3) by auto
  from disconnectUnlocked_eq [OF assms(1) i q assms(5)] obtain f where f: "disconnectUnlocked i q cfg = Inr (onSc f cfg)"
    "\<And>rn. wires (f rn) = wires rn" "\<And>rn e. enabled (f rn) e \<longleftrightarrow> enabled rn e \<and> e \<notin> touching cfg i (set q)" by blast
  from connectUnlocked_eq [of "onSc f cfg" i p] assms(1) i p obtain g where g: "connectUnlocked i p (onSc f cfg) = Inr (onSc g (onSc f cfg))"
    "\<And>rn. wires (g rn) = wires rn" "\<And>rn e. enabled (g rn) e \<longleftrightarrow> enabled rn e \<or> e \<in> touching cfg i (set p)" by auto
  have touch: "scEnd cfg a b \<in> touching cfg i S \<longleftrightarrow> a = i \<and> b \<in> S \<or> b = i \<and> a \<in> S"
    if "a \<in> {0..<scN cfg}" "b \<in> {0..<scN cfg}" "S \<subseteq> {0..<scN cfg}" for a b S
  proof -
    have "scEnd cfg a b \<in> scEnd cfg i ` S \<longleftrightarrow> a = i \<and> b \<in> S"
      using table_inj [OF assms(1) that(1,2) i subsetD [OF that(3)]] unfolding image_iff by blast
    moreover have "scEnd cfg a b \<in> (\<lambda>j. scEnd cfg j i) ` S \<longleftrightarrow> b = i \<and> a \<in> S"
      using table_inj [OF assms(1) that(1,2) subsetD [OF that(3)] i] unfolding image_iff by blast
    ultimately show ?thesis by (auto simp: touching_def)
  qed
  have "enabled (g (f rn)) (scEnd cfg a b) \<longleftrightarrow> (if a = i \<or> b = i then a \<in> set p \<and> b \<in> set p else enabled rn (scEnd cfg a b))"
    if "a \<in> {0..<scN cfg}" "b \<in> {0..<scN cfg}" for rn a b
  proof -
    have sides: "x \<in> set q \<longleftrightarrow> x \<notin> set p" if "x \<in> {0..<scN cfg}" for x using assms(3,4) that by blast
    show ?thesis
      unfolding g(3) f(3) touch [OF that p] touch [OF that q] using sides [OF that(1)] sides [OF that(2)] assms(2) by auto
  qed
  moreover have "enabled (g (f rn)) e = enabled rn e" if "\<forall>a\<in>{0..<scN cfg}. \<forall>b\<in>{0..<scN cfg}. e \<noteq> scEnd cfg a b" for rn e
  proof -
    have "e \<notin> touching cfg i S" if "S \<subseteq> {0..<scN cfg}" for S
      using \<open>\<forall>a\<in>{0..<scN cfg}. \<forall>b\<in>{0..<scN cfg}. e \<noteq> scEnd cfg a b\<close> i subsetD [OF that] unfolding touching_def by blast
    with p q show ?thesis unfolding g(3) f(3) by blast
  qed
  moreover have "bindE (disconnectUnlocked i q cfg) (connectUnlocked i p) = Inr (onSc (\<lambda>rn. g (f rn)) cfg)" using f(1) g(1) by simp
  moreover have "wires (g (f rn)) = wires rn" for rn using f(2) g(2) by simp
  ultimately show ?thesis by blast
qed

text \<open>
  The state after the servers in \<open>T\<close> have been regrouped: their ends are as the partition wants,
  the other ends are as before.
\<close>

definition regrouped :: "int set \<Rightarrow> int set \<Rightarrow> ('s, 'c, 'o, 'b, 'z) svc_config_scheme \<Rightarrow> ('s, 'c, 'o, 'b, 'z) svc_config_scheme \<Rightarrow> bool" where
  "regrouped p T cfg cfg' \<longleftrightarrow> cfg' = onSc (\<lambda>_. scNet cfg') cfg \<and> wires (scNet cfg') = wires (scNet cfg) \<and>
     (\<forall>a b. a \<in> {0..<scN cfg} \<and> b \<in> {0..<scN cfg} \<longrightarrow>
       (enabled (scNet cfg') (scEnd cfg a b) \<longleftrightarrow> (if a \<in> T \<or> b \<in> T then a \<in> p \<longleftrightarrow> b \<in> p else enabled (scNet cfg) (scEnd cfg a b)))) \<and>
     (\<forall>e. (\<forall>a\<in>{0..<scN cfg}. \<forall>b\<in>{0..<scN cfg}. e \<noteq> scEnd cfg a b) \<longrightarrow> enabled (scNet cfg') e = enabled (scNet cfg) e)"

lemma regroup_loop:
  assumes "table_ok cfg" "set p \<union> set q = {0..<scN cfg}" "set p \<inter> set q = {}" "int (length q) \<le> scN cfg"
    and "regrouped P T cfg c" "\<And>a b. a \<in> {0..<scN cfg} \<Longrightarrow> b \<in> {0..<scN cfg} \<Longrightarrow> (a \<in> P \<longleftrightarrow> b \<in> P) \<longleftrightarrow> (a \<in> set p \<longleftrightarrow> b \<in> set p)"
  shows "\<exists>c'. foldE (\<lambda>i cfg. bindE (disconnectUnlocked i q cfg) (connectUnlocked i p)) p c = Inr c' \<and> regrouped P (T \<union> set p) cfg c'"
proof -
  have "\<exists>c'. foldE (\<lambda>i cfg. bindE (disconnectUnlocked i q cfg) (connectUnlocked i p)) p c = Inr c' \<and> regrouped P (T \<union> set p) cfg c'"
  proof (rule foldE_rule [where I = "\<lambda>dn. regrouped P (T \<union> set dn) cfg"])
    show "regrouped P (T \<union> set []) cfg c" using assms(5) by simp
  next
    fix dn i d
    assume d: "regrouped P (T \<union> set dn) cfg d" and i: "i \<in> set p"
    have eq: "d = onSc (\<lambda>_. scNet d) cfg" using d by (simp add: regrouped_def)
    have same: "scN d = scN cfg" "table_ok d" "scEnd d = scEnd cfg" by (subst eq, simp add: assms(1))+
    from regroup [of d i p q] assms(2-4) i same obtain f where f: "bindE (disconnectUnlocked i q d) (connectUnlocked i p) = Inr (onSc f d)"
      "\<And>rn. wires (f rn) = wires rn"
      "\<And>rn a b. a \<in> {0..<scN cfg} \<Longrightarrow> b \<in> {0..<scN cfg} \<Longrightarrow>
        enabled (f rn) (scEnd cfg a b) \<longleftrightarrow> (if a = i \<or> b = i then a \<in> set p \<and> b \<in> set p else enabled rn (scEnd cfg a b))"
      "\<And>rn e. \<forall>a\<in>{0..<scN cfg}. \<forall>b\<in>{0..<scN cfg}. e \<noteq> scEnd cfg a b \<Longrightarrow> enabled (f rn) e = enabled rn e" by auto
    have "regrouped P (T \<union> set (dn @ [i])) cfg (onSc f d)"
      unfolding regrouped_def
    proof (intro conjI allI impI)
      show "onSc f d = onSc (\<lambda>_. scNet (onSc f d)) cfg" by (subst eq) simp
      show "wires (scNet (onSc f d)) = wires (scNet cfg)" using d f(2) by (simp add: regrouped_def)
    next
      fix a b assume ab: "a \<in> {0..<scN cfg} \<and> b \<in> {0..<scN cfg}"
      have "enabled (scNet d) (scEnd cfg a b) \<longleftrightarrow> (if a \<in> T \<union> set dn \<or> b \<in> T \<union> set dn then a \<in> P \<longleftrightarrow> b \<in> P else enabled (scNet cfg) (scEnd cfg a b))"
        using d ab unfolding regrouped_def by blast
      with f(3) [of a b "scNet d"] ab assms(6) [of a b] i
      show "enabled (scNet (onSc f d)) (scEnd cfg a b) \<longleftrightarrow>
        (if a \<in> T \<union> set (dn @ [i]) \<or> b \<in> T \<union> set (dn @ [i]) then a \<in> P \<longleftrightarrow> b \<in> P else enabled (scNet cfg) (scEnd cfg a b))"
        by auto
    next
      fix e assume "\<forall>a\<in>{0..<scN cfg}. \<forall>b\<in>{0..<scN cfg}. e \<noteq> scEnd cfg a b"
      with d f(4) [of e] show "enabled (scNet (onSc f d)) e = enabled (scNet cfg) e" unfolding regrouped_def by simp
    qed
    with f(1) show "\<exists>d'. bindE (disconnectUnlocked i q d) (connectUnlocked i p) = Inr d' \<and> regrouped P (T \<union> set (dn @ [i])) cfg d'" by blast
  qed
  then show ?thesis by simp
qed

lemma partition_ok:
  assumes "table_ok cfg" "set p1 \<union> set p2 = {0..<scN cfg}" "set p1 \<inter> set p2 = {}" "int (length p1) \<le> scN cfg" "int (length p2) \<le> scN cfg"
  shows "\<exists>cfg'. partition p1 p2 cfg = Inr cfg' \<and> regrouped (set p1) {0..<scN cfg} cfg cfg'"
proof -
  have "regrouped (set p1) {} cfg cfg" by (simp add: regrouped_def onSc_def)
  from regroup_loop [OF assms(1-3,5) this] obtain c where c: "foldE (\<lambda>i cfg. bindE (disconnectUnlocked i p2 cfg) (connectUnlocked i p1)) p1 cfg = Inr c"
    "regrouped (set p1) (set p1) cfg c" by auto
  have sets: "set p2 \<union> set p1 = {0..<scN cfg}" "set p2 \<inter> set p1 = {}" using assms(2,3) by auto
  have "(a \<in> set p1 \<longleftrightarrow> b \<in> set p1) \<longleftrightarrow> (a \<in> set p2 \<longleftrightarrow> b \<in> set p2)" if "a \<in> {0..<scN cfg}" "b \<in> {0..<scN cfg}" for a b
    using that assms(2,3) by blast
  from regroup_loop [OF assms(1) sets assms(4) c(2) this] obtain c' where
    "foldE (\<lambda>i cfg. bindE (disconnectUnlocked i p1 cfg) (connectUnlocked i p2)) p2 c = Inr c'" "regrouped (set p1) (set p1 \<union> set p2) cfg c'" by blast
  with c(1) assms(2) show ?thesis by (simp add: partition_def)
qed

subsection \<open>The groups of \<open>make_partition\<close>\<close>

definition fill :: "nat \<Rightarrow> int list \<Rightarrow> int list" where
  "fill m ys = ys @ replicate (m - length ys) 0"

lemma length_fill: "length ys \<le> m \<Longrightarrow> length (fill m ys) = m"
  by (simp add: fill_def)

lemma fill_snoc: "length ys < m \<Longrightarrow> (fill m ys)[length ys := i] = fill m (ys @ [i])"
proof -
  assume "length ys < m"
  then have "replicate (m - length ys) (0 :: int) = 0 # replicate (m - length (ys @ [i])) 0" by (simp flip: replicate_Suc add: Suc_diff_Suc)
  then show ?thesis by (simp add: fill_def)
qed

lemma placeServer_fill:
  assumes "length (filter (\<lambda>x. x \<noteq> l) (dn @ [i])) \<le> 2 * h + 1"
  shows "placeServer l i (fill (h + 1) (take (h + 1) (filter (\<lambda>x. x \<noteq> l) dn)), fill h (drop (h + 1) (filter (\<lambda>x. x \<noteq> l) dn)), int (length (filter (\<lambda>x. x \<noteq> l) dn))) =
    Inr (fill (h + 1) (take (h + 1) (filter (\<lambda>x. x \<noteq> l) (dn @ [i]))), fill h (drop (h + 1) (filter (\<lambda>x. x \<noteq> l) (dn @ [i]))),
      int (length (filter (\<lambda>x. x \<noteq> l) (dn @ [i]))))"
proof (cases "i = l")
  case False
  define ys where "ys = filter (\<lambda>x. x \<noteq> l) dn"
  have new: "filter (\<lambda>x. x \<noteq> l) (dn @ [i]) = ys @ [i]" using False by (simp add: ys_def)
  have len: "length ys \<le> 2 * h" using assms unfolding new by simp
  show ?thesis
  proof (cases "length ys < h + 1")
    case True
    then show ?thesis using False fill_snoc [of ys "h + 1" i] by (simp add: new placeServer_def length_fill flip: ys_def)
  next
    case ge: False
    have "nat (int (length ys) - int (h + 1)) = length (drop (h + 1) ys)" using ge by simp
    moreover have "length (drop (h + 1) ys) < h" using ge len by simp
    ultimately show ?thesis using False ge fill_snoc [of "drop (h + 1) ys" h i]
      by (simp add: new placeServer_def length_fill flip: ys_def)
  qed
qed (simp add: placeServer_def)

lemma splitServers_eq:
  assumes "2 \<le> n" "l \<in> {0..<n}"
  shows "splitServers n l = (let h = nat (n div 2); xs = filter (\<lambda>x. x \<noteq> l) [0..n - 1] in
    Inr (fill (h + 1) (take (h + 1) xs), (fill h (drop (h + 1) xs))[h - 1 := l]))"
proof -
  let ?h = "nat (n div 2)" and ?xs = "\<lambda>dn. filter (\<lambda>x. x \<noteq> l) dn"
  have h: "0 < ?h" "int ?h = n div 2" using assms(1) by simp_all
  have "length (?xs [0..n - 1]) < length [0..n - 1]" using assms(2) by (intro length_filter_less [of l]) auto
  then have short: "length (?xs [0..n - 1]) \<le> 2 * ?h" using assms(1) by simp
  have "\<exists>t. foldE (placeServer l) [0..n - 1] (replicate (?h + 1) 0, replicate ?h 0, 0) = Inr t \<and>
    t = (fill (?h + 1) (take (?h + 1) (?xs [0..n - 1])), fill ?h (drop (?h + 1) (?xs [0..n - 1])), int (length (?xs [0..n - 1])))"
  proof (rule foldE_prefix_rule [where I = "\<lambda>dn t. t = (fill (?h + 1) (take (?h + 1) (?xs dn)), fill ?h (drop (?h + 1) (?xs dn)), int (length (?xs dn)))"])
    fix dn i rest t
    assume pre: "[0..n - 1] = dn @ i # rest" and t: "t = (fill (?h + 1) (take (?h + 1) (?xs dn)), fill ?h (drop (?h + 1) (?xs dn)), int (length (?xs dn)))"
    have "length (?xs (dn @ [i])) \<le> length (?xs [0..n - 1])" unfolding pre by simp
    with short have "length (?xs (dn @ [i])) \<le> 2 * ?h + 1" by linarith
    from placeServer_fill [OF this] show "\<exists>t'. placeServer l i t = Inr t' \<and> t' = (fill (?h + 1) (take (?h + 1) (?xs (dn @ [i]))),
      fill ?h (drop (?h + 1) (?xs (dn @ [i]))), int (length (?xs (dn @ [i]))))" unfolding t by blast
  qed (simp add: fill_def)
  then have loop: "foldE (placeServer l) [0..n - 1] (replicate (?h + 1) 0, replicate ?h 0, 0) =
    Inr (fill (?h + 1) (take (?h + 1) (?xs [0..n - 1])), fill ?h (drop (?h + 1) (?xs [0..n - 1])), int (length (?xs [0..n - 1])))" by simp
  have size: "nat (n div 2 + 1) = ?h + 1" using h by linarith
  have "length (fill ?h (drop (?h + 1) (?xs [0..n - 1]))) = ?h" using short by (intro length_fill) simp
  then show ?thesis using h unfolding splitServers_def size loop by (simp add: Let_def nat_diff_distrib)
qed

lemma splitServers_odd:
  assumes "n = 2 * h + 1" "1 \<le> h" "l \<in> {0..<n}"
  shows "\<exists>p1 p2. splitServers n l = Inr (p1, p2) \<and> set p1 \<union> set p2 = {0..<n} \<and> set p1 \<inter> set p2 = {} \<and>
    distinct p1 \<and> int (length p1) = h + 1 \<and> int (length p2) = h \<and> l \<in> set p2"
proof -
  let ?h = "nat (n div 2)" and ?xs = "filter (\<lambda>x. x \<noteq> l) [0..n - 1]"
  have h: "?h = nat h" using assms(1) by simp
  have sizes: "length ?xs = 2 * ?h" "distinct ?xs" "set ?xs = {0..<n} - {l}"
  proof -
    show "distinct ?xs" by simp
    show set: "set ?xs = {0..<n} - {l}" by auto
    from distinct_card [OF \<open>distinct ?xs\<close>] have "length ?xs = card ({0..<n} - {l})" unfolding set by simp
    also have "\<dots> = 2 * ?h" using assms by simp
    finally show "length ?xs = 2 * ?h" .
  qed
  have p1: "fill (?h + 1) (take (?h + 1) ?xs) = take (?h + 1) ?xs" using sizes(1) assms(2) h by (simp add: fill_def)
  have rest: "length (drop (?h + 1) ?xs) = ?h - 1" using sizes(1) by simp
  have one: "?h - (?h - 1) = 1" using assms(2) h by simp
  have p2: "(fill ?h (drop (?h + 1) ?xs))[?h - 1 := l] = drop (?h + 1) ?xs @ [l]"
    unfolding fill_def rest one using list_update_length [of "drop (?h + 1) ?xs" 0 "[]" l] unfolding rest by simp
  have "2 \<le> n" using assms(1,2) by simp
  from splitServers_eq [OF this assms(3)] have eq: "splitServers n l = Inr (take (?h + 1) ?xs, drop (?h + 1) ?xs @ [l])"
    unfolding p1 p2 Let_def .
  have "set (take (?h + 1) ?xs) \<union> set (drop (?h + 1) ?xs) = {0..<n} - {l}" unfolding sizes(3) [symmetric] set_append [symmetric] by simp
  moreover have "set (take (?h + 1) ?xs) \<inter> set (drop (?h + 1) ?xs) = {}"
    by (rule set_take_disj_set_drop_if_distinct [OF sizes(2)]) simp
  moreover have "l \<notin> set (take (?h + 1) ?xs)" using set_take_subset [of "?h + 1" ?xs] unfolding sizes(3) by blast
  ultimately have "set (take (?h + 1) ?xs) \<union> set (drop (?h + 1) ?xs @ [l]) = {0..<n}" "set (take (?h + 1) ?xs) \<inter> set (drop (?h + 1) ?xs @ [l]) = {}"
    using assms(3) unfolding set_append by auto
  moreover have "int (length (take (?h + 1) ?xs)) = h + 1" "int (length (drop (?h + 1) ?xs @ [l])) = h"
    using sizes(1) rest assms(2) h by simp_all
  moreover have "distinct (take (?h + 1) ?xs)" using sizes(2) by (rule distinct_take)
  ultimately show ?thesis unfolding eq by (intro exI conjI) (assumption | rule refl | simp)+
qed

text \<open>An even number of servers: the loop leaves a zero in the second group, so that server 0 is on both sides.\<close>

lemma splitServers_even:
  assumes "n = 2 * h" "2 \<le> h" "0 < l" "l < n"
  shows "\<exists>p1 p2. splitServers n l = Inr (p1, p2) \<and> 0 \<in> set p1 \<and> 0 \<in> set p2"
proof -
  let ?h = "nat (n div 2)" and ?xs = "filter (\<lambda>x. x \<noteq> l) [0..n - 1]"
  have h: "?h = nat h" using assms(1) by simp
  have "[0..n - 1] = 0 # [1..n - 1]" using assms by (simp add: upto_rec1)
  then have "?xs = 0 # filter (\<lambda>x. x \<noteq> l) [1..n - 1]" using assms(3) by simp
  then have zero: "0 \<in> set (take (?h + 1) ?xs)" by simp
  have "card ({0..<n} - {l}) = nat n - 1" using assms by simp
  moreover have "set ?xs = {0..<n} - {l}" by auto
  ultimately have "length ?xs = nat n - 1" using distinct_card [of ?xs] by simp
  then have len: "length (drop (?h + 1) ?xs) = ?h - 2" using assms(1) h by simp
  have two: "?h - (?h - 2) = 2" "?h - 1 = Suc (length (drop (?h + 1) ?xs))" using assms(2) h len by linarith+
  have p2: "(fill ?h (drop (?h + 1) ?xs))[?h - 1 := l] = drop (?h + 1) ?xs @ [0, l]"
  proof -
    have last: "(ys @ [0, 0])[Suc (length ys) := l] = ys @ [0, l]" for ys :: "int list" by (simp add: list_update_append)
    have "fill ?h (drop (?h + 1) ?xs) = drop (?h + 1) ?xs @ [0, 0]" unfolding fill_def len two(1) by (simp add: numeral_2_eq_2)
    with last [of "drop (?h + 1) ?xs"] show ?thesis unfolding two(2) [symmetric] by simp
  qed
  have "2 \<le> n" "l \<in> {0..<n}" using assms by simp_all
  from splitServers_eq [OF this] have "splitServers n l = Inr (fill (?h + 1) (take (?h + 1) ?xs), drop (?h + 1) ?xs @ [0, l])"
    unfolding p2 Let_def .
  with zero show ?thesis by (auto simp: fill_def)
qed

end
