(* ===== verification/Kv_Partition.thy ===== *)
theory Kv_Partition
  imports Kv_Config Raft_Cluster
begin

section \<open>Partitions of a running service\<close>

text \<open>
  The invariant \<open>svc_ok\<close> of the service configurations: the table of ends agrees with the network,
  no end is shared, and a server is registered in the network when it runs. Every operation of the
  tester that returns keeps it. With it, \<open>make_partition\<close> followed by \<open>partition\<close> cuts the cluster in two.
\<close>

subsection \<open>Invariant\<close>

definition rowMade :: "('s, 'c, 'o, 'b, 'z) svc_config_scheme \<Rightarrow> int \<Rightarrow> bool" where
  "rowMade cfg i \<longleftrightarrow> scEndnames cfg ! nat i \<noteq> []"

definition sizes_ok :: "('s, 'c, 'o, 'b, 'z) svc_config_scheme \<Rightarrow> bool" where
  "sizes_ok cfg \<longleftrightarrow> length (scEndnames cfg) = nat (scN cfg) \<and> length (scServers cfg) = nat (scN cfg) \<and> length (scSaved cfg) = nat (scN cfg) \<and>
     (\<forall>row\<in>set (scEndnames cfg). row = [] \<or> length row = nat (scN cfg))"

definition svc_ok :: "('s, 'c, 'o, 'b, 'z) svc_config_scheme \<Rightarrow> bool" where
  "svc_ok cfg \<longleftrightarrow> sizes_ok cfg \<and>
     (\<forall>i\<in>{0..<scN cfg}. \<forall>j\<in>{0..<scN cfg}. rowMade cfg i \<longrightarrow>
        ends (scNet cfg) (scEnd cfg i j) \<and> connections (scNet cfg) (scEnd cfg i j) = Some j) \<and>
     (\<forall>i\<in>{0..<scN cfg}. \<forall>j\<in>{0..<scN cfg}. \<forall>k\<in>{0..<scN cfg}. \<forall>l\<in>{0..<scN cfg}.
        rowMade cfg i \<and> rowMade cfg k \<and> scEnd cfg i j = scEnd cfg k l \<longrightarrow> i = k \<and> j = l) \<and>
     (\<forall>i\<in>{0..<scN cfg}. servers (scNet cfg) i \<noteq> None \<longleftrightarrow> scServers cfg ! nat i \<noteq> None)"

lemma svc_okD:
  assumes "svc_ok cfg"
  shows "sizes_ok cfg"
    and "i \<in> {0..<scN cfg} \<Longrightarrow> j \<in> {0..<scN cfg} \<Longrightarrow> rowMade cfg i \<Longrightarrow> ends (scNet cfg) (scEnd cfg i j)"
    and "i \<in> {0..<scN cfg} \<Longrightarrow> j \<in> {0..<scN cfg} \<Longrightarrow> rowMade cfg i \<Longrightarrow> connections (scNet cfg) (scEnd cfg i j) = Some j"
    and "i \<in> {0..<scN cfg} \<Longrightarrow> j \<in> {0..<scN cfg} \<Longrightarrow> k \<in> {0..<scN cfg} \<Longrightarrow> l \<in> {0..<scN cfg} \<Longrightarrow> rowMade cfg i \<Longrightarrow> rowMade cfg k \<Longrightarrow>
      scEnd cfg i j = scEnd cfg k l \<Longrightarrow> i = k \<and> j = l"
    and "i \<in> {0..<scN cfg} \<Longrightarrow> servers (scNet cfg) i \<noteq> None \<longleftrightarrow> scServers cfg ! nat i \<noteq> None"
  using assms unfolding svc_ok_def by blast+

lemma svc_okI:
  assumes "sizes_ok cfg"
    and "\<And>i j. i \<in> {0..<scN cfg} \<Longrightarrow> j \<in> {0..<scN cfg} \<Longrightarrow> rowMade cfg i \<Longrightarrow>
      ends (scNet cfg) (scEnd cfg i j) \<and> connections (scNet cfg) (scEnd cfg i j) = Some j"
    and "\<And>i j k l. i \<in> {0..<scN cfg} \<Longrightarrow> j \<in> {0..<scN cfg} \<Longrightarrow> k \<in> {0..<scN cfg} \<Longrightarrow> l \<in> {0..<scN cfg} \<Longrightarrow> rowMade cfg i \<Longrightarrow> rowMade cfg k \<Longrightarrow>
      scEnd cfg i j = scEnd cfg k l \<Longrightarrow> i = k \<and> j = l"
    and "\<And>i. i \<in> {0..<scN cfg} \<Longrightarrow> servers (scNet cfg) i \<noteq> None \<longleftrightarrow> scServers cfg ! nat i \<noteq> None"
  shows "svc_ok cfg"
  using assms unfolding svc_ok_def by blast

text \<open>The table stays, ends are only added, servers start and stop.\<close>

lemma svc_ok_frame:
  assumes "svc_ok cfg" "scN cfg' = scN cfg" "scEndnames cfg' = scEndnames cfg" "length (scServers cfg') = length (scServers cfg)"
    "length (scSaved cfg') = length (scSaved cfg)"
    and ends: "\<And>e. ends (scNet cfg) e \<Longrightarrow> ends (scNet cfg') e \<and> connections (scNet cfg') e = connections (scNet cfg) e"
    and live: "\<And>i. i \<in> {0..<scN cfg} \<Longrightarrow> servers (scNet cfg') i \<noteq> None \<longleftrightarrow> scServers cfg' ! nat i \<noteq> None"
  shows "svc_ok cfg'"
proof -
  have same: "scEnd cfg' = scEnd cfg" "rowMade cfg' = rowMade cfg" using assms(3) by (simp_all add: scEnd_def rowMade_def fun_eq_iff)
  show ?thesis
  proof (rule svc_okI, unfold same assms(2))
    show "sizes_ok cfg'" using svc_okD(1) [OF assms(1)] assms(2-5) by (simp add: sizes_ok_def)
    show "servers (scNet cfg') i \<noteq> None \<longleftrightarrow> scServers cfg' ! nat i \<noteq> None" if "i \<in> {0..<scN cfg}" for i using live [OF that] .
    show "ends (scNet cfg') (scEnd cfg i j) \<and> connections (scNet cfg') (scEnd cfg i j) = Some j"
      if "i \<in> {0..<scN cfg}" "j \<in> {0..<scN cfg}" "rowMade cfg i" for i j
      using ends [OF svc_okD(2) [OF assms(1) that]] svc_okD(3) [OF assms(1) that] by simp
    show "i = k \<and> j = l" if "i \<in> {0..<scN cfg}" "j \<in> {0..<scN cfg}" "k \<in> {0..<scN cfg}" "l \<in> {0..<scN cfg}" "rowMade cfg i" "rowMade cfg k"
      "scEnd cfg i j = scEnd cfg k l" for i j k l using svc_okD(4) [OF assms(1) that] .
  qed
qed

lemma svc_ok_table:
  assumes "svc_ok cfg" "\<And>i. i \<in> {0..<scN cfg} \<Longrightarrow> rowMade cfg i"
  shows "table_ok cfg"
proof -
  have "length row = nat (scN cfg)" if "row \<in> set (scEndnames cfg)" for row
  proof -
    have sz: "length (scEndnames cfg) = nat (scN cfg)" using svc_okD(1) [OF assms(1)] by (simp add: sizes_ok_def)
    from that obtain k where "k < length (scEndnames cfg)" "row = scEndnames cfg ! k" by (auto simp: in_set_conv_nth)
    with sz assms(2) [of "int k"] have "row \<noteq> []" by (simp add: rowMade_def)
    with svc_okD(1) [OF assms(1)] that show ?thesis by (auto simp: sizes_ok_def)
  qed
  moreover have "length (scEndnames cfg) = nat (scN cfg)" using svc_okD(1) [OF assms(1)] by (simp add: sizes_ok_def)
  moreover have "i = k \<and> j = l" if "i \<in> {0..<scN cfg} \<and> j \<in> {0..<scN cfg} \<and> k \<in> {0..<scN cfg} \<and> l \<in> {0..<scN cfg} \<and> scEnd cfg i j = scEnd cfg k l" for i j k l
    using svc_okD(4) [OF assms(1), of i j k l] assms(2) that by blast
  ultimately show ?thesis unfolding table_ok_def by blast
qed

subsection \<open>Operations that only switch ends\<close>

definition rewired :: "('s, 'c, 'o, 'b, 'z) svc_config_scheme \<Rightarrow> ('s, 'c, 'o, 'b, 'z) svc_config_scheme \<Rightarrow> bool" where
  "rewired cfg cfg' \<longleftrightarrow> (\<exists>rn. cfg' = onSc (\<lambda>_. rn) cfg \<and> wires rn = wires (scNet cfg))"

lemma rewired_refl [simp]: "rewired cfg cfg"
  unfolding rewired_def by (rule exI [of _ "scNet cfg"]) (simp add: onSc_def)

lemma rewired_trans: "rewired a b \<Longrightarrow> rewired b c \<Longrightarrow> rewired a c"
  by (auto simp: rewired_def)

lemma rewired_Enable [simp]: "rewired cfg (onSc (Enable e b) cfg)"
  unfolding rewired_def by (rule exI [of _ "Enable e b (scNet cfg)"]) (simp add: onSc_def Enable_def wires_def)

lemma rewired_fields:
  assumes "rewired cfg cfg'"
  shows "scN cfg' = scN cfg" "scEndnames cfg' = scEndnames cfg" "scServers cfg' = scServers cfg" "scSaved cfg' = scSaved cfg"
    "scClerks cfg' = scClerks cfg" "ends (scNet cfg') = ends (scNet cfg)" "connections (scNet cfg') = connections (scNet cfg)" "servers (scNet cfg') = servers (scNet cfg)"
proof -
  from assms obtain rn where eq: "cfg' = onSc (\<lambda>_. rn) cfg" and w: "wires rn = wires (scNet cfg)" by (auto simp: rewired_def)
  from eq show "scN cfg' = scN cfg" "scEndnames cfg' = scEndnames cfg" "scServers cfg' = scServers cfg" "scSaved cfg' = scSaved cfg"
    "scClerks cfg' = scClerks cfg" by (simp_all add: onSc_def)
  from wires_eqD [OF w] eq show "ends (scNet cfg') = ends (scNet cfg)" "connections (scNet cfg') = connections (scNet cfg)"
    "servers (scNet cfg') = servers (scNet cfg)" by simp_all
qed

lemma rewired_ok: "svc_ok cfg \<Longrightarrow> rewired cfg cfg' \<Longrightarrow> svc_ok cfg'"
  using rewired_fields [of cfg cfg'] svc_okD(5) [of cfg] by (intro svc_ok_frame [of cfg cfg']) simp_all

lemma rewired_loop:
  assumes "foldE body js cfg = Inr cfg'" "\<And>j c c'. body j c = Inr c' \<Longrightarrow> rewired c c'"
  shows "rewired cfg cfg'"
  using assms(1) by (rule foldE_Inr_rule [where I = "\<lambda>_ c. rewired cfg c"]) (simp, blast intro: assms(2) rewired_trans)

lemma rewired_loops:
  assumes "bindE (foldE body js cfg) (\<lambda>c. foldE body' ks c) = Inr cfg'"
    and "\<And>j c c'. body j c = Inr c' \<Longrightarrow> rewired c c'" "\<And>j c c'. body' j c = Inr c' \<Longrightarrow> rewired c c'"
  shows "rewired cfg cfg'"
proof -
  from assms(1) obtain c where "foldE body js cfg = Inr c" "foldE body' ks c = Inr cfg'" by (auto simp: bindE_eq_Inr_iff)
  with rewired_loop [of body js cfg c] rewired_loop [of body' ks c cfg'] assms(2,3) show ?thesis by (meson rewired_trans)
qed

lemma connectUnlocked_rewired: "connectUnlocked i to cfg = Inr cfg' \<Longrightarrow> rewired cfg cfg'"
  unfolding connectUnlocked_def by (erule rewired_loops) (auto simp: bindE_eq_Inr_iff)

lemma disconnectUnlocked_rewired: "disconnectUnlocked i from cfg = Inr cfg' \<Longrightarrow> rewired cfg cfg'"
  unfolding disconnectUnlocked_def by (erule rewired_loops) (auto simp: bindE_eq_Inr_iff split: if_splits)

lemma ConnectAll_rewired: "ConnectAll cfg = Inr cfg' \<Longrightarrow> rewired cfg cfg'"
  unfolding ConnectAll_def by (erule rewired_loop) (rule connectUnlocked_rewired)

lemma partition_rewired:
  assumes "partition p1 p2 cfg = Inr cfg'"
  shows "rewired cfg cfg'"
proof -
  have body: "rewired c c'" if "bindE (disconnectUnlocked i q c) (connectUnlocked i p) = Inr c'" for c c' i p q
    using that by (auto simp: bindE_eq_Inr_iff intro: rewired_trans disconnectUnlocked_rewired connectUnlocked_rewired)
  from rewired_loops [OF assms [unfolded partition_def]] body show ?thesis by blast
qed

lemma ConnectClient_rewired: "ConnectClientUnlocked ck to cfg = Inr cfg' \<Longrightarrow> rewired cfg cfg'"
  unfolding ConnectClientUnlocked_def Let_def by (erule rewired_loop) (auto simp: bindE_eq_Inr_iff)

lemma DisconnectClient_rewired: "DisconnectClientUnlocked ck from cfg = Inr cfg' \<Longrightarrow> rewired cfg cfg'"
  unfolding DisconnectClientUnlocked_def Let_def by (erule rewired_loop) (auto simp: bindE_eq_Inr_iff)

subsection \<open>Clients and servers\<close>

lemma makeEnds_frame:
  assumes "makeEnds name target js rn = Inr rn'" "distinct js"
  shows "inj_on name (set js)" "\<And>j. j \<in> set js \<Longrightarrow> \<not> ends rn (name j)"
    "ends rn e \<Longrightarrow> ends rn' e \<and> connections rn' e = connections rn e"
    "j \<in> set js \<Longrightarrow> ends rn' (name j) \<and> connections rn' (name j) = Some (target j)"
    "servers rn' = servers rn"
proof -
  from makeEnds_Inr [OF assms(1)] assms(2) show new: "inj_on name (set js)" "\<And>j. j \<in> set js \<Longrightarrow> \<not> ends rn (name j)" by blast+
  from makeEnds_fresh [OF new assms(2), of target] assms(1) have rn': "ends rn' = (\<lambda>e. ends rn e \<or> e \<in> name ` set js)"
    "\<forall>j\<in>set js. connections rn' (name j) = Some (target j)" "\<forall>e. e \<notin> name ` set js \<longrightarrow> connections rn' e = connections rn e"
    "servers rn' = servers rn" by auto
  show "ends rn' e \<and> connections rn' e = connections rn e" if "ends rn e"
  proof -
    have "e \<notin> name ` set js" using that new(2) by blast
    with rn' that show ?thesis by simp
  qed
  from rn' show "j \<in> set js \<Longrightarrow> ends rn' (name j) \<and> connections rn' (name j) = Some (target j)" "servers rn' = servers rn" by simp_all
qed

lemma makeClient_ok:
  assumes "svc_ok cfg" "makeClient mkClerk randname intn ck to cfg = Inr (cfg', handles, clerk)"
  shows "svc_ok cfg'" "scN cfg' = scN cfg" "scEndnames cfg' = scEndnames cfg"
proof -
  define es where "es = map randname [0..scN cfg - 1]"
  from assms(2) obtain rn where rn: "makeEnds randname (\<lambda>j. j) [0..scN cfg - 1] (scNet cfg) = Inr rn"
    and c': "ConnectClientUnlocked ck to (cfg\<lparr>scNet := rn, scClerks := (scClerks cfg)(ck \<mapsto> es), scNextClientId := scNextClientId cfg + 1\<rparr>) = Inr cfg'"
    by (auto simp: makeClient_def Let_def bindE_eq_Inr_iff es_def)
  note frame = makeEnds_frame [OF rn distinct_upto]
  have "svc_ok (cfg\<lparr>scNet := rn, scClerks := (scClerks cfg)(ck \<mapsto> es), scNextClientId := scNextClientId cfg + 1\<rparr>)"
    by (rule svc_ok_frame [OF assms(1)]) (use frame(3,5) svc_okD(5) [OF assms(1)] in simp_all)
  from rewired_ok [OF this ConnectClient_rewired [OF c']] show "svc_ok cfg'" .
  from rewired_fields [OF ConnectClient_rewired [OF c']] show "scN cfg' = scN cfg" "scEndnames cfg' = scEndnames cfg" by simp_all
qed

lemma shutdownServer_ok:
  assumes "svc_ok cfg" "shutdownServer raftOf kill i cfg = Inr cfg'"
  shows "svc_ok cfg'" "scN cfg' = scN cfg" "scEndnames cfg' = scEndnames cfg"
proof -
  from assms(2) obtain c where c: "disconnectUnlocked i (AllServers cfg) cfg = Inr c" by (auto simp: shutdownServer_def bindE_eq_Inr_iff)
  note re = disconnectUnlocked_rewired [OF c]
  note same = rewired_fields [OF re]
  from assms(2) c obtain ps saved srvs where saved: "go_update (scSaved c) i ps = Inr saved"
    and srvs: "scServers c ! nat i = None \<and> srvs = scServers c \<or> srvs = (scServers c)[nat i := None]" "0 \<le> i" "i < int (length (scServers c))"
    and c': "cfg' = (onSc (DeleteServer i) c)\<lparr>scSaved := saved, scServers := srvs\<rparr>"
    by (auto simp: shutdownServer_def bindE_eq_Inr_iff go_nth_eq_Inr_iff go_update_eq_Inr_iff Let_def split: option.splits)
  have lens: "length saved = length (scSaved c)" "length srvs = length (scServers c)" using saved srvs by (auto simp: go_update_eq_Inr_iff)
  have at: "srvs ! nat k = (if k = i then None else scServers c ! nat k)" if "k \<in> {0..<scN c}" for k
    using srvs that by (auto simp: nth_list_update eq_nat_nat_iff)
  have ok: "svc_ok c" using assms(1) re by (rule rewired_ok)
  show "svc_ok cfg'"
    by (rule svc_ok_frame [OF ok]) (use lens at svc_okD(5) [OF ok] in \<open>auto simp: c' DeleteServer_def\<close>)
  show "scN cfg' = scN cfg" "scEndnames cfg' = scEndnames cfg" using same by (simp_all add: c')
qed

lemma startServer_eq:
  assumes "startServer raftOf boot svcs randname i cfg = Inr cfg'"
  shows "\<exists>rn saved srv. makeEnds randname (\<lambda>j. j) [0..scN cfg - 1] (scNet cfg) = Inr rn \<and> length saved = length (scSaved cfg) \<and>
    0 \<le> i \<and> i < int (length (scServers cfg)) \<and>
    cfg' = cfg\<lparr>scEndnames := (scEndnames cfg)[nat i := map randname [0..scN cfg - 1]], scSaved := saved, scServers := (scServers cfg)[nat i := Some srv],
      scHeap := scHeap cfg @ [fold AddService svcs MakeServer], scNet := AddServer i (length (scHeap cfg)) rn\<rparr>"
proof -
  from assms obtain rn ps srv where "makeEnds randname (\<lambda>j. j) [0..scN cfg - 1] (scNet cfg) = Inr rn" "0 \<le> i" "i < int (length (scServers cfg))"
    "cfg' = cfg\<lparr>scEndnames := (scEndnames cfg)[nat i := map randname [0..scN cfg - 1]], scSaved := (scSaved cfg)[nat i := Some ps],
      scServers := (scServers cfg)[nat i := Some srv], scHeap := scHeap cfg @ [fold AddService svcs MakeServer], scNet := AddServer i (length (scHeap cfg)) rn\<rparr>"
    by (auto simp: startServer_def bindE_eq_Inr_iff go_update_eq_Inr_iff Let_def)
  then show ?thesis by (intro exI [of _ rn] exI [of _ "(scSaved cfg)[nat i := Some ps]"] exI [of _ srv]) simp
qed

lemma startServer_ok:
  assumes "svc_ok cfg" "startServer raftOf boot svcs randname i cfg = Inr cfg'"
  shows "svc_ok cfg'" "scN cfg' = scN cfg" "k \<in> {0..<scN cfg} \<Longrightarrow> rowMade cfg' k \<longleftrightarrow> k = i \<or> rowMade cfg k"
    "k \<in> {0..<scN cfg} \<Longrightarrow> scServers cfg' ! nat k = None \<longleftrightarrow> k \<noteq> i \<and> scServers cfg ! nat k = None"
proof -
  let ?R = "{0..<scN cfg}"
  from startServer_eq [OF assms(2)] obtain rn saved srv where rn: "makeEnds randname (\<lambda>j. j) [0..scN cfg - 1] (scNet cfg) = Inr rn"
    and lens: "length saved = length (scSaved cfg)" "0 \<le> i" "i < int (length (scServers cfg))"
    and c': "cfg' = cfg\<lparr>scEndnames := (scEndnames cfg)[nat i := map randname [0..scN cfg - 1]], scSaved := saved, scServers := (scServers cfg)[nat i := Some srv],
      scHeap := scHeap cfg @ [fold AddService svcs MakeServer], scNet := AddServer i (length (scHeap cfg)) rn\<rparr>" by blast
  note frame = makeEnds_frame [OF rn distinct_upto]
  note sz = svc_okD(1) [OF assms(1), unfolded sizes_ok_def]
  have i: "i \<in> ?R" using lens sz by (auto split: if_splits)
  have row: "scEndnames cfg' ! nat k = (if k = i then map randname [0..scN cfg - 1] else scEndnames cfg ! nat k)" if "k \<in> ?R" for k
    using that i sz by (auto simp: c' nth_list_update eq_nat_nat_iff)
  have made: "rowMade cfg' k \<longleftrightarrow> k = i \<or> rowMade cfg k" if "k \<in> ?R" for k
    using row [OF that] that by (auto simp: rowMade_def)
  have "end": "scEnd cfg' k j = (if k = i then randname j else scEnd cfg k j)" if "k \<in> ?R" "j \<in> ?R" for k j
    using row [OF that(1)] that(2) by (simp add: scEnd_def)
  have up: "j \<in> set [0..scN cfg - 1] \<longleftrightarrow> j \<in> ?R" for j by auto
  show N: "scN cfg' = scN cfg" by (simp add: c')
  have net: "ends (scNet cfg') = ends rn" "connections (scNet cfg') = connections rn" "servers (scNet cfg') = (servers rn)(i \<mapsto> length (scHeap cfg))"
    by (simp_all add: c' AddServer_def)
  have srv: "scServers cfg' ! nat k = (if k = i then Some srv else scServers cfg ! nat k)" if "k \<in> ?R" for k
    using that i sz by (auto simp: c' nth_list_update eq_nat_nat_iff)
  from made srv show "k \<in> ?R \<Longrightarrow> rowMade cfg' k \<longleftrightarrow> k = i \<or> rowMade cfg k"
    "k \<in> ?R \<Longrightarrow> scServers cfg' ! nat k = None \<longleftrightarrow> k \<noteq> i \<and> scServers cfg ! nat k = None" by auto
  show "svc_ok cfg'"
  proof (rule svc_okI, unfold N)
    have "row = [] \<or> length row = nat (scN cfg)" if "row \<in> set (scEndnames cfg')" for row
      using that sz set_update_subset_insert [of "scEndnames cfg" "nat i" "map randname [0..scN cfg - 1]"] by (auto simp: c')
    then show "sizes_ok cfg'" using sz lens unfolding sizes_ok_def N by (simp add: c')
    show "ends (scNet cfg') (scEnd cfg' k j) \<and> connections (scNet cfg') (scEnd cfg' k j) = Some j" if "k \<in> ?R" "j \<in> ?R" "rowMade cfg' k" for k j
    proof (cases "k = i")
      case True
      then show ?thesis using frame(4) [of j] that(2) unfolding "end" [OF that(1,2)] net up by simp
    next
      case False
      with made [OF that(1)] that(3) have "rowMade cfg k" by simp
      from frame(3) [OF svc_okD(2) [OF assms(1) that(1,2) this]] svc_okD(3) [OF assms(1) that(1,2) this] False
      show ?thesis unfolding "end" [OF that(1,2)] net by simp
    qed
    show "a = c \<and> b = d" if ab: "a \<in> ?R" "b \<in> ?R" "c \<in> ?R" "d \<in> ?R" "rowMade cfg' a" "rowMade cfg' c" "scEnd cfg' a b = scEnd cfg' c d" for a b c d
    proof (rule new_row_distinct [where R = ?R and E = "scEnd cfg" and E' = "scEnd cfg'" and made = "rowMade cfg" and made' = "rowMade cfg'" and i = i and name = randname])
      have "set [0..scN cfg - 1] = ?R" by auto
      then show "inj_on randname ?R" using frame(1) by simp
      show "scEnd cfg k j \<noteq> randname l" if "k \<in> ?R" "j \<in> ?R" "l \<in> ?R" "rowMade cfg k" for k j l
        using frame(2) [of l] svc_okD(2) [OF assms(1) that(1,2,4)] that(3) unfolding up by auto
    qed (use ab "end" made svc_okD(4) [OF assms(1)] in blast)+
    show "servers (scNet cfg') k \<noteq> None \<longleftrightarrow> scServers cfg' ! nat k \<noteq> None" if "k \<in> ?R" for k
      using svc_okD(5) [OF assms(1) that] frame(5) unfolding net srv [OF that] by simp
  qed
qed

subsection \<open>The tester of \<open>kvraft\<close>\<close>

text \<open>
  One operation of the tester on the configuration, or one step of a server or of a request. What a
  running server does is not constrained.
\<close>

inductive kv_step :: "('o, 'b) kv_config \<Rightarrow> ('o, 'b) kv_config \<Rightarrow> bool" where
  kv_connect: "connectUnlocked i to cfg = Inr cfg' \<Longrightarrow> kv_step cfg cfg'"
| kv_disconnect: "disconnectUnlocked i from cfg = Inr cfg' \<Longrightarrow> kv_step cfg cfg'"
| kv_connectAll: "ConnectAll cfg = Inr cfg' \<Longrightarrow> kv_step cfg cfg'"
| kv_partition: "partition p1 p2 cfg = Inr cfg' \<Longrightarrow> kv_step cfg cfg'"
| kv_makeClient: "kvMakeClient randname intn ck to cfg = Inr (cfg', handles, clerk) \<Longrightarrow> kv_step cfg cfg'"
| kv_connectClient: "ConnectClientUnlocked ck to cfg = Inr cfg' \<Longrightarrow> kv_step cfg cfg'"
| kv_disconnectClient: "DisconnectClientUnlocked ck from cfg = Inr cfg' \<Longrightarrow> kv_step cfg cfg'"
| kv_deleteClient: "deleteClient (\<lambda>_ fs. fs) ck () cfg = (fs, cfg') \<Longrightarrow> kv_step cfg cfg'"
| kv_shutdown: "kvShutdownServer i cfg = Inr cfg' \<Longrightarrow> kv_step cfg cfg'"
| kv_start: "kvStartServer kvms rfms randname i cfg = Inr cfg' \<Longrightarrow> kv_step cfg cfg'"
| kv_begin: "kv_step cfg (kvBegin now cfg)"
| kv_op: "kv_step cfg (kvOp cfg)"
| kv_reliable: "kv_step cfg (onSc (Reliable b) cfg)"
| kv_reordering: "kv_step cfg (onSc (LongReordering b) cfg)"
| kv_send: "kv_step cfg (onSc (\<lambda>rn. rn\<lparr>netCount := netCount rn + 1\<rparr>) cfg)"
| kv_server: "i \<in> {0..<scN cfg} \<Longrightarrow> scServers cfg ! nat i = Some kv \<Longrightarrow> kv_step cfg (cfg\<lparr>scServers := (scServers cfg)[nat i := Some kv']\<rparr>)"

definition kv_ok :: "int \<Rightarrow> ('o, 'b) kv_config \<Rightarrow> bool" where
  "kv_ok n cfg \<longleftrightarrow> svc_ok cfg \<and> scN cfg = n \<and> (\<forall>i\<in>{0..<n}. rowMade cfg i)"

lemma kv_ok_same_table:
  "kv_ok n cfg \<Longrightarrow> svc_ok cfg' \<Longrightarrow> scN cfg' = scN cfg \<Longrightarrow> scEndnames cfg' = scEndnames cfg \<Longrightarrow> kv_ok n cfg'"
  by (simp add: kv_ok_def rowMade_def)

lemma kv_ok_rewired: "kv_ok n cfg \<Longrightarrow> rewired cfg cfg' \<Longrightarrow> kv_ok n cfg'"
proof -
  assume ok: "kv_ok n cfg" and re: "rewired cfg cfg'"
  then have "svc_ok cfg'" using rewired_ok [OF _ re] by (simp add: kv_ok_def)
  from kv_ok_same_table [OF ok this rewired_fields(1,2) [OF re]] show ?thesis .
qed

lemma kv_ok_frame:
  assumes "kv_ok n cfg" "scN cfg' = scN cfg" "scEndnames cfg' = scEndnames cfg" "length (scSaved cfg') = length (scSaved cfg)"
    "ends (scNet cfg') = ends (scNet cfg)" "connections (scNet cfg') = connections (scNet cfg)" "servers (scNet cfg') = servers (scNet cfg)"
    "length (scServers cfg') = length (scServers cfg)" "\<And>i. i \<in> {0..<scN cfg} \<Longrightarrow> scServers cfg' ! nat i = None \<longleftrightarrow> scServers cfg ! nat i = None"
  shows "kv_ok n cfg'"
proof -
  have ok: "svc_ok cfg" using assms(1) by (simp add: kv_ok_def)
  have "svc_ok cfg'" by (rule svc_ok_frame [OF ok]) (use assms svc_okD(5) [OF ok] in simp_all)
  from kv_ok_same_table [OF assms(1) this assms(2,3)] show ?thesis .
qed

lemma kv_ok_step: "kv_step cfg cfg' \<Longrightarrow> kv_ok n cfg \<Longrightarrow> kv_ok n cfg'"
proof (induction rule: kv_step.induct)
  case (kv_shutdown i cfg cfg')
  then show ?case using shutdownServer_ok [of cfg rf kvKill i cfg'] kv_ok_same_table [of n cfg cfg']
    by (simp add: kvShutdownServer_def kv_ok_def rowMade_def)
next
  case (kv_start kvms rfms randname i cfg cfg')
  then have "svc_ok cfg" and st: "startServer rf (\<lambda>ps. StartKVServer (scN cfg) i ps (kcMaxraftstate cfg))
      [MakeService ''KVServer'' kvms, MakeService ''Raft'' rfms] randname i cfg = Inr cfg'"
    by (simp_all add: kv_ok_def kvStartServer_def)
  from startServer_ok [OF this] kv_start.prems show ?case by (simp add: kv_ok_def)
next
  case (kv_makeClient randname intn ck to cfg cfg' handles clerk)
  then have "svc_ok cfg" by (simp add: kv_ok_def)
  from makeClient_ok [OF this kv_makeClient.hyps [unfolded kvMakeClient_def]] show ?case by (rule kv_ok_same_table [OF kv_makeClient.prems])
next
  case (kv_server i cfg kv kv')
  then have "length (scServers cfg) = nat (scN cfg)" by (auto simp: kv_ok_def sizes_ok_def dest: svc_okD(1))
  then show ?case by (intro kv_ok_frame [OF kv_server.prems]) (use kv_server.hyps in \<open>auto simp: nth_list_update eq_nat_nat_iff\<close>)
next
  case (kv_deleteClient ck cfg fs cfg')
  then show ?case by (intro kv_ok_frame [of n cfg cfg']) (auto simp: deleteClient_def)
qed ((erule kv_ok_rewired, erule connectUnlocked_rewired disconnectUnlocked_rewired ConnectAll_rewired partition_rewired ConnectClient_rewired DisconnectClient_rewired)
    | (erule kv_ok_frame; simp add: kvBegin_def kvOp_def Reliable_def LongReordering_def))+

interpretation kvTester: inductive_invariant "kv_ok n" kv_step "kv_ok n" for n
  by unfold_locales (use kv_ok_step in blast)+

definition freshKv :: "int \<Rightarrow> int \<Rightarrow> int \<Rightarrow> ('o, 'b) kv_config" where
  "freshKv now n maxstate = svc_config.extend (freshSc now n) (kv_config.fields maxstate 0 0 0)"

lemma freshKv_fields:
  "scN (freshKv now n maxstate) = n" "scEndnames (freshKv now n maxstate) = replicate (nat n) []" "scServers (freshKv now n maxstate) = replicate (nat n) None"
  "scSaved (freshKv now n maxstate) = replicate (nat n) None" "scNet (freshKv now n maxstate) = MakeNetwork"
  by (simp_all add: freshKv_def freshSc_def svc_config.defs kv_config.defs)

lemma freshKv_ok: "0 \<le> n \<Longrightarrow> svc_ok (freshKv now n maxstate)"
  by (rule svc_okI) (auto simp: sizes_ok_def freshKv_fields rowMade_def MakeNetwork_def)

lemma kv_make_config_eq:
  "0 \<le> n \<Longrightarrow> kv_make_config now kvms rfms randname n unreliable maxstate =
    bindE (foldE (\<lambda>i. kvStartServer (kvms i) (rfms i) (randname i) i) [0..n - 1] (freshKv now n maxstate)) (\<lambda>cfg.
    bindE (ConnectAll cfg) (\<lambda>cfg. Inr (onSc (Reliable (\<not> unreliable)) cfg)))"
  by (simp add: kv_make_config_def freshKv_def)

lemma kv_make_config_ok:
  assumes "kv_make_config now kvms rfms randname n unreliable maxstate = Inr cfg"
  shows "kv_ok n cfg" "\<And>i. i \<in> {0..<n} \<Longrightarrow> scServers cfg ! nat i \<noteq> None"
proof -
  let ?start = "\<lambda>i. kvStartServer (kvms i) (rfms i) (randname i) i"
  have n: "0 \<le> n" using assms by (simp add: kv_make_config_def split: if_splits)
  with assms obtain c d where c: "foldE ?start [0..n - 1] (freshKv now n maxstate) = Inr c" and d: "ConnectAll c = Inr d"
    and cfg: "cfg = onSc (Reliable (\<not> unreliable)) d" by (auto simp: kv_make_config_eq bindE_eq_Inr_iff)
  have "svc_ok c \<and> scN c = n \<and> (\<forall>i\<in>set [0..n - 1]. rowMade c i \<and> scServers c ! nat i \<noteq> None)"
  proof (rule foldE_Inr_rule [OF c, where I = "\<lambda>dn c. svc_ok c \<and> scN c = n \<and> (\<forall>i\<in>set dn. rowMade c i \<and> scServers c ! nat i \<noteq> None)"])
    fix dn i u u'
    assume u: "svc_ok u \<and> scN u = n \<and> (\<forall>i\<in>set dn. rowMade u i \<and> scServers u ! nat i \<noteq> None)" and dn: "set dn \<subseteq> set [0..n - 1]" "i \<in> set [0..n - 1]"
      and st: "?start i u = Inr u'"
    note ok = startServer_ok [OF conjunct1 [OF u] st [unfolded kvStartServer_def]]
    have "k \<in> {0..<scN u}" if "k \<in> set (dn @ [i])" for k using dn that u by auto
    with ok u show "svc_ok u' \<and> scN u' = n \<and> (\<forall>i\<in>set (dn @ [i]). rowMade u' i \<and> scServers u' ! nat i \<noteq> None)" by auto
  qed (use freshKv_ok [OF n] in \<open>simp add: freshKv_fields\<close>)
  then have c_ok: "kv_ok n c" and run: "\<And>i. i \<in> {0..<n} \<Longrightarrow> scServers c ! nat i \<noteq> None" by (auto simp: kv_ok_def)
  note d_ok = kv_ok_rewired [OF c_ok ConnectAll_rewired [OF d]]
  show "kv_ok n cfg" unfolding cfg by (rule kv_ok_step [OF kv_reliable d_ok])
  show "i \<in> {0..<n} \<Longrightarrow> scServers cfg ! nat i \<noteq> None" for i using run rewired_fields(3) [OF ConnectAll_rewired [OF d]] by (simp add: cfg)
qed

definition isLeading :: "('s \<Rightarrow> 'c Raft) \<Rightarrow> 's option list \<Rightarrow> int \<Rightarrow> bool" where
  "isLeading raftOf srvs i = (case srvs ! nat i of None \<Rightarrow> False | Some srv \<Rightarrow> snd (GetState (raftOf srv)))"

lemma findLeader_eq:
  assumes "\<And>i. i \<in> set is \<Longrightarrow> 0 \<le> i \<and> i < int (length srvs) \<and> srvs ! nat i \<noteq> None"
  shows "findLeader raftOf srvs is = Inr (case find (isLeading raftOf srvs) is of None \<Rightarrow> (False, 0) | Some l \<Rightarrow> (True, l))"
  using assms
proof (induction "is")
  case (Cons i "is")
  from Cons.prems [of i] obtain srv where "go_nth srvs i = Inr (Some srv)" "srvs ! nat i = Some srv" by auto
  with Cons show ?case by (simp add: isLeading_def)
qed simp

lemma scLeader_range:
  assumes "0 < scN cfg" "length (scServers cfg) = nat (scN cfg)" "\<And>i. i \<in> {0..<scN cfg} \<Longrightarrow> scServers cfg ! nat i \<noteq> None"
  shows "\<exists>found l. scLeader raftOf cfg = Inr (found, l) \<and> l \<in> {0..<scN cfg} \<and> (found \<longrightarrow> isLeading raftOf (scServers cfg) l)"
proof -
  have eq: "scLeader raftOf cfg = Inr (case find (isLeading raftOf (scServers cfg)) [0..scN cfg - 1] of None \<Rightarrow> (False, 0) | Some l \<Rightarrow> (True, l))"
    unfolding scLeader_def by (rule findLeader_eq) (use assms(2,3) in auto)
  show ?thesis
  proof (cases "find (isLeading raftOf (scServers cfg)) [0..scN cfg - 1]")
    case None
    then show ?thesis using eq assms(1) by (intro exI [of _ False] exI [of _ 0]) simp
  next
    case (Some k)
    then have "k \<in> set [0..scN cfg - 1]" "isLeading raftOf (scServers cfg) k" by (auto simp: find_Some_iff intro: nth_mem)
    then show ?thesis using eq Some by auto
  qed
qed

lemma kvStartServer_fresh:
  assumes "svc_ok cfg" "i \<in> {0..<scN cfg}" "inj_on name {0..<scN cfg}" "\<And>j. j \<in> {0..<scN cfg} \<Longrightarrow> \<not> ends (scNet cfg) (name j)"
    and "scSaved cfg ! nat i = None"
  shows "\<exists>cfg'. kvStartServer kvms rfms name i cfg = Inr cfg' \<and> scSaved cfg' = (scSaved cfg)[nat i := Some MakePersister] \<and>
    ends (scNet cfg') = (\<lambda>e. ends (scNet cfg) e \<or> e \<in> name ` {0..<scN cfg})"
proof -
  have up: "set [0..scN cfg - 1] = {0..<scN cfg}" by auto
  from makeEnds_fresh [of name "[0..scN cfg - 1]" "scNet cfg" "\<lambda>j. j"] assms(3,4) obtain rn where
    rn: "makeEnds name (\<lambda>j. j) [0..scN cfg - 1] (scNet cfg) = Inr rn" "ends rn = (\<lambda>e. ends (scNet cfg) e \<or> e \<in> name ` {0..<scN cfg})"
    unfolding up by auto
  have "int (length (scEndnames cfg)) = scN cfg" "int (length (scServers cfg)) = scN cfg" "int (length (scSaved cfg)) = scN cfg"
    using svc_okD(1) [OF assms(1)] assms(2) by (simp_all add: sizes_ok_def)
  then show ?thesis using assms(2,5) rn
    by (simp add: kvStartServer_def startServer_def scSavedNow_def StartKVServer_def Make_fresh AddServer_def)
qed

lemma ConnectAll_succeeds:
  assumes "table_ok cfg"
  shows "\<exists>cfg'. ConnectAll cfg = Inr cfg'"
proof -
  have "\<exists>cfg'. ConnectAll cfg = Inr cfg' \<and> (table_ok cfg' \<and> scN cfg' = scN cfg)"
    unfolding ConnectAll_def
  proof (rule foldE_rule [where I = "\<lambda>_ c. table_ok c \<and> scN c = scN cfg"])
    fix dn i c
    assume c: "table_ok c \<and> scN c = scN cfg" and i: "i \<in> set [0..scN cfg - 1]"
    then have "i \<in> {0..<scN c}" "set (AllServers c) \<subseteq> {0..<scN c}" by (auto simp: AllServers_def)
    from connectUnlocked_eq [OF conjunct1 [OF c] this] c
    show "\<exists>c'. connectUnlocked i (AllServers c) c = Inr c' \<and> (table_ok c' \<and> scN c' = scN cfg)" by auto
  qed (use assms in simp)
  then show ?thesis by blast
qed

lemma kv_make_config_succeeds:
  assumes n: "0 \<le> n"
    and inj: "\<And>i j k l. i \<in> {0..<n} \<Longrightarrow> j \<in> {0..<n} \<Longrightarrow> k \<in> {0..<n} \<Longrightarrow> l \<in> {0..<n} \<Longrightarrow> randname i j = randname k l \<Longrightarrow> i = k \<and> j = l"
  shows "\<exists>cfg :: ('o, 'b) kv_config. kv_make_config now kvms rfms randname n unreliable maxstate = Inr cfg"
proof -
  let ?start = "\<lambda>i. kvStartServer (kvms i) (rfms i) (randname i) i"
  let ?I = "\<lambda>dn (c :: ('o, 'b) kv_config). svc_ok c \<and> scN c = n \<and> (\<forall>i\<in>set dn. rowMade c i) \<and> (\<forall>i\<in>{0..<n}. i \<notin> set dn \<longrightarrow> scSaved c ! nat i = None) \<and>
    (\<forall>e. ends (scNet c) e \<longrightarrow> (\<exists>i\<in>set dn. \<exists>j\<in>{0..<n}. e = randname i j))"
  have "\<exists>c. foldE ?start [0..n - 1] (freshKv now n maxstate) = Inr c \<and> ?I [0..n - 1] c"
  proof (rule foldE_prefix_rule)
    show "?I [] (freshKv now n maxstate)" using freshKv_ok [OF n] by (auto simp: freshKv_fields MakeNetwork_def)
  next
    fix dn i rest and c :: "('o, 'b) kv_config"
    assume pre: "[0..n - 1] = dn @ i # rest" and c: "?I dn c"
    note i = upto_prefix [OF pre]
    have "inj_on (randname i) {0..<n}" "\<And>j. j \<in> {0..<n} \<Longrightarrow> \<not> ends (scNet c) (randname i j)"
      using next_row_fresh [where R = "{0..<n}" and randname = randname and D = "set dn" and rn = "scNet c", OF inj i(3,4,2)] c by blast+
    then have "\<exists>cfg'. ?start i c = Inr cfg' \<and> scSaved cfg' = (scSaved c)[nat i := Some MakePersister] \<and>
      ends (scNet cfg') = (\<lambda>e. ends (scNet c) e \<or> e \<in> randname i ` {0..<scN c})"
      by (intro kvStartServer_fresh) (use c i(2,3) in simp_all)
    then obtain c' where c': "?start i c = Inr c'" "scSaved c' = (scSaved c)[nat i := Some MakePersister]"
      "ends (scNet c') = (\<lambda>e. ends (scNet c) e \<or> e \<in> randname i ` {0..<n})" using c by auto
    note ok = startServer_ok [OF conjunct1 [OF c] c'(1) [unfolded kvStartServer_def]]
    have "?I (dn @ [i]) c'"
    proof (intro conjI ballI allI impI)
      show "svc_ok c'" "scN c' = n" using ok(1,2) c by simp_all
      show "rowMade c' k" if "k \<in> set (dn @ [i])" for k using ok(3) [of k] that i c by auto
      show "scSaved c' ! nat k = None" if "k \<in> {0..<n}" "k \<notin> set (dn @ [i])" for k
        using that i c c'(2) by (auto simp: eq_nat_nat_iff)
      show "\<exists>k\<in>set (dn @ [i]). \<exists>j\<in>{0..<n}. e = randname k j" if "ends (scNet c') e" for e
        using that c unfolding c'(3) by auto
    qed
    with c'(1) show "\<exists>c'. ?start i c = Inr c' \<and> ?I (dn @ [i]) c'" by blast
  qed
  then obtain c where c: "foldE ?start [0..n - 1] (freshKv now n maxstate) = Inr c" "svc_ok c" "scN c = n" "\<forall>i\<in>set [0..n - 1]. rowMade c i" by blast
  have "table_ok c" using c by (intro svc_ok_table) auto
  from ConnectAll_succeeds [OF this] c(1) n show ?thesis by (auto simp: kv_make_config_eq)
qed

lemma delivered_split:
  assumes "connections rn e = Some b" "servers rn b \<noteq> None"
  shows "delivered e rn = (if enabled rn e then Some b else None)"
proof (cases "delivered e rn")
  case None
  then show ?thesis using assms delivered_iff [of e rn b] by auto
next
  case (Some m)
  with delivered_iff [of e rn m] assms(1) show ?thesis by auto
qed

text \<open>
  Claim C37. Partition of a running \<open>kvraft\<close> service with an odd number of servers, in every
  configuration that the tester can reach: \<open>make_partition\<close> returns two disjoint groups that cover the
  servers, a majority without the leader that \<open>Leader\<close> found and a minority with it; after
  \<open>partition\<close> a request from server \<open>a\<close> to server \<open>b\<close> is delivered if and only if the two are in the
  same group, and every end outside of the table of the servers, such as those of the clients, is as before.
\<close>

theorem partition_isolates_leader:
  assumes "kv_make_config now kvms rfms randname n unreliable maxstate = Inr cfg0" "reachable_from kv_step cfg0 cfg"
    and "n = 2 * h + 1" "1 \<le> h" "\<And>i. i \<in> {0..<n} \<Longrightarrow> scServers cfg ! nat i \<noteq> None"
  shows "\<exists>found l p1 p2 cfg'. kvLeader cfg = Inr (found, l) \<and> (found \<longrightarrow> isLeading rf (scServers cfg) l) \<and>
    kvMakePartition cfg = Inr (p1, p2) \<and> set p1 \<union> set p2 = {0..<n} \<and> set p1 \<inter> set p2 = {} \<and> card (set p1) = nat (h + 1) \<and> l \<in> set p2 \<and>
    partition p1 p2 cfg = Inr cfg' \<and>
    (\<forall>a\<in>{0..<n}. \<forall>b\<in>{0..<n}. delivered (scEndnames cfg' ! nat a ! nat b) (scNet cfg') = (if a \<in> set p1 \<longleftrightarrow> b \<in> set p1 then Some b else None)) \<and>
    (\<forall>e. (\<forall>a\<in>{0..<n}. \<forall>b\<in>{0..<n}. e \<noteq> scEndnames cfg ! nat a ! nat b) \<longrightarrow> enabled (scNet cfg') e = enabled (scNet cfg) e)"
proof -
  have ok: "svc_ok cfg" and N: "scN cfg = n" and rows: "\<And>i. i \<in> {0..<n} \<Longrightarrow> rowMade cfg i"
    using kvTester.inv_reachable [OF kv_make_config_ok(1) [OF assms(1)] assms(2)] by (auto simp: kv_ok_def)
  have table: "table_ok cfg" using svc_ok_table [OF ok] rows N by simp
  have len: "length (scServers cfg) = nat n" using svc_okD(1) [OF ok] by (simp add: sizes_ok_def N)
  have pos: "0 < n" using assms(3,4) by simp
  from scLeader_range [of cfg rf, unfolded N, OF pos len assms(5)] obtain found l where
    leader: "kvLeader cfg = Inr (found, l)" and l: "l \<in> {0..<n}" "found \<longrightarrow> isLeading rf (scServers cfg) l" by (auto simp: kvLeader_def)
  from splitServers_odd [OF assms(3,4) l(1)] obtain p1 p2 where split: "splitServers n l = Inr (p1, p2)" "set p1 \<union> set p2 = {0..<n}" "set p1 \<inter> set p2 = {}"
    "distinct p1" "int (length p1) = h + 1" "int (length p2) = h" "l \<in> set p2" by blast
  have mk: "kvMakePartition cfg = Inr (p1, p2)" using leader split(1) by (simp add: kvMakePartition_def kvLeader_def make_partition_def N)
  have card: "card (set p1) = nat (h + 1)" using distinct_card [OF split(4)] split(5) by simp
  from partition_ok [OF table, of p1 p2] split assms(3,4) obtain cfg' where part: "partition p1 p2 cfg = Inr cfg'" "regrouped (set p1) {0..<n} cfg cfg'"
    by (auto simp: N)
  note re = rewired_fields [OF partition_rewired [OF part(1)]]
  have same: "scEndnames cfg' ! nat a ! nat b = scEnd cfg a b" for a b by (simp add: scEnd_def re)
  have "delivered (scEndnames cfg' ! nat a ! nat b) (scNet cfg') = (if a \<in> set p1 \<longleftrightarrow> b \<in> set p1 then Some b else None)" if "a \<in> {0..<n}" "b \<in> {0..<n}" for a b
  proof -
    have "connections (scNet cfg') (scEnd cfg a b) = Some b" "servers (scNet cfg') b \<noteq> None"
      using svc_okD(3) [OF ok, of a b] svc_okD(5) [OF ok, of b] rows assms(5) that unfolding re N by simp_all
    moreover have "enabled (scNet cfg') (scEnd cfg a b) \<longleftrightarrow> (a \<in> set p1 \<longleftrightarrow> b \<in> set p1)"
      using part(2) that unfolding regrouped_def N by simp
    ultimately show ?thesis unfolding same by (simp add: delivered_split)
  qed
  moreover have "enabled (scNet cfg') e = enabled (scNet cfg) e" if "\<forall>a\<in>{0..<n}. \<forall>b\<in>{0..<n}. e \<noteq> scEndnames cfg ! nat a ! nat b" for e
    using part(2) that unfolding regrouped_def N scEnd_def by blast
  ultimately show ?thesis using leader l(2) mk split(2,3,7) card part(1) by blast
qed

definition cellNames :: "int \<Rightarrow> int \<Rightarrow> string" where
  "cellNames i j = [b64char (nat i), b64char (nat j)]"

lemma cellNames_inj:
  assumes "i \<in> {0..<n}" "j \<in> {0..<n}" "k \<in> {0..<n}" "l \<in> {0..<n}" "cellNames i j = cellNames k l" "n \<le> 64"
  shows "i = k \<and> j = l"
  using assms by (auto simp: cellNames_def b64char_inject)

theorem partition_isolates_leader_witness:
  "\<exists>(cfg :: (unit, unit) kv_config) p1 p2 cfg'. kv_make_config 0 (\<lambda>_. []) (\<lambda>_. []) cellNames 3 False (-1) = Inr cfg \<and>
    kvMakePartition cfg = Inr (p1, p2) \<and> partition p1 p2 cfg = Inr cfg' \<and> card (set p1) = 2"
proof -
  have "\<exists>cfg :: (unit, unit) kv_config. kv_make_config 0 (\<lambda>_. []) (\<lambda>_. []) cellNames 3 False (-1) = Inr cfg"
    by (rule kv_make_config_succeeds [OF _ cellNames_inj [of _ 3]]) simp_all
  then obtain cfg :: "(unit, unit) kv_config" where cfg: "kv_make_config 0 (\<lambda>_. []) (\<lambda>_. []) cellNames 3 False (-1) = Inr cfg" by blast
  from partition_isolates_leader [OF cfg reach_start, of 1] kv_make_config_ok(2) [OF cfg]
  obtain p1 p2 cfg' where "kvMakePartition cfg = Inr (p1, p2)" "card (set p1) = nat (1 + 1)" "partition p1 p2 cfg = Inr cfg'" by auto
  with cfg show ?thesis by auto
qed



end
