(* ===== verification/Mr_Common.thy ===== *)
theory Mr_Common
  imports Go_Prelude "HOL-Library.List_Lexorder" "HOL-Library.Char_ord"
begin

section \<open>mapreduce: names, numbers and files\<close>

text \<open>
  \<open>mapreduce/common.go\<close>, \<open>ihash\<close> of \<open>common_map.go\<close>, and what the package uses of Go's
  library: \<open>strconv.Itoa\<close> and \<open>Atoi\<close>, FNV-1a, and files. A file that is written by a JSON
  encoder and read by a JSON decoder is the list of the values encoded; a text file is its
  string. \<open>writable\<close> says where \<open>os.Create\<close> succeeds.
\<close>

subsection \<open>Decimal numbers\<close>

definition digitChar :: "nat \<Rightarrow> char" where
  "digitChar d = char_of (48 + d)"

definition isDigit :: "char \<Rightarrow> bool" where
  "isDigit c \<longleftrightarrow> 48 \<le> (of_char c :: nat) \<and> (of_char c :: nat) \<le> 57"

fun natDigits :: "nat \<Rightarrow> string" where
  "natDigits n = (if n < 10 then [digitChar n] else natDigits (n div 10) @ [digitChar (n mod 10)])"

declare natDigits.simps [simp del]

definition Itoa :: "int \<Rightarrow> string" where
  "Itoa i = (if i < 0 then ''-'' @ natDigits (nat (- i)) else natDigits (nat i))"

definition digitsValue :: "string \<Rightarrow> nat" where
  "digitsValue s = foldl (\<lambda>n c. 10 * n + (of_char c - 48)) 0 s"

text \<open>\<open>Atoi\<close>: an optional sign, digits, and a value that fits in 64 bits.\<close>

definition Atoi :: "string \<Rightarrow> int option" where
  "Atoi s =
     (let neg = (s \<noteq> [] \<and> hd s = CHR ''-'');
          ds = (if s \<noteq> [] \<and> (hd s = CHR ''-'' \<or> hd s = CHR ''+'') then tl s else s);
          v = (if neg then - int (digitsValue ds) else int (digitsValue ds))
      in if ds = [] \<or> \<not> list_all isDigit ds \<or> v < - (2 ^ 63) \<or> 2 ^ 63 \<le> v then None else Some v)"

lemma digitChar_digit: "d < 10 \<Longrightarrow> isDigit (digitChar d)"
  by (simp add: digitChar_def isDigit_def)

lemma of_char_digitChar: "d < 10 \<Longrightarrow> (of_char (digitChar d) :: nat) - 48 = d"
  by (simp add: digitChar_def)

lemma digitChar_inj: "d < 10 \<Longrightarrow> e < 10 \<Longrightarrow> digitChar d = digitChar e \<Longrightarrow> d = e"
  using of_char_digitChar by metis

lemma natDigits_digits: "list_all isDigit (natDigits n)" "natDigits n \<noteq> []"
proof (induction n rule: natDigits.induct)
  case (1 n)
  case 1
  with "1.IH" show ?case by (subst natDigits.simps) (auto simp: digitChar_digit)
next
  case (1 n)
  case 2
  show ?case by (subst natDigits.simps) auto
qed

lemma digitsValue_append: "digitsValue (s @ [c]) = 10 * digitsValue s + (of_char c - 48)"
  by (simp add: digitsValue_def)

lemma digitsValue_natDigits: "digitsValue (natDigits n) = n"
proof (induction n rule: natDigits.induct)
  case (1 n)
  show ?case
  proof (cases "n < 10")
    case True
    then show ?thesis by (subst natDigits.simps) (simp add: digitsValue_def of_char_digitChar)
  next
    case False
    with 1 show ?thesis by (subst natDigits.simps) (simp add: digitsValue_append of_char_digitChar)
  qed
qed

lemma natDigits_inj: "natDigits m = natDigits n \<longleftrightarrow> m = n"
  by (metis digitsValue_natDigits)

lemma natDigits_hd: "hd (natDigits n) \<noteq> CHR ''-''" "hd (natDigits n) \<noteq> CHR ''+''"
proof -
  have "isDigit (hd (natDigits n))"
    using natDigits_digits [of n] by (cases "natDigits n") auto
  then show "hd (natDigits n) \<noteq> CHR ''-''" "hd (natDigits n) \<noteq> CHR ''+''" by (auto simp: isDigit_def)
qed

lemma Atoi_plain:
  assumes "ds \<noteq> []" "hd ds \<noteq> CHR ''-''" "hd ds \<noteq> CHR ''+''" "list_all isDigit ds" "digitsValue ds < 2 ^ 63"
  shows "Atoi ds = Some (int (digitsValue ds))"
  using assms by (simp add: Atoi_def Let_def)

text \<open>
  \<open>strconv.Atoi\<close> reads back what \<open>strconv.Itoa\<close> writes, for every \<open>int\<close>: the counts
  that the word-count reducers exchange as strings lose nothing.
\<close>

theorem Atoi_Itoa:
  assumes "- (2 ^ 63) \<le> i" "i < 2 ^ 63"
  shows "Atoi (Itoa i) = Some i"
proof (cases "i < 0")
  case True
  then show ?thesis
    using assms natDigits_digits [of "nat (- i)"] by (simp add: Atoi_def Itoa_def digitsValue_natDigits Let_def)
next
  case False
  then have "Itoa i = natDigits (nat i)" "int (nat i) = i" "nat i < 2 ^ 63"
    using assms by (simp_all add: Itoa_def)
  then show ?thesis
    using Atoi_plain [of "natDigits (nat i)"] natDigits_digits [of "nat i"] natDigits_hd [of "nat i"]
    by (simp add: digitsValue_natDigits)
qed

theorem Atoi_Itoa_witness: "Atoi (Itoa (-37)) = Some (-37)"
  by (rule Atoi_Itoa) simp_all

subsection \<open>File names\<close>

record KeyValue =
  Key :: string
  Value :: string

datatype jobPhase = mapPhase | reducePhase

definition reduceName :: "string \<Rightarrow> int \<Rightarrow> int \<Rightarrow> string" where
  "reduceName jobName mapTask reduceTask = ''mrtmp.'' @ jobName @ ''-'' @ Itoa mapTask @ ''-'' @ Itoa reduceTask"

definition mergeName :: "string \<Rightarrow> int \<Rightarrow> string" where
  "mergeName jobName reduceTask = ''mrtmp.'' @ jobName @ ''-res-'' @ Itoa reduceTask"

definition outputName :: "string \<Rightarrow> string" where
  "outputName jobName = ''mrtmp.'' @ jobName"

lemma digits_split:
  assumes "list_all isDigit xs" "list_all isDigit us" "\<not> isDigit c"
    and "xs @ c # ys = us @ c # vs"
  shows "xs = us \<and> ys = vs"
  using assms
proof (induction xs arbitrary: us)
  case Nil
  then show ?case by (cases us) auto
next
  case (Cons x xs)
  then show ?case by (cases us) auto
qed

lemma Itoa_nonneg: "0 \<le> i \<Longrightarrow> Itoa i = natDigits (nat i)"
  by (simp add: Itoa_def)

lemma dash_not_digit: "\<not> isDigit CHR ''-''" "\<not> isDigit CHR ''r''"
  by (simp_all add: isDigit_def)

lemma reduceName_inj:
  assumes "0 \<le> m" "0 \<le> r" "0 \<le> m'" "0 \<le> r'"
  shows "reduceName job m r = reduceName job m' r' \<longleftrightarrow> m = m' \<and> r = r'"
proof
  assume "reduceName job m r = reduceName job m' r'"
  then have "natDigits (nat m) @ CHR ''-'' # natDigits (nat r) = natDigits (nat m') @ CHR ''-'' # natDigits (nat r')"
    using assms by (simp add: reduceName_def Itoa_nonneg)
  from digits_split [OF natDigits_digits(1) natDigits_digits(1) dash_not_digit(1) this] assms
  show "m = m' \<and> r = r'" by (simp add: natDigits_inj eq_nat_nat_iff)
qed simp

lemma mergeName_inj: "0 \<le> r \<Longrightarrow> 0 \<le> r' \<Longrightarrow> mergeName job r = mergeName job r' \<longleftrightarrow> r = r'"
  by (auto simp: mergeName_def Itoa_nonneg natDigits_inj)

lemma reduceName_mergeName:
  assumes "0 \<le> m"
  shows "reduceName job m r \<noteq> mergeName job r'"
proof
  assume "reduceName job m r = mergeName job r'"
  then have "natDigits (nat m) @ ''-'' @ Itoa r = CHR ''r'' # ''es-'' @ Itoa r'"
    using assms by (simp add: reduceName_def mergeName_def Itoa_nonneg)
  moreover obtain d ds where "natDigits (nat m) = d # ds" "isDigit d"
    using natDigits_digits [of "nat m"] by (cases "natDigits (nat m)") auto
  ultimately show False using dash_not_digit(2) by auto
qed

lemma names_not_output: "reduceName job m r \<noteq> outputName job" "mergeName job r \<noteq> outputName job"
  by (simp_all add: reduceName_def mergeName_def outputName_def)

text \<open>
  The intermediate files of a job do not collide: for task numbers that are not
  negative, \<open>reduceName\<close> names each pair of tasks by a different file, \<open>mergeName\<close> each reduce
  task, and neither of them names a file of the other kind or the final output.
\<close>

theorem file_names_distinct:
  assumes "0 \<le> m" "0 \<le> r" "0 \<le> m'" "0 \<le> r'"
  shows "(reduceName job m r = reduceName job m' r' \<longleftrightarrow> m = m' \<and> r = r') \<and>
    (mergeName job r = mergeName job r' \<longleftrightarrow> r = r') \<and>
    reduceName job m r \<noteq> mergeName job r' \<and> reduceName job m r \<noteq> outputName job \<and> mergeName job r \<noteq> outputName job"
  using assms by (simp add: reduceName_inj mergeName_inj reduceName_mergeName names_not_output)

theorem file_names_distinct_witness:
  "reduceName ''wc'' 1 12 \<noteq> reduceName ''wc'' 11 2"
  using file_names_distinct [of 1 12 11 2 "''wc''"] by simp

subsection \<open>The hash that assigns keys to reduce tasks\<close>

unbundle bit_operations_syntax

definition fnvStep :: "32 word \<Rightarrow> char \<Rightarrow> 32 word" where
  "fnvStep h c = (h XOR of_char c) * 16777619"

definition fnv32a :: "string \<Rightarrow> 32 word" where
  "fnv32a s = foldl fnvStep 2166136261 s"

definition ihash :: "string \<Rightarrow> int" where
  "ihash s = uint (fnv32a s AND 0x7fffffff)"

lemma ihash_bounds: "0 \<le> ihash s" "ihash s < 2 ^ 31"
proof -
  have "uint (fnv32a s AND 0x7fffffff) = uint (fnv32a s) AND (2 ^ 31 - 1)" by (simp add: uint_and)
  then have "ihash s = take_bit 31 (uint (fnv32a s))"
    by (simp add: ihash_def take_bit_eq_mask mask_eq_exp_minus_1)
  then show "0 \<le> ihash s" "ihash s < 2 ^ 31" using take_bit_int_less_exp [of 31 "uint (fnv32a s)"] by simp_all
qed

text \<open>
  \<open>ihash\<close> is a 31-bit number: \<open>ihash(key) % nReduce\<close> is a valid index of the
  \<open>nReduce\<close> encoders for every key.
\<close>

theorem ihash_index:
  assumes "0 < nReduce"
  shows "0 \<le> ihash s \<and> ihash s < 2 ^ 31 \<and> 0 \<le> ihash s mod nReduce \<and> ihash s mod nReduce < nReduce"
  using ihash_bounds [of s] assms by simp

theorem ihash_index_witness: "ihash ''a'' mod 3 < 3"
  using ihash_index [of 3 "''a''"] by simp

end
