(* ===== verification/Shard_Config.thy ===== *)
theory Shard_Config
  imports Clerks Config_Net Mr_Common
begin

section \<open>shardkv/config.go: test configuration with groups and shard masters\<close>

text \<open>
  Three shard masters and three groups of \<open>n\<close> servers on one network, whose servers have strings as
  names. \<open>draw k\<close> is the result of the \<open>k\<close>-th call of \<open>randstring(20)\<close> during \<open>make_config\<close>; the other
  operations have the names they draw as arguments. Ends are enabled when they are made.

  The content of \<open>saved[i]\<close> is in the persister of the server while it runs.
\<close>

subsection \<open>State\<close>

record 'k group =
  gid :: int
  grServers :: "'k ShardKV option list"
  grSaved :: "'k gobval list Persister option list"
  grEndnames :: "string list list"
  grMendnames :: "string list list"

record ('m, 'k, 'o, 'b) sk_config =
  skNet :: "(string, string) Network"
  skHeap :: "('o, 'b) Server list"
  skStart :: int
  nmasters :: int
  masterservers :: "'m ShardMaster option list"
  mck :: "SMClerk option"
  ngroups :: int
  skN :: int
  skGroups :: "'k group option list"
  skClerks :: "nat \<rightharpoonup> string list"
  skNextClientId :: int
  skMaxraftstate :: int

definition skOnNet :: "((string, string) Network \<Rightarrow> (string, string) Network) \<Rightarrow> ('m, 'k, 'o, 'b) sk_config \<Rightarrow> ('m, 'k, 'o, 'b) sk_config" where
  "skOnNet f cfg = cfg\<lparr>skNet := f (skNet cfg)\<rparr>"

definition theGroup :: "('m, 'k, 'o, 'b) sk_config \<Rightarrow> int \<Rightarrow> 'k group go" where
  "theGroup cfg gi = bindE (go_nth (skGroups cfg) gi) (\<lambda>gg. case gg of None \<Rightarrow> Inl NilPointer | Some gg \<Rightarrow> Inr gg)"

definition setGroup :: "int \<Rightarrow> 'k group \<Rightarrow> ('m, 'k, 'o, 'b) sk_config \<Rightarrow> ('m, 'k, 'o, 'b) sk_config" where
  "setGroup gi gg cfg = cfg\<lparr>skGroups := (skGroups cfg)[nat gi := Some gg]\<rparr>"

definition mastername :: "int \<Rightarrow> string" where
  "mastername i = ''master'' @ Itoa i"

definition servername :: "int \<Rightarrow> int \<Rightarrow> string" where
  "servername g i = ''server-'' @ Itoa g @ ''-'' @ Itoa i"

subsection \<open>Clients\<close>

text \<open>The function \<open>make_end\<close> that the clerks and the servers get; \<open>name\<close> is the name it draws.\<close>

definition make_end :: "string \<Rightarrow> string \<Rightarrow> ('m, 'k, 'o, 'b) sk_config \<Rightarrow> ('m, 'k, 'o, 'b) sk_config go" where
  "make_end name server cfg =
     bindE (MakeEnd name (skNet cfg)) (\<lambda>rn. Inr (cfg\<lparr>skNet := Enable name True (Connect name server rn)\<rparr>))"

text \<open>\<open>endnames\<close> has room for \<open>n\<close> names, the loop writes \<open>nmasters\<close> of them.\<close>

definition skMakeClient :: "(int \<Rightarrow> string) \<Rightarrow> nat \<Rightarrow> ('m, 'k, 'o, 'b) sk_config \<Rightarrow> (('m, 'k, 'o, 'b) sk_config \<times> ShardClerk) go" where
  "skMakeClient randname ck cfg =
     (if skN cfg < 0 then Inl MakeSliceLenOutOfRange
      else
        bindE (foldE (\<lambda>j (rn, endnames).
            bindE (go_update endnames j (randname j)) (\<lambda>endnames.
            bindE (MakeEnd (randname j) rn) (\<lambda>rn.
            Inr (Enable (randname j) True (Connect (randname j) (mastername j) rn), endnames))))
          [0..nmasters cfg - 1] (skNet cfg, replicate (nat (skN cfg)) [])) (\<lambda>(rn, endnames).
        Inr (cfg\<lparr>skNet := rn, skClerks := (skClerks cfg)(ck \<mapsto> endnames), skNextClientId := skNextClientId cfg + 1\<rparr>,
             skMakeClerk (nat (nmasters cfg)))))"

definition skDeleteClient :: "(string \<Rightarrow> 'fs \<Rightarrow> 'fs) \<Rightarrow> nat \<Rightarrow> 'fs \<Rightarrow> ('m, 'k, 'o, 'b) sk_config \<Rightarrow> 'fs \<times> ('m, 'k, 'o, 'b) sk_config" where
  "skDeleteClient rm ck fs cfg =
     (fold rm (case skClerks cfg ck of None \<Rightarrow> [] | Some v \<Rightarrow> v) fs, cfg\<lparr>skClerks := (skClerks cfg)(ck := None)\<rparr>)"

subsection \<open>Servers of a group\<close>

definition grSavedNow :: "'k group \<Rightarrow> int \<Rightarrow> 'k gobval list Persister option go" where
  "grSavedNow gg i =
     bindE (go_nth (grSaved gg) i) (\<lambda>ps.
     bindE (go_nth (grServers gg) i) (\<lambda>srv.
     Inr (case (ps, srv) of (Some _, Some srv) \<Rightarrow> Some (persister (skRf srv)) | _ \<Rightarrow> ps)))"

definition skShutdownServer :: "int \<Rightarrow> int \<Rightarrow> ('m, 'k, 'o, 'b) sk_config \<Rightarrow> ('m, 'k, 'o, 'b) sk_config go" where
  "skShutdownServer gi i cfg =
     bindE (theGroup cfg gi) (\<lambda>gg.
     bindE (foldE (\<lambda>j rn. bindE (go_nth (grEndnames gg) i) (\<lambda>row. bindE (go_nth row j) (\<lambda>name. Inr (Enable name False rn))))
       [0..int (length (grServers gg)) - 1] (skNet cfg)) (\<lambda>rn.
     bindE (go_nth (grMendnames gg) i) (\<lambda>mrow.
     bindE (foldE (\<lambda>j rn. bindE (go_nth mrow j) (\<lambda>name. Inr (Enable name False rn))) [0..int (length mrow) - 1] rn) (\<lambda>rn.
     bindE (grSavedNow gg i) (\<lambda>ps.
     bindE (go_update (grSaved gg) i (map_option Copy ps)) (\<lambda>saved.
     bindE (go_nth (grServers gg) i) (\<lambda>srv.
     bindE (case srv of None \<Rightarrow> Inr (grServers gg) | Some srv \<Rightarrow> bindE (skKill srv) (\<lambda>_. go_update (grServers gg) i None)) (\<lambda>srvs.
     Inr (setGroup gi (gg\<lparr>grSaved := saved, grServers := srvs\<rparr>) (cfg\<lparr>skNet := DeleteServer (servername (gid gg) i) rn\<rparr>))))))))))"

definition ShutdownGroup :: "int \<Rightarrow> ('m, 'k, 'o, 'b) sk_config \<Rightarrow> ('m, 'k, 'o, 'b) sk_config go" where
  "ShutdownGroup gi cfg = foldE (\<lambda>i. skShutdownServer gi i) [0..skN cfg - 1] cfg"

text \<open>\<open>svcs\<close>: the services that \<open>MakeService\<close> makes of the server and of its Raft instance.\<close>

definition skConfigStartServer :: "'k \<Rightarrow> ('o, 'b) Service list \<Rightarrow> (int \<Rightarrow> string) \<Rightarrow> (int \<Rightarrow> string) \<Rightarrow> int \<Rightarrow> int \<Rightarrow>
    ('m, 'k, 'o, 'b) sk_config \<Rightarrow> ('m, 'k, 'o, 'b) sk_config go" where
  "skConfigStartServer zero svcs randname mrandname gi i cfg =
     bindE (theGroup cfg gi) (\<lambda>gg.
     if skN cfg < 0 then Inl MakeSliceLenOutOfRange
     else
     bindE (go_update (grEndnames gg) i (map randname [0..skN cfg - 1])) (\<lambda>names.
     bindE (makeLiveEnds randname (servername (gid gg)) [0..skN cfg - 1] (skNet cfg)) (\<lambda>rn.
     bindE (go_update (grMendnames gg) i (map mrandname [0..nmasters cfg - 1])) (\<lambda>mnames.
     bindE (makeLiveEnds mrandname mastername [0..nmasters cfg - 1] rn) (\<lambda>rn.
     bindE (grSavedNow gg i) (\<lambda>ps.
     let ps = (case ps of Some ps \<Rightarrow> Copy ps | None \<Rightarrow> MakePersister) in
     bindE (go_update (grSaved gg) i (Some ps)) (\<lambda>saved.
     bindE (skStartServer zero (skN cfg) i ps (skMaxraftstate cfg) (gid gg)) (\<lambda>srv.
     bindE (go_update (grServers gg) i (Some srv)) (\<lambda>srvs.
     Inr (setGroup gi (gg\<lparr>grEndnames := names, grMendnames := mnames, grSaved := saved, grServers := srvs\<rparr>)
       (cfg\<lparr>skHeap := skHeap cfg @ [fold AddService svcs MakeServer],
            skNet := AddServer (servername (gid gg) i) (length (skHeap cfg)) rn\<rparr>)))))))))))"

definition StartGroup :: "'k \<Rightarrow> (int \<Rightarrow> ('o, 'b) Service list) \<Rightarrow> (int \<Rightarrow> int \<Rightarrow> string) \<Rightarrow> (int \<Rightarrow> int \<Rightarrow> string) \<Rightarrow> int \<Rightarrow>
    ('m, 'k, 'o, 'b) sk_config \<Rightarrow> ('m, 'k, 'o, 'b) sk_config go" where
  "StartGroup zero svcs randname mrandname gi cfg =
     foldE (\<lambda>i. skConfigStartServer zero (svcs i) (randname i) (mrandname i) gi i) [0..skN cfg - 1] cfg"

subsection \<open>Shard masters\<close>

definition StartMasterServer :: "'m \<Rightarrow> ('o, 'b) Service list \<Rightarrow> (int \<Rightarrow> string) \<Rightarrow> int \<Rightarrow> ('m, 'k, 'o, 'b) sk_config \<Rightarrow> ('m, 'k, 'o, 'b) sk_config go" where
  "StartMasterServer zero svcs randname i cfg =
     bindE (makeLiveEnds randname mastername [0..nmasters cfg - 1] (skNet cfg)) (\<lambda>rn.
     bindE (smStartServer zero (nmasters cfg) i MakePersister) (\<lambda>sm.
     bindE (go_update (masterservers cfg) i (Some sm)) (\<lambda>ms.
     Inr (cfg\<lparr>masterservers := ms, skHeap := skHeap cfg @ [fold AddService svcs MakeServer],
              skNet := AddServer (mastername i) (length (skHeap cfg)) rn\<rparr>))))"

definition shardclerk :: "(int \<Rightarrow> string) \<Rightarrow> ('m, 'k, 'o, 'b) sk_config \<Rightarrow> (('m, 'k, 'o, 'b) sk_config \<times> SMClerk) go" where
  "shardclerk randname cfg =
     bindE (makeLiveEnds randname mastername [0..nmasters cfg - 1] (skNet cfg)) (\<lambda>rn.
     Inr (cfg\<lparr>skNet := rn\<rparr>, smMakeClerk (nat (nmasters cfg))))"

text \<open>
  \<open>joinm\<close> and \<open>leavem\<close> call the clerk of the masters; the result is \<open>None\<close> when the call does not return.
\<close>

definition joinm :: "(JoinArgs \<Rightarrow> nat \<Rightarrow> nat \<Rightarrow> bool \<times> JoinReply) \<Rightarrow> int list \<Rightarrow> ('m, 'k, 'o, 'b) sk_config \<Rightarrow> unit option go" where
  "joinm rpc gis cfg =
     bindE (foldE (\<lambda>g m. bindE (theGroup cfg g) (\<lambda>gg.
         if skN cfg < 0 then Inl MakeSliceLenOutOfRange
         else Inr (m(gid gg \<mapsto> map (servername (gid gg)) [0..skN cfg - 1])))) gis Map.empty) (\<lambda>m.
     case mck cfg of None \<Rightarrow> Inl NilPointer | Some ck \<Rightarrow> Inr (smJoin rpc m ck))"

definition join :: "(JoinArgs \<Rightarrow> nat \<Rightarrow> nat \<Rightarrow> bool \<times> JoinReply) \<Rightarrow> int \<Rightarrow> ('m, 'k, 'o, 'b) sk_config \<Rightarrow> unit option go" where
  "join rpc gi = joinm rpc [gi]"

definition leavem :: "(LeaveArgs \<Rightarrow> nat \<Rightarrow> nat \<Rightarrow> bool \<times> JoinReply) \<Rightarrow> int list \<Rightarrow> ('m, 'k, 'o, 'b) sk_config \<Rightarrow> unit option go" where
  "leavem rpc gis cfg =
     bindE (mapE (\<lambda>g. bindE (theGroup cfg g) (\<lambda>gg. Inr (gid gg))) gis) (\<lambda>gids.
     case mck cfg of None \<Rightarrow> Inl NilPointer | Some ck \<Rightarrow> Inr (smLeave rpc gids ck))"

definition leave :: "(LeaveArgs \<Rightarrow> nat \<Rightarrow> nat \<Rightarrow> bool \<times> JoinReply) \<Rightarrow> int \<Rightarrow> ('m, 'k, 'o, 'b) sk_config \<Rightarrow> unit option go" where
  "leave rpc gi = leavem rpc [gi]"

subsection \<open>Whole configurations\<close>

definition skCheckTimeout :: "bool \<Rightarrow> int \<Rightarrow> ('m, 'k, 'o, 'b) sk_config \<Rightarrow> unit go" where
  "skCheckTimeout failed now cfg = (if \<not> failed \<and> now - skStart cfg > 120 * 10 ^ 9 then Inl TestFatal else Inr ())"

definition skCleanup :: "bool \<Rightarrow> int \<Rightarrow> ('m, 'k, 'o, 'b) sk_config \<Rightarrow> ('m, 'k, 'o, 'b) sk_config go" where
  "skCleanup failed now cfg =
     bindE (foldE ShutdownGroup [0..ngroups cfg - 1] cfg) (\<lambda>cfg.
     bindE (Cleanup (skNet cfg)) (\<lambda>rn.
     bindE (skCheckTimeout failed now (cfg\<lparr>skNet := rn\<rparr>)) (\<lambda>_. Inr (cfg\<lparr>skNet := rn\<rparr>))))"

definition checklogs :: "('k gobval list \<Rightarrow> nat) \<Rightarrow> ('m, 'k, 'o, 'b) sk_config \<Rightarrow> unit go" where
  "checklogs len cfg =
     foldE (\<lambda>gi _. foldE (\<lambda>i _.
       bindE (theGroup cfg gi) (\<lambda>gg.
       bindE (grSavedNow gg i) (\<lambda>ps.
       case ps of
         None \<Rightarrow> Inl NilPointer
       | Some ps \<Rightarrow>
           if skMaxraftstate cfg \<ge> 0 \<and> int (RaftStateSize len ps) > 2 * skMaxraftstate cfg then Inl TestFatal
           else if skMaxraftstate cfg < 0 \<and> 0 < SnapshotSize len ps then Inl TestFatal
           else Inr ()))) [0..skN cfg - 1] ()) [0..ngroups cfg - 1] ()"

definition freshGroup :: "int \<Rightarrow> int \<Rightarrow> int \<Rightarrow> 'k group" where
  "freshGroup n nm gi = \<lparr>gid = 100 + gi, grServers = replicate (nat n) None, grSaved = replicate (nat n) None,
     grEndnames = replicate (nat n) [], grMendnames = replicate (nat nm) []\<rparr>"

text \<open>The masters and the clerk of the tester draw 12 names, a server draws \<open>n\<close> names and then 3.\<close>

definition groupDraw :: "int \<Rightarrow> int \<Rightarrow> int \<Rightarrow> nat" where
  "groupDraw n gi i = nat (12 + (gi * n + i) * (n + 3))"

definition sk_make_masters :: "int \<Rightarrow> 'm \<Rightarrow> (int \<Rightarrow> ('o, 'b) Service list) \<Rightarrow> (nat \<Rightarrow> string) \<Rightarrow> int \<Rightarrow> ('m, 'k, 'o, 'b) sk_config go" where
  "sk_make_masters now zero msvcs draw maxstate =
     (let cfg = \<lparr>skNet = MakeNetwork, skHeap = [], skStart = now, nmasters = 3, masterservers = replicate 3 None, mck = None,
                 ngroups = 0, skN = 0, skGroups = [], skClerks = (\<lambda>_. None), skNextClientId = 0, skMaxraftstate = maxstate\<rparr> in
      bindE (foldE (\<lambda>i. StartMasterServer zero (msvcs i) (\<lambda>j. draw (nat (3 * i + j))) i) [0..2] cfg) (\<lambda>cfg.
      bindE (shardclerk (\<lambda>j. draw (nat (9 + j))) cfg) (\<lambda>(cfg, ck). Inr (cfg\<lparr>mck := Some ck\<rparr>))))"

definition sk_make_group :: "'k \<Rightarrow> (int \<Rightarrow> int \<Rightarrow> ('o, 'b) Service list) \<Rightarrow> (nat \<Rightarrow> string) \<Rightarrow> int \<Rightarrow> ('m, 'k, 'o, 'b) sk_config \<Rightarrow> ('m, 'k, 'o, 'b) sk_config go" where
  "sk_make_group zero ksvcs draw gi cfg =
     bindE (go_update (skGroups cfg) gi (Some (freshGroup (skN cfg) (nmasters cfg) gi))) (\<lambda>groups.
     foldE (\<lambda>i. skConfigStartServer zero (ksvcs gi i) (\<lambda>j. draw (groupDraw (skN cfg) gi i + nat j)) (\<lambda>j. draw (groupDraw (skN cfg) gi i + nat (skN cfg + j))) gi i)
       [0..skN cfg - 1] (cfg\<lparr>skGroups := groups\<rparr>))"

definition sk_make_config :: "int \<Rightarrow> 'm \<Rightarrow> 'k \<Rightarrow> (int \<Rightarrow> ('o, 'b) Service list) \<Rightarrow> (int \<Rightarrow> int \<Rightarrow> ('o, 'b) Service list) \<Rightarrow> (nat \<Rightarrow> string) \<Rightarrow> int \<Rightarrow> bool \<Rightarrow> int \<Rightarrow>
    ('m, 'k, 'o, 'b) sk_config go" where
  "sk_make_config now mzero kzero msvcs ksvcs draw n unreliable maxstate =
     bindE (sk_make_masters now mzero msvcs draw maxstate) (\<lambda>cfg.
     if n < 0 then Inl MakeSliceLenOutOfRange
     else
     bindE (foldE (sk_make_group kzero ksvcs draw) [0..2] (cfg\<lparr>ngroups := 3, skGroups := replicate 3 None, skN := n\<rparr>)) (\<lambda>cfg.
     Inr (skOnNet (Reliable (\<not> unreliable)) (cfg\<lparr>skClerks := Map.empty, skNextClientId := n + 1000\<rparr>))))"

subsection \<open>Names drawn so far\<close>

text \<open>Every end of the network has one of the first \<open>k\<close> names.\<close>

definition drawn :: "(nat \<Rightarrow> string) \<Rightarrow> nat \<Rightarrow> ('m, 'k, 'o, 'b) sk_config \<Rightarrow> bool" where
  "drawn draw k cfg \<longleftrightarrow> (\<forall>e. ends (skNet cfg) e \<longrightarrow> e \<in> draw ` {..<k})"

lemma makeLiveEnds_fresh:
  assumes "inj_on name (set js)" "\<And>j. j \<in> set js \<Longrightarrow> \<not> ends rn (name j)" "distinct js"
  shows "\<exists>rn'. makeLiveEnds name target js rn = Inr rn' \<and> ends rn' = (\<lambda>e. ends rn e \<or> e \<in> name ` set js)"
  using assms
proof (induction js arbitrary: rn)
  case (Cons j js)
  define rn1 where "rn1 = Enable (name j) True (Connect (name j) (target j)
    (rn\<lparr>ends := (ends rn)(name j := True), enabled := (enabled rn)(name j := False), connections := (connections rn)(name j := None)\<rparr>))"
  have eq: "makeLiveEnds name target (j # js) rn = makeLiveEnds name target js rn1"
    using Cons.prems(2) [of j] by (simp add: makeLiveEnds_def MakeEnd_def rn1_def)
  have rn1: "ends rn1 = (\<lambda>e. ends rn e \<or> e = name j)" by (auto simp: rn1_def Enable_def Connect_def fun_eq_iff)
  have "name k \<noteq> name j" if "k \<in> set js" for k using Cons.prems(1,3) that by (auto simp: inj_on_def)
  then have "\<exists>rn'. makeLiveEnds name target js rn1 = Inr rn' \<and> ends rn' = (\<lambda>e. ends rn1 e \<or> e \<in> name ` set js)"
    by (intro Cons.IH) (use Cons.prems in \<open>auto simp: rn1\<close>)
  then show ?case unfolding eq rn1 by (auto simp: fun_eq_iff)
qed (simp add: makeLiveEnds_def)

lemma makeLiveEnds_draw:
  assumes "inj draw" "drawn draw k cfg" "\<And>j. j \<in> {0..<m} \<Longrightarrow> name j = draw (k + nat j)" "0 \<le> m"
  shows "\<exists>rn. makeLiveEnds name target [0..m - 1] (skNet cfg) = Inr rn \<and> drawn draw (k + nat m) (cfg\<lparr>skNet := rn\<rparr>)"
proof -
  have up: "set [0..m - 1] = {0..<m}" by auto
  have "inj_on name {0..<m}"
  proof (rule inj_onI)
    fix x y assume xy: "x \<in> {0..<m}" "y \<in> {0..<m}" "name x = name y"
    then have "draw (k + nat x) = draw (k + nat y)" using assms(3) by metis
    then have "k + nat x = k + nat y" by (rule injD [OF assms(1)])
    with xy show "x = y" by (simp add: eq_nat_nat_iff)
  qed
  moreover have "\<not> ends (skNet cfg) (name j)" if j: "j \<in> {0..<m}" for j
  proof
    assume "ends (skNet cfg) (name j)"
    with assms(2) obtain l where "l < k" "draw (k + nat j) = draw l" using assms(3) [OF j] by (auto simp: drawn_def)
    with injD [OF assms(1)] show False by force
  qed
  ultimately have "\<exists>rn. makeLiveEnds name target [0..m - 1] (skNet cfg) = Inr rn \<and> ends rn = (\<lambda>e. ends (skNet cfg) e \<or> e \<in> name ` {0..<m})"
    using makeLiveEnds_fresh [of name "[0..m - 1]" "skNet cfg" target] unfolding up by simp
  moreover have "e \<in> draw ` {..<k + nat m}" if "ends (skNet cfg) e \<or> e \<in> name ` {0..<m}" for e
  proof -
    have "name j \<in> draw ` {..<k + nat m}" if "j \<in> {0..<m}" for j using that by (simp add: assms(3))
    moreover have "draw ` {..<k} \<subseteq> draw ` {..<k + nat m}" by auto
    ultimately show ?thesis using that assms(2) by (auto simp: drawn_def)
  qed
  ultimately show ?thesis by (auto simp: drawn_def)
qed

lemma drawn_cong: "ends (skNet cfg') = ends (skNet cfg) \<Longrightarrow> drawn draw k cfg' = drawn draw k cfg"
  by (simp add: drawn_def)

subsection \<open>Building the configuration\<close>

lemma StartMasterServer_draw:
  assumes "inj draw" "drawn draw k cfg" "0 \<le> nmasters cfg" "0 \<le> i" "i < int (length (masterservers cfg))"
    "\<And>j. j \<in> {0..<nmasters cfg} \<Longrightarrow> name j = draw (k + nat j)"
  shows "\<exists>cfg'. StartMasterServer zero svcs name i cfg = Inr cfg' \<and> drawn draw (k + nat (nmasters cfg)) cfg' \<and>
    nmasters cfg' = nmasters cfg \<and> length (masterservers cfg') = length (masterservers cfg)"
proof -
  from makeLiveEnds_draw [OF assms(1,2,6,3), of mastername] obtain rn where
    rn: "makeLiveEnds name mastername [0..nmasters cfg - 1] (skNet cfg) = Inr rn" "drawn draw (k + nat (nmasters cfg)) (cfg\<lparr>skNet := rn\<rparr>)" by auto
  obtain sm where sm: "smStartServer zero (nmasters cfg) i MakePersister = Inr sm"
    by (simp add: smStartServer_def Make_def freshRaft_def ReadRaftState_def MakePersister_def readPersist_def Let_def)
  show ?thesis using rn sm assms(4,5) by (simp add: StartMasterServer_def drawn_def AddServer_def)
qed

lemma sk_make_masters_draw:
  assumes "inj draw"
  shows "\<exists>cfg :: ('m, 'k, 'o, 'b) sk_config. sk_make_masters now zero msvcs draw maxstate = Inr cfg \<and> drawn draw 12 cfg \<and> nmasters cfg = 3"
proof -
  define c0 :: "('m, 'k, 'o, 'b) sk_config" where "c0 = \<lparr>skNet = MakeNetwork, skHeap = [], skStart = now, nmasters = 3, masterservers = replicate 3 None, mck = None,
                 ngroups = 0, skN = 0, skGroups = [], skClerks = (\<lambda>_. None), skNextClientId = 0, skMaxraftstate = maxstate\<rparr>"
  let ?start = "\<lambda>i. StartMasterServer zero (msvcs i) (\<lambda>j. draw (nat (3 * i + j))) i :: ('m, 'k, 'o, 'b) sk_config \<Rightarrow> _"
  have step: "\<exists>cfg'. ?start i cfg = Inr cfg' \<and> drawn draw (nat (3 * (i + 1))) cfg' \<and> nmasters cfg' = 3 \<and> length (masterservers cfg') = 3"
    if "drawn draw (nat (3 * i)) cfg" "nmasters cfg = 3" "length (masterservers cfg) = 3" "0 \<le> i" "i < 3" for i and cfg :: "('m, 'k, 'o, 'b) sk_config"
  proof -
    have "nat (3 * i) + nat 3 = nat (3 * (i + 1))" "\<And>j. 0 \<le> j \<Longrightarrow> nat (3 * i + j) = nat (3 * i) + nat j" using that(4) by (simp_all add: nat_add_distrib)
    then show ?thesis using StartMasterServer_draw [OF assms that(1), of i "\<lambda>j. draw (nat (3 * i + j))" zero "msvcs i"] that(2-5) by simp
  qed
  have "drawn draw (nat (3 * 0)) c0" "nmasters c0 = 3" "length (masterservers c0) = 3" by (simp_all add: drawn_def c0_def MakeNetwork_def)
  from step [OF this] obtain c1 where c1: "?start 0 c0 = Inr c1" "drawn draw (nat (3 * 1)) c1" "nmasters c1 = 3" "length (masterservers c1) = 3" by auto
  from step [OF c1(2-4)] obtain c2 where c2: "?start 1 c1 = Inr c2" "drawn draw (nat (3 * 2)) c2" "nmasters c2 = 3" "length (masterservers c2) = 3" by auto
  from step [OF c2(2-4)] obtain c3 where c3: "?start 2 c2 = Inr c3" "drawn draw 9 c3" "nmasters c3 = 3" by auto
  have "[0..2] = [0, 1, 2 :: int]" by (simp add: upto.simps)
  with c1(1) c2(1) c3(1) have loop: "foldE ?start [0..2] c0 = Inr c3" by simp
  from makeLiveEnds_draw [OF assms c3(2), of 3 "\<lambda>j. draw (nat (9 + j))" mastername] obtain rn where
    rn: "makeLiveEnds (\<lambda>j. draw (nat (9 + j))) mastername [0..3 - 1] (skNet c3) = Inr rn" "drawn draw 12 (c3\<lparr>skNet := rn\<rparr>)"
    by (auto simp: nat_add_distrib)
  then show ?thesis using loop c3(3) unfolding sk_make_masters_def Let_def c0_def [symmetric] by (simp add: shardclerk_def drawn_def)
qed

text \<open>A group under construction: the first \<open>i\<close> of its \<open>n\<close> servers have been started.\<close>

definition group_upto :: "int \<Rightarrow> int \<Rightarrow> 'k group \<Rightarrow> bool" where
  "group_upto n i gg \<longleftrightarrow> length (grServers gg) = nat n \<and> length (grSaved gg) = nat n \<and> length (grEndnames gg) = nat n \<and>
     length (grMendnames gg) = 3 \<and> (\<forall>k. i \<le> k \<and> k < n \<longrightarrow> grSaved gg ! nat k = None)"

definition building :: "(nat \<Rightarrow> string) \<Rightarrow> int \<Rightarrow> int \<Rightarrow> int \<Rightarrow> ('m, 'k, 'o, 'b) sk_config \<Rightarrow> bool" where
  "building draw n gi i cfg \<longleftrightarrow> skN cfg = n \<and> nmasters cfg = 3 \<and> length (skGroups cfg) = 3 \<and> drawn draw (groupDraw n gi i) cfg \<and>
     (\<exists>gg. skGroups cfg ! nat gi = Some gg \<and> group_upto n i gg)"

lemma theGroup_Inr: "0 \<le> gi \<Longrightarrow> gi < int (length (skGroups cfg)) \<Longrightarrow> skGroups cfg ! nat gi = Some gg \<Longrightarrow> theGroup cfg gi = Inr gg"
  by (simp add: theGroup_def)

lemma groupDraw_next: "0 \<le> n \<Longrightarrow> 0 \<le> gi \<Longrightarrow> 0 \<le> i \<Longrightarrow> groupDraw n gi (i + 1) = groupDraw n gi i + nat n + 3"
proof -
  assume nonneg: "0 \<le> n" "0 \<le> gi" "0 \<le> i"
  then have "0 \<le> (gi * n + i) * (n + 3)" by simp
  moreover have "12 + (gi * n + (i + 1)) * (n + 3) = (12 + (gi * n + i) * (n + 3)) + n + 3" by (simp add: algebra_simps)
  ultimately show ?thesis using nonneg(1) by (simp add: groupDraw_def nat_add_distrib)
qed

lemma start_server_draw:
  fixes cfg :: "('m, 'k, 'o, 'b) sk_config"
  assumes "inj draw" "building draw n gi i cfg" "0 \<le> gi" "gi < 3" "0 \<le> i" "i < n" "n \<le> 3"
  shows "\<exists>cfg'. skConfigStartServer zero svcs (\<lambda>j. draw (groupDraw n gi i + nat j)) (\<lambda>j. draw (groupDraw n gi i + nat (n + j))) gi i cfg = Inr cfg' \<and>
    building draw n gi (i + 1) cfg'"
proof -
  let ?k = "groupDraw n gi i"
  from assms(2) obtain gg where cfg: "skN cfg = n" "nmasters cfg = 3" "length (skGroups cfg) = 3" "drawn draw ?k cfg" "skGroups cfg ! nat gi = Some gg"
    and gg: "group_upto n i gg" by (auto simp: building_def)
  have the: "theGroup cfg gi = Inr gg" using cfg(3,5) assms(3,4) by (simp add: theGroup_Inr)
  from makeLiveEnds_draw [OF assms(1) cfg(4), of n "\<lambda>j. draw (?k + nat j)" "servername (gid gg)"] assms(5,6) obtain rn where
    rn: "makeLiveEnds (\<lambda>j. draw (?k + nat j)) (servername (gid gg)) [0..n - 1] (skNet cfg) = Inr rn" "drawn draw (?k + nat n) (cfg\<lparr>skNet := rn\<rparr>)" by auto
  have "nat (n + j) = nat n + nat j" if "0 \<le> j" for j using that assms(5,6) by (simp add: nat_add_distrib)
  with makeLiveEnds_draw [OF assms(1) rn(2), of 3 "\<lambda>j. draw (?k + nat (n + j))" mastername] obtain rn' where
    rn': "makeLiveEnds (\<lambda>j. draw (?k + nat (n + j))) mastername [0..3 - 1] rn = Inr rn'" "drawn draw (?k + nat n + 3) (cfg\<lparr>skNet := rn'\<rparr>)"
    by (auto simp: drawn_def add.assoc)
  obtain srv where srv: "skStartServer zero n i MakePersister (skMaxraftstate cfg) (gid gg) = Inr srv"
    by (simp add: skStartServer_def Make_def freshRaft_def ReadRaftState_def MakePersister_def readPersist_def Let_def)
  have saved: "grSavedNow gg i = Inr None" using gg assms(5,6) by (simp add: group_upto_def grSavedNow_def)
  define gg' where "gg' = gg\<lparr>grEndnames := (grEndnames gg)[nat i := map (\<lambda>j. draw (?k + nat j)) [0..n - 1]],
    grMendnames := (grMendnames gg)[nat i := map (\<lambda>j. draw (?k + nat (n + j))) [0..3 - 1]],
    grSaved := (grSaved gg)[nat i := Some MakePersister], grServers := (grServers gg)[nat i := Some srv]\<rparr>"
  define cfg' where "cfg' = setGroup gi gg' (cfg\<lparr>skHeap := skHeap cfg @ [fold AddService svcs MakeServer],
    skNet := AddServer (servername (gid gg) i) (length (skHeap cfg)) rn'\<rparr>)"
  have lens: "int (length (grEndnames gg)) = n" "int (length (grMendnames gg)) = 3" "int (length (grSaved gg)) = n" "int (length (grServers gg)) = n"
    using gg assms(5,6) by (simp_all add: group_upto_def)
  have "skConfigStartServer zero svcs (\<lambda>j. draw (?k + nat j)) (\<lambda>j. draw (?k + nat (n + j))) gi i cfg = Inr cfg'"
    unfolding skConfigStartServer_def the cfg(1,2) using rn(1) rn'(1) srv saved lens assms(5-7) by (simp add: cfg'_def gg'_def Let_def)
  moreover have "group_upto n (i + 1) gg'" using gg assms(5) by (auto simp: group_upto_def gg'_def nth_list_update eq_nat_nat_iff)
  then have "building draw n gi (i + 1) cfg'"
    using rn'(2) cfg assms(3-6) groupDraw_next [of n gi i] by (auto simp: building_def cfg'_def setGroup_def drawn_def AddServer_def)
  ultimately show ?thesis by blast
qed

lemma make_group_draw:
  fixes cfg :: "('m, 'k, 'o, 'b) sk_config"
  assumes "inj draw" "skN cfg = n" "nmasters cfg = 3" "length (skGroups cfg) = 3" "drawn draw (groupDraw n gi 0) cfg" "0 \<le> gi" "gi < 3" "0 \<le> n" "n \<le> 3"
  shows "\<exists>cfg'. sk_make_group zero ksvcs draw gi cfg = Inr cfg' \<and> skN cfg' = n \<and> nmasters cfg' = 3 \<and> length (skGroups cfg') = 3 \<and>
    drawn draw (groupDraw n (gi + 1) 0) cfg'"
proof -
  define c0 where "c0 = cfg\<lparr>skGroups := (skGroups cfg)[nat gi := Some (freshGroup n 3 gi)]\<rparr>"
  let ?start = "\<lambda>i. skConfigStartServer zero (ksvcs gi i) (\<lambda>j. draw (groupDraw n gi i + nat j)) (\<lambda>j. draw (groupDraw n gi i + nat (n + j))) gi i"
  have "group_upto n 0 (freshGroup n 3 gi)" by (simp add: group_upto_def freshGroup_def)
  then have "building draw n gi 0 c0" using assms by (simp add: building_def c0_def drawn_def)
  have "\<exists>cfg'. foldE ?start [0..n - 1] c0 = Inr cfg' \<and> building draw n gi (int (length [0..n - 1])) cfg'"
  proof (rule foldE_prefix_rule [where I = "\<lambda>dn. building draw n gi (int (length dn))"])
    show "building draw n gi (int (length [])) c0" using \<open>building draw n gi 0 c0\<close> by simp
  next
    fix dn i rest and c :: "('m, 'k, 'o, 'b) sk_config"
    assume pre: "[0..n - 1] = dn @ i # rest" and c: "building draw n gi (int (length dn)) c"
    have i: "i = int (length dn)" by (rule upto_prefix(1) [OF pre])
    have "i \<in> set [0..n - 1]" unfolding pre by simp
    then show "\<exists>c'. ?start i c = Inr c' \<and> building draw n gi (int (length (dn @ [i]))) c'"
      using start_server_draw [OF assms(1) c [folded i] assms(6,7), of zero "ksvcs gi i"] assms(9) i by (auto simp: add.commute)
  qed
  then obtain cfg' where cfg': "foldE ?start [0..n - 1] c0 = Inr cfg'" "building draw n gi n cfg'" using assms(8) by auto
  have "sk_make_group zero ksvcs draw gi cfg = foldE ?start [0..n - 1] c0"
    using assms by (simp add: sk_make_group_def c0_def)
  moreover have "groupDraw n gi n = groupDraw n (gi + 1) 0" by (simp add: groupDraw_def algebra_simps)
  ultimately show ?thesis using cfg' by (auto simp: building_def)
qed

lemma sk_make_config_draw:
  assumes "inj draw" "0 \<le> n" "n \<le> 3"
  shows "\<exists>cfg :: ('m, 'k, 'o, 'b) sk_config. sk_make_config now mzero kzero msvcs ksvcs draw n unreliable maxstate = Inr cfg \<and>
    skN cfg = n \<and> nmasters cfg = 3 \<and> drawn draw (groupDraw n 3 0) cfg"
proof -
  have "\<exists>c :: ('m, 'k, 'o, 'b) sk_config. sk_make_masters now mzero msvcs draw maxstate = Inr c \<and> drawn draw 12 c \<and> nmasters c = 3"
    by (rule sk_make_masters_draw [OF assms(1)])
  then obtain c :: "('m, 'k, 'o, 'b) sk_config" where
    c: "sk_make_masters now mzero msvcs draw maxstate = Inr c" "drawn draw 12 c" "nmasters c = 3" by blast
  define c0 where "c0 = c\<lparr>ngroups := 3, skGroups := replicate 3 None, skN := n\<rparr>"
  let ?make = "sk_make_group kzero ksvcs draw :: int \<Rightarrow> ('m, 'k, 'o, 'b) sk_config \<Rightarrow> _"
  have "skN c0 = n" "nmasters c0 = 3" "length (skGroups c0) = 3" "drawn draw (groupDraw n 0 0) c0"
    using c(2,3) by (simp_all add: c0_def drawn_def groupDraw_def)
  from make_group_draw [OF assms(1) this _ _ assms(2,3)] obtain c1 where c1: "?make 0 c0 = Inr c1"
    "skN c1 = n" "nmasters c1 = 3" "length (skGroups c1) = 3" "drawn draw (groupDraw n 1 0) c1" by auto
  from make_group_draw [OF assms(1) c1(2-5) _ _ assms(2,3)] obtain c2 where c2: "?make 1 c1 = Inr c2"
    "skN c2 = n" "nmasters c2 = 3" "length (skGroups c2) = 3" "drawn draw (groupDraw n 2 0) c2" by auto
  from make_group_draw [OF assms(1) c2(2-5) _ _ assms(2,3)] obtain c3 where c3: "?make 2 c2 = Inr c3"
    "skN c3 = n" "nmasters c3 = 3" "drawn draw (groupDraw n 3 0) c3" by auto
  have "[0..2] = [0, 1, 2 :: int]" by (simp add: upto.simps)
  with c1(1) c2(1) c3(1) have "foldE ?make [0..2] c0 = Inr c3" by simp
  then show ?thesis using c(1) c3(2-4) assms(2) by (simp add: sk_make_config_def c0_def skOnNet_def drawn_def Reliable_def)
qed

text \<open>What a server that has been started says about the sizes.\<close>

lemma start_server_bound:
  assumes "skConfigStartServer zero svcs name name' gi i cfg = Inr cfg'" "skGroups cfg ! nat gi = Some gg" "length (grMendnames gg) = 3"
  shows "i < 3 \<and> (\<exists>gg'. skGroups cfg' ! nat gi = Some gg' \<and> length (grMendnames gg') = 3)"
  using assms by (auto simp: skConfigStartServer_def theGroup_def setGroup_def bindE_eq_Inr_iff go_nth_eq_Inr_iff go_update_eq_Inr_iff Let_def nat_less_iff split: if_splits)

lemma make_config_bound:
  fixes cfg :: "('m, 'k, 'o, 'b) sk_config"
  assumes "sk_make_config now mzero kzero msvcs ksvcs draw n unreliable maxstate = Inr cfg" "inj draw"
  shows "0 \<le> n \<and> n \<le> 3"
proof -
  have "\<exists>c :: ('m, 'k, 'o, 'b) sk_config. sk_make_masters now mzero msvcs draw maxstate = Inr c \<and> drawn draw 12 c \<and> nmasters c = 3"
    by (rule sk_make_masters_draw [OF assms(2)])
  then obtain c :: "('m, 'k, 'o, 'b) sk_config" where m: "sk_make_masters now mzero msvcs draw maxstate = Inr c" "nmasters c = 3" by blast
  from assms(1) have c: "nmasters c = 3" "0 \<le> n" unfolding sk_make_config_def m(1) using m(2) by (simp_all split: if_splits)
  with assms(1) obtain d where d: "foldE (sk_make_group kzero ksvcs draw) [0..2] (c\<lparr>ngroups := 3, skGroups := replicate 3 None, skN := n\<rparr>) = Inr d"
    unfolding sk_make_config_def m(1) by (auto simp: bindE_eq_Inr_iff)
  define c0 where "c0 = c\<lparr>ngroups := 3, skGroups := replicate 3 None, skN := n\<rparr>"
  have "[0..2] = [0, 1, 2 :: int]" by (simp add: upto.simps)
  with d obtain c1 where "sk_make_group kzero ksvcs draw 0 c0 = Inr c1" by (auto simp: c0_def bindE_eq_Inr_iff)
  then have loop: "foldE (\<lambda>i. skConfigStartServer kzero (ksvcs 0 i) (\<lambda>j. draw (groupDraw n 0 i + nat j)) (\<lambda>j. draw (groupDraw n 0 i + nat (n + j))) 0 i)
      [0..n - 1] (c0\<lparr>skGroups := (skGroups c0)[nat 0 := Some (freshGroup n 3 0)]\<rparr>) = Inr c1"
    using c by (simp add: sk_make_group_def c0_def)
  have "(\<exists>gg. skGroups c1 ! nat 0 = Some gg \<and> length (grMendnames gg) = 3) \<and> (\<forall>i\<in>set [0..n - 1]. i < 3)"
  proof (rule foldE_Inr_rule [OF loop, where I = "\<lambda>dn c. (\<exists>gg. skGroups c ! nat 0 = Some gg \<and> length (grMendnames gg) = 3) \<and> (\<forall>i\<in>set dn. i < 3)"])
    show "(\<exists>gg. skGroups (c0\<lparr>skGroups := (skGroups c0)[nat 0 := Some (freshGroup n 3 0)]\<rparr>) ! nat 0 = Some gg \<and> length (grMendnames gg) = 3) \<and> (\<forall>i\<in>set []. i < 3)"
      by (simp add: c0_def freshGroup_def)
  next
    fix dn :: "int list" and i and u u' :: "('m, 'k, 'o, 'b) sk_config"
    assume u: "(\<exists>gg. skGroups u ! nat 0 = Some gg \<and> length (grMendnames gg) = 3) \<and> (\<forall>i\<in>set dn. i < 3)"
      and st: "skConfigStartServer kzero (ksvcs 0 i) (\<lambda>j. draw (groupDraw n 0 i + nat j)) (\<lambda>j. draw (groupDraw n 0 i + nat (n + j))) 0 i u = Inr u'"
    from u obtain gg where "skGroups u ! nat 0 = Some gg" "length (grMendnames gg) = 3" by blast
    from start_server_bound [OF st this] u
    show "(\<exists>gg. skGroups u' ! nat 0 = Some gg \<and> length (grMendnames gg) = 3) \<and> (\<forall>i\<in>set (dn @ [i]). i < 3)" by simp
  qed
  then have "\<forall>i\<in>set [0..n - 1]. i < 3" by blast
  then have "n \<le> 3" by (cases "n \<le> 3") (auto dest: bspec [of _ _ "3"])
  with c(2) show ?thesis by simp
qed

subsection \<open>Clients need three servers per group\<close>

lemma client_loop:
  assumes "foldE (\<lambda>j (rn, endnames). bindE (go_update endnames j (name j)) (\<lambda>endnames. bindE (MakeEnd (name j) rn) (\<lambda>rn.
      Inr (Enable (name j) True (Connect (name j) (mastername j) rn), endnames)))) js (rn, es) = Inr r"
  shows "\<forall>j\<in>set js. j < int (length es)"
proof -
  have "length (snd r) = length es \<and> (\<forall>j\<in>set js. j < int (length es))"
    using assms by (rule foldE_Inr_rule [where I = "\<lambda>dn r. length (snd r) = length es \<and> (\<forall>j\<in>set dn. j < int (length es))"])
      (auto simp: bindE_eq_Inr_iff go_update_eq_Inr_iff split: prod.splits)
  then show ?thesis by blast
qed

lemma skMakeClient_bound:
  assumes "skMakeClient name ck cfg = Inr r" "nmasters cfg = 3"
  shows "3 \<le> skN cfg"
proof -
  from assms obtain s where "0 \<le> skN cfg" "foldE (\<lambda>j (rn, endnames). bindE (go_update endnames j (name j)) (\<lambda>endnames. bindE (MakeEnd (name j) rn) (\<lambda>rn.
      Inr (Enable (name j) True (Connect (name j) (mastername j) rn), endnames)))) [0..3 - 1] (skNet cfg, replicate (nat (skN cfg)) []) = Inr s"
    by (auto simp: skMakeClient_def bindE_eq_Inr_iff split: if_splits)
  from client_loop [OF this(2)] this(1) have "(2 :: int) < skN cfg" by simp
  then show ?thesis by simp
qed

lemma skMakeClient_succeeds:
  assumes "nmasters cfg = 3" "skN cfg = 3" "inj_on name {0, 1, 2}" "\<And>j. j \<in> {0, 1, 2} \<Longrightarrow> \<not> ends (skNet cfg) (name j)"
  shows "isOk (skMakeClient name ck cfg)"
proof -
  have up: "[0..2] = [0, 1, 2 :: int]" by (simp add: upto.simps)
  have neq: "name 1 \<noteq> name 0" "name 2 \<noteq> name 0" "name 2 \<noteq> name 1" using inj_onD [OF assms(3), of 1 0] inj_onD [OF assms(3), of 2 0] inj_onD [OF assms(3), of 2 1] by auto
  have new: "\<not> ends (skNet cfg) (name 0)" "\<not> ends (skNet cfg) (name 1)" "\<not> ends (skNet cfg) (name 2)" using assms(4) by simp_all
  show ?thesis
    unfolding skMakeClient_def assms(1,2) by (simp add: up MakeEnd_def Enable_def Connect_def neq new isOk_def)
qed

text \<open>
  Claim C40. The size of a group is not free: \<open>mendnames\<close> is made with one row per master and indexed by
  the server, and the names of a client's ends are kept in a slice with one element per server and
  indexed by the master. With three masters and names that do not repeat, \<open>make_config\<close> returns
  exactly for groups of at most three servers, and \<open>make_config\<close> and \<open>makeClient\<close> both return exactly
  for groups of three; every other size ends with a panic.
\<close>

theorem only_three_servers_per_group:
  assumes "inj draw"
  shows "(isOk (sk_make_config now mzero kzero msvcs ksvcs draw n unreliable maxstate) \<longleftrightarrow> 0 \<le> n \<and> n \<le> 3) \<and>
    (isOk (bindE (sk_make_config now mzero kzero msvcs ksvcs draw n unreliable maxstate) (skMakeClient (\<lambda>j. draw (groupDraw n 3 0 + nat j)) ck)) \<longleftrightarrow> n = 3)"
proof -
  let ?make = "sk_make_config now mzero kzero msvcs ksvcs draw n unreliable maxstate"
  let ?client = "skMakeClient (\<lambda>j. draw (groupDraw n 3 0 + nat j)) ck"
  note made = sk_make_config_draw [OF assms, of n now mzero kzero msvcs ksvcs unreliable maxstate]
  have fst: "isOk ?make \<longleftrightarrow> 0 \<le> n \<and> n \<le> 3"
    using made make_config_bound [OF _ assms, of now mzero kzero msvcs ksvcs n unreliable maxstate] by (auto simp: isOk_def split: sum.splits)
  have "n = 3" if "isOk (bindE ?make ?client)"
  proof -
    from that obtain cfg r where cfg: "?make = Inr cfg" "?client cfg = Inr r" by (auto simp: isOk_def bindE_def split: sum.splits)
    have n: "0 \<le> n \<and> n \<le> 3" using fst cfg(1) by (simp add: isOk_def)
    with made cfg(1) have "nmasters cfg = 3" "skN cfg = n" by auto
    with skMakeClient_bound [OF cfg(2)] n show ?thesis by simp
  qed
  moreover have "isOk (bindE ?make ?client)" if "n = 3"
  proof -
    from made that obtain cfg where cfg: "?make = Inr cfg" "skN cfg = 3" "nmasters cfg = 3" "drawn draw (groupDraw n 3 0) cfg" by auto
    have "isOk (?client cfg)"
    proof (rule skMakeClient_succeeds [OF cfg(3,2)])
      show "inj_on (\<lambda>j. draw (groupDraw n 3 0 + nat j)) {0, 1, 2}"
      proof (rule inj_onI)
        fix x y :: int
        assume xy: "x \<in> {0, 1, 2}" "y \<in> {0, 1, 2}" "draw (groupDraw n 3 0 + nat x) = draw (groupDraw n 3 0 + nat y)"
        from injD [OF assms xy(3)] xy(1,2) show "x = y" by auto
      qed
      show "\<not> ends (skNet cfg) (draw (groupDraw n 3 0 + nat j))" for j
      proof
        assume "ends (skNet cfg) (draw (groupDraw n 3 0 + nat j))"
        with cfg(4) obtain l where "l < groupDraw n 3 0" "draw (groupDraw n 3 0 + nat j) = draw l" by (auto simp: drawn_def)
        with injD [OF assms] show False by force
      qed
    qed
    with cfg(1) show ?thesis by simp
  qed
  ultimately show ?thesis using fst by blast
qed

theorem only_three_servers_per_group_witness:
  "\<not> isOk (sk_make_config 0 () () (\<lambda>_. []) (\<lambda>_ _. []) natDigits 5 False (-1) :: (unit, unit, unit, unit) sk_config go) \<and>
   isOk (bindE (sk_make_config 0 () () (\<lambda>_. []) (\<lambda>_ _. []) natDigits 3 False (-1) :: (unit, unit, unit, unit) sk_config go)
     (skMakeClient (\<lambda>j. natDigits (groupDraw 3 3 0 + nat j)) 0))"
proof -
  have "inj natDigits" by (auto simp: inj_on_def natDigits_inj)
  note sizes = only_three_servers_per_group [OF this, of 0 "()" "()" "\<lambda>_. [] :: (unit, unit) Service list" "\<lambda>_ _. []" _ False "-1" 0]
  from sizes [of 5] sizes [of 3] show ?thesis by simp
qed

subsection \<open>Shutting down one server\<close>

interpretation rawNet: net_holder "\<lambda>f c. f c"
  by unfold_locales simp_all

lemma disable_row:
  "foldE (\<lambda>j rn. bindE (go_nth row j) (\<lambda>name. Inr (Enable name False rn))) [0..int (length row) - 1] rn =
     Inr (net.switch (map (\<lambda>j. (row ! nat j, False)) [0..int (length row) - 1]) rn)"
  by (rule rawNet.switch_all) simp

lemma enabled_disabled_row:
  "enabled (net.switch (map (\<lambda>j. (row ! nat j, False)) [0..int (length row) - 1]) rn) e \<longleftrightarrow> enabled rn e \<and> e \<notin> set row"
proof -
  have "(\<lambda>j. row ! nat j) ` set [0..int (length row) - 1] = set row" using image_nth_upto [of "\<lambda>e. e" row] by simp
  then show ?thesis by (simp only: enabled_switch) simp
qed

lemma servername_inj:
  assumes "0 \<le> g" "0 \<le> i" "0 \<le> g'" "0 \<le> i'"
  shows "servername g i = servername g' i' \<longleftrightarrow> g = g' \<and> i = i'"
proof
  assume "servername g i = servername g' i'"
  then have "natDigits (nat g) @ CHR ''-'' # natDigits (nat i) = natDigits (nat g') @ CHR ''-'' # natDigits (nat i')"
    using assms by (simp add: servername_def Itoa_nonneg)
  from digits_split [OF natDigits_digits(1) natDigits_digits(1) dash_not_digit(1) this] assms
  show "g = g' \<and> i = i'" by (simp add: natDigits_inj eq_nat_nat_iff)
qed simp

lemma mastername_servername: "mastername k \<noteq> servername g i"
  by (simp add: mastername_def servername_def)

text \<open>The two loops of \<open>ShutdownServer\<close> switch off the two rows of ends of the server.\<close>

lemma shutdown_eq:
  assumes "theGroup cfg gi = Inr gg" "go_nth (grEndnames gg) i = Inr row" "length row = length (grServers gg)" "go_nth (grMendnames gg) i = Inr mrow"
    and "grSavedNow gg i = Inr ps" "i < int (length (grSaved gg))" "go_nth (grServers gg) i = Inr srv" "0 \<le> i"
    and "\<And>kv. srv = Some kv \<Longrightarrow> isOk (skKill kv)"
  shows "\<exists>rn. skShutdownServer gi i cfg = Inr (setGroup gi (gg\<lparr>grSaved := (grSaved gg)[nat i := map_option Copy ps], grServers := (grServers gg)[nat i := None]\<rparr>)
      (cfg\<lparr>skNet := DeleteServer (servername (gid gg) i) rn\<rparr>)) \<and> wires rn = wires (skNet cfg) \<and>
    (\<forall>e. enabled rn e \<longleftrightarrow> enabled (skNet cfg) e \<and> e \<notin> set row \<union> set mrow)"
proof -
  let ?off = "\<lambda>row. net.switch (map (\<lambda>j. (row ! nat j, False)) [0..int (length row) - 1]) :: (string, string) Network \<Rightarrow> _"
  have loop: "foldE (\<lambda>j rn. bindE (go_nth (grEndnames gg) i) (\<lambda>row. bindE (go_nth row j) (\<lambda>name. Inr (Enable name False rn))))
      [0..int (length (grServers gg)) - 1] (skNet cfg) = Inr (?off row (skNet cfg))"
    using disable_row [of row "skNet cfg"] by (simp add: assms(2) flip: assms(3))
  have "(case srv of None \<Rightarrow> Inr (grServers gg) | Some srv \<Rightarrow> bindE (skKill srv) (\<lambda>_. go_update (grServers gg) i None)) = Inr ((grServers gg)[nat i := None])"
  proof (cases srv)
    case None
    then have "(grServers gg)[nat i := None] = grServers gg" using assms(7) by (metis go_nth_eq_Inr_iff list_update_id)
    with None show ?thesis by simp
  next
    case (Some kv)
    with assms(9) obtain x where "skKill kv = Inr x" by (auto simp: isOk_def split: sum.splits)
    moreover have "i < int (length (grServers gg))" using assms(7) by (simp add: go_nth_eq_Inr_iff)
    ultimately show ?thesis using Some assms(8) by simp
  qed
  then have "skShutdownServer gi i cfg = Inr (setGroup gi (gg\<lparr>grSaved := (grSaved gg)[nat i := map_option Copy ps], grServers := (grServers gg)[nat i := None]\<rparr>)
      (cfg\<lparr>skNet := DeleteServer (servername (gid gg) i) (?off mrow (?off row (skNet cfg)))\<rparr>))"
    unfolding skShutdownServer_def assms(1) using loop assms(4-8) by (simp add: disable_row)
  moreover have "wires (?off mrow (?off row (skNet cfg))) = wires (skNet cfg)" by simp
  moreover have "enabled (?off mrow (?off row (skNet cfg))) e \<longleftrightarrow> enabled (skNet cfg) e \<and> e \<notin> set row \<union> set mrow" for e
    by (simp add: enabled_disabled_row)
  ultimately show ?thesis by blast
qed

text \<open>Slot \<open>i\<close> of a group can be shut down: its rows of ends are there and its server has not been killed.\<close>

definition serverReady :: "'k group \<Rightarrow> int \<Rightarrow> bool" where
  "serverReady gg i \<longleftrightarrow> 0 \<le> i \<and> i < int (length (grServers gg)) \<and> length (grEndnames gg) = length (grServers gg) \<and> length (grSaved gg) = length (grServers gg) \<and>
     i < int (length (grMendnames gg)) \<and> length (grEndnames gg ! nat i) = length (grServers gg) \<and>
     (\<forall>kv. grServers gg ! nat i = Some kv \<longrightarrow> \<not> shutDown (skRf kv))"

lemma started_server_ready:
  assumes "skConfigStartServer zero svcs name name' gi i cfg = Inr cfg'" "theGroup cfg gi = Inr gg" "0 \<le> gi"
    and "length (grServers gg) = nat (skN cfg)" "length (grEndnames gg) = nat (skN cfg)" "length (grSaved gg) = nat (skN cfg)"
  shows "\<exists>gg'. theGroup cfg' gi = Inr gg' \<and> gid gg' = gid gg \<and> serverReady gg' i"
proof -
  from assms(1,2) obtain names mnames saved ps srv heap' rn where
    ok: "go_update (grEndnames gg) i (map name [0..skN cfg - 1]) = Inr names" "go_update (grMendnames gg) i (map name' [0..nmasters cfg - 1]) = Inr mnames"
      "go_update (grSaved gg) i (Some ps) = Inr saved" "skStartServer zero (skN cfg) i ps (skMaxraftstate cfg) (gid gg) = Inr srv" "i < int (length (grServers gg))"
    and cfg': "cfg' = setGroup gi (gg\<lparr>grEndnames := names, grMendnames := mnames, grSaved := saved, grServers := (grServers gg)[nat i := Some srv]\<rparr>)
      (cfg\<lparr>skHeap := heap', skNet := rn\<rparr>)"
    by (auto simp: skConfigStartServer_def bindE_eq_Inr_iff go_update_eq_Inr_iff Let_def split: if_splits)
  from ok(4) have alive: "\<not> shutDown (skRf srv)" by (auto simp: skStartServer_def bindE_eq_Inr_iff dest: Make_keeps)
  have slot: "gi < int (length (skGroups cfg))" using assms(2) by (auto simp: theGroup_def bindE_eq_Inr_iff go_nth_eq_Inr_iff)
  define gg' where "gg' = gg\<lparr>grEndnames := names, grMendnames := mnames, grSaved := saved, grServers := (grServers gg)[nat i := Some srv]\<rparr>"
  have "theGroup cfg' gi = Inr gg'" using slot assms(3) by (simp add: theGroup_def cfg' setGroup_def gg'_def)
  moreover have "serverReady gg' i"
  proof -
    have "0 \<le> i" "nat i < nat (skN cfg)" using ok(1,5) assms(4) by (auto simp: go_update_eq_Inr_iff split: if_splits)
    then show ?thesis using ok alive assms(4-6) by (auto simp: serverReady_def gg'_def go_update_eq_Inr_iff)
  qed
  ultimately show ?thesis by (auto simp: gg'_def)
qed

text \<open>
  Claim C39. \<open>ShutdownServer\<close> isolates one server of a group and no other: afterwards no request is
  delivered to it and none of its ends delivers one; on every other end, requests to the masters
  and to every other server of any group are delivered as before. The persisted state is kept in a copy.
\<close>

theorem shutdown_isolates_one:
  assumes "theGroup cfg gi = Inr gg" "0 \<le> gi" "0 \<le> gid gg" "serverReady gg i"
  shows "\<exists>cfg' gg'. skShutdownServer gi i cfg = Inr cfg' \<and> theGroup cfg' gi = Inr gg' \<and> grServers gg' = (grServers gg)[nat i := None] \<and>
    grSavedNow gg' i = bindE (grSavedNow gg i) (\<lambda>ps. Inr (map_option Copy ps)) \<and>
    (\<forall>e. delivered e (skNet cfg') \<noteq> Some (servername (gid gg) i)) \<and>
    (\<forall>e \<in> set (grEndnames gg ! nat i) \<union> set (grMendnames gg ! nat i). delivered e (skNet cfg') = None) \<and>
    (\<forall>e k. e \<notin> set (grEndnames gg ! nat i) \<union> set (grMendnames gg ! nat i) \<longrightarrow>
      (delivered e (skNet cfg') = Some (mastername k) \<longleftrightarrow> delivered e (skNet cfg) = Some (mastername k))) \<and>
    (\<forall>e g j. e \<notin> set (grEndnames gg ! nat i) \<union> set (grMendnames gg ! nat i) \<and> 0 \<le> g \<and> 0 \<le> j \<and> (g, j) \<noteq> (gid gg, i) \<longrightarrow>
      (delivered e (skNet cfg') = Some (servername g j) \<longleftrightarrow> delivered e (skNet cfg) = Some (servername g j)))"
proof -
  have i: "0 \<le> i" "i < int (length (grServers gg))" "length (grEndnames gg) = length (grServers gg)" "length (grSaved gg) = length (grServers gg)"
    "i < int (length (grMendnames gg))" "length (grEndnames gg ! nat i) = length (grServers gg)"
    "\<And>kv. grServers gg ! nat i = Some kv \<Longrightarrow> \<not> shutDown (skRf kv)" using assms(4) by (simp_all add: serverReady_def)
  define row where "row = grEndnames gg ! nat i"
  define mrow where "mrow = grMendnames gg ! nat i"
  have rows: "go_nth (grEndnames gg) i = Inr row" "go_nth (grMendnames gg) i = Inr mrow" using i by (simp_all add: row_def mrow_def)
  have srv: "go_nth (grServers gg) i = Inr (grServers gg ! nat i)" "i < int (length (grSaved gg))" using i by simp_all
  then obtain ps where ps: "grSavedNow gg i = Inr ps" using i(1) by (auto simp: grSavedNow_def)
  have kill: "isOk (skKill kv)" if "grServers gg ! nat i = Some kv" for kv
    using i(7) [OF that] by (simp add: skKill_def Kill_def isOk_def)
  from shutdown_eq [OF assms(1) rows(1) _ rows(2) ps srv(2,1) i(1) kill] i(6) obtain rn where
    rn: "skShutdownServer gi i cfg = Inr (setGroup gi (gg\<lparr>grSaved := (grSaved gg)[nat i := map_option Copy ps], grServers := (grServers gg)[nat i := None]\<rparr>)
      (cfg\<lparr>skNet := DeleteServer (servername (gid gg) i) rn\<rparr>))" "wires rn = wires (skNet cfg)"
      "\<And>e. enabled rn e \<longleftrightarrow> enabled (skNet cfg) e \<and> e \<notin> set row \<union> set mrow" unfolding row_def by blast
  define gg' where "gg' = gg\<lparr>grSaved := (grSaved gg)[nat i := map_option Copy ps], grServers := (grServers gg)[nat i := None]\<rparr>"
  define cfg' where "cfg' = setGroup gi gg' (cfg\<lparr>skNet := DeleteServer (servername (gid gg) i) rn\<rparr>)"
  have to: "delivered e (skNet cfg') = Some s \<longleftrightarrow> e \<notin> set row \<union> set mrow \<and> s \<noteq> servername (gid gg) i \<and> delivered e (skNet cfg) = Some s" for e s
    unfolding delivered_iff using rn(3) wires_eqD [OF rn(2)] by (auto simp: cfg'_def setGroup_def DeleteServer_def)
  have slot: "gi < int (length (skGroups cfg))" using assms(1) by (auto simp: theGroup_def bindE_eq_Inr_iff go_nth_eq_Inr_iff)
  show ?thesis
  proof (intro exI conjI)
    show "skShutdownServer gi i cfg = Inr cfg'" using rn(1) by (simp add: cfg'_def gg'_def)
    show "theGroup cfg' gi = Inr gg'" using slot assms(2) by (simp add: theGroup_def cfg'_def setGroup_def)
    show "grServers gg' = (grServers gg)[nat i := None]" by (simp add: gg'_def)
    show "grSavedNow gg' i = bindE (grSavedNow gg i) (\<lambda>ps. Inr (map_option Copy ps))"
      using ps srv i(1,2) by (simp add: grSavedNow_def gg'_def split: option.splits)
    show "\<forall>e. delivered e (skNet cfg') \<noteq> Some (servername (gid gg) i)" unfolding to by simp
    have none: "delivered e (skNet cfg') = None" if "e \<in> set row \<union> set mrow" for e
      using to [of e] that by (cases "delivered e (skNet cfg')") auto
    then show "\<forall>e \<in> set (grEndnames gg ! nat i) \<union> set (grMendnames gg ! nat i). delivered e (skNet cfg') = None"
      unfolding row_def mrow_def by blast
    show "\<forall>e k. e \<notin> set (grEndnames gg ! nat i) \<union> set (grMendnames gg ! nat i) \<longrightarrow>
      (delivered e (skNet cfg') = Some (mastername k) \<longleftrightarrow> delivered e (skNet cfg) = Some (mastername k))"
      unfolding to row_def mrow_def using mastername_servername by blast
    show "\<forall>e g j. e \<notin> set (grEndnames gg ! nat i) \<union> set (grMendnames gg ! nat i) \<and> 0 \<le> g \<and> 0 \<le> j \<and> (g, j) \<noteq> (gid gg, i) \<longrightarrow>
      (delivered e (skNet cfg') = Some (servername g j) \<longleftrightarrow> delivered e (skNet cfg) = Some (servername g j))"
    proof (intro allI impI)
      fix e g j
      assume a: "e \<notin> set (grEndnames gg ! nat i) \<union> set (grMendnames gg ! nat i) \<and> 0 \<le> g \<and> 0 \<le> j \<and> (g, j) \<noteq> (gid gg, i)"
      then have "servername g j \<noteq> servername (gid gg) i" using servername_inj [of g j "gid gg" i] assms(3) i(1) by auto
      with a show "delivered e (skNet cfg') = Some (servername g j) \<longleftrightarrow> delivered e (skNet cfg) = Some (servername g j)"
        unfolding to row_def mrow_def by blast
    qed
  qed
qed

text \<open>Group 100 with one running server, and a client that has an end to it.\<close>

definition oneServer :: "(unit, unit, unit, unit) sk_config" where
  "oneServer = \<lparr>skNet = Enable ''c'' True (Connect ''c'' (servername 100 0) (AddServer (servername 100 0) 0 MakeNetwork)), skHeap = [MakeServer], skStart = 0, nmasters = 1,
     masterservers = [], mck = None, ngroups = 1, skN = 1,
     skGroups = [Some \<lparr>gid = 100, grServers = [Some \<lparr>skMe = 0, skRf = freshRaft () 1 0 MakePersister, skGid = 100, skMax = -1\<rparr>], grSaved = [Some MakePersister],
       grEndnames = [[''a'']], grMendnames = [[''m'']]\<rparr>],
     skClerks = (\<lambda>_. None), skNextClientId = 1001, skMaxraftstate = -1\<rparr>"

theorem shutdown_isolates_one_witness:
  "\<exists>cfg'. skShutdownServer 0 0 oneServer = Inr cfg' \<and> delivered ''c'' (skNet oneServer) = Some (servername 100 0) \<and>
    delivered ''c'' (skNet cfg') \<noteq> Some (servername 100 0)"
proof -
  define gg where "gg = \<lparr>gid = 100, grServers = [Some \<lparr>skMe = 0, skRf = freshRaft () 1 0 MakePersister, skGid = 100, skMax = -1\<rparr>], grSaved = [Some MakePersister],
       grEndnames = [[''a'']], grMendnames = [[''m'']]\<rparr>"
  have gg: "theGroup oneServer 0 = Inr gg" by (simp add: theGroup_def oneServer_def gg_def)
  have "delivered ''c'' (skNet oneServer) = Some (servername 100 0)"
    by (simp add: delivered_iff oneServer_def Enable_def Connect_def AddServer_def)
  moreover have "serverReady gg 0" by (simp add: serverReady_def gg_def freshRaft_def)
  ultimately show ?thesis using shutdown_isolates_one [OF gg, of 0] by (auto simp: gg_def)
qed

end
