(* ===== verification/Raft_Config.thy ===== *)
theory Raft_Config
  imports Raft_Cluster Config_Net
begin

section \<open>raft/config.go: the configuration that runs the tests of Raft\<close>

text \<open>
  The tester's view of a cluster: which servers exist, what they persisted, which are connected,
  the names of the ends each server sends on, and what each server has applied so far.

  \<^item> A slice that is nil is the empty list; no operation makes an empty row for \<open>n > 0\<close>.
  \<^item> While a server runs, \<open>saved[i]\<close> and the persister of \<open>rafts[i]\<close> are the same object. The
    model keeps its content in the server; \<open>savedNow\<close> reads \<open>saved[i]\<close> through it. \<open>crash1\<close>
    replaces \<open>saved[i]\<close> by a copy before it kills the old server, so that what this server
    still writes is lost.
  \<^item> A server of the network is an address in \<open>cfHeap\<close>.
  \<^item> Random names and what \<open>reflect\<close> finds in a server are arguments, and so are the
    observations of a waiting loop: the configurations that it sees at its turns.
  \<^item> \<open>cfg.t.Fatal\<close> is the error \<open>TestFatal\<close>, \<open>log.Fatal\<close> is \<open>LogFatal\<close>.
\<close>

subsection \<open>State\<close>

text \<open>A command is an \<open>interface{}\<close>: an int, or a value of another type.\<close>

datatype command = CmdInt int | CmdOther string

record ('o, 'b) config =
  cfNet :: "(string, int) Network"
  cfHeap :: "('o, 'b) Server list"
  cfN :: int
  cfRafts :: "command Raft option list"
  cfApplyErr :: "string list"
  cfConnected :: "bool list"
  cfSaved :: "command gobval list Persister option list"
  cfEndnames :: "string list list"
  cfLogs :: "(int \<rightharpoonup> int) list"
  cfStart :: int
  cfT0 :: int
  cfRpcs0 :: int
  cfCmds0 :: int
  cfMaxIndex :: int
  cfMaxIndex0 :: int

definition onNet :: "((string, int) Network \<Rightarrow> (string, int) Network) \<Rightarrow> ('o, 'b) config \<Rightarrow> ('o, 'b) config" where
  "onNet f cfg = cfg\<lparr>cfNet := f (cfNet cfg)\<rparr>"

text \<open>\<open>cfg.endnames[i][j]\<close>.\<close>

definition cfEndname :: "('o, 'b) config \<Rightarrow> int \<Rightarrow> int \<Rightarrow> string go" where
  "cfEndname cfg i j = bindE (go_nth (cfEndnames cfg) i) (\<lambda>row. go_nth row j)"

subsection \<open>Connections\<close>

definition connect :: "int \<Rightarrow> ('o, 'b) config \<Rightarrow> ('o, 'b) config go" where
  "connect i cfg =
     bindE (go_update (cfConnected cfg) i True) (\<lambda>con.
     let cfg = cfg\<lparr>cfConnected := con\<rparr> in
     bindE (foldE (\<lambda>j cfg.
       bindE (go_nth (cfConnected cfg) j) (\<lambda>c.
       if c then bindE (cfEndname cfg i j) (\<lambda>e. Inr (onNet (Enable e True) cfg)) else Inr cfg)) [0..cfN cfg - 1] cfg) (\<lambda>cfg.
     foldE (\<lambda>j cfg.
       bindE (go_nth (cfConnected cfg) j) (\<lambda>c.
       if c then bindE (cfEndname cfg j i) (\<lambda>e. Inr (onNet (Enable e True) cfg)) else Inr cfg)) [0..cfN cfg - 1] cfg))"

definition disconnect :: "int \<Rightarrow> ('o, 'b) config \<Rightarrow> ('o, 'b) config go" where
  "disconnect i cfg =
     bindE (go_update (cfConnected cfg) i False) (\<lambda>con.
     let cfg = cfg\<lparr>cfConnected := con\<rparr> in
     bindE (foldE (\<lambda>j cfg.
       bindE (go_nth (cfEndnames cfg) i) (\<lambda>row.
       if row \<noteq> [] then bindE (cfEndname cfg i j) (\<lambda>e. Inr (onNet (Enable e False) cfg)) else Inr cfg)) [0..cfN cfg - 1] cfg) (\<lambda>cfg.
     foldE (\<lambda>j cfg.
       bindE (go_nth (cfEndnames cfg) j) (\<lambda>row.
       if row \<noteq> [] then bindE (cfEndname cfg j i) (\<lambda>e. Inr (onNet (Enable e False) cfg)) else Inr cfg)) [0..cfN cfg - 1] cfg))"

definition setunreliable :: "bool \<Rightarrow> ('o, 'b) config \<Rightarrow> ('o, 'b) config" where
  "setunreliable unrel cfg = onNet (Reliable (\<not> unrel)) cfg"

definition setlongreordering :: "bool \<Rightarrow> ('o, 'b) config \<Rightarrow> ('o, 'b) config" where
  "setlongreordering longrel cfg = onNet (LongReordering longrel) cfg"

definition rpcCount :: "int \<Rightarrow> ('o, 'b) config \<Rightarrow> int go" where
  "rpcCount server cfg = netGetCount (\<lambda>a. cfHeap cfg ! a) server (cfNet cfg)"

definition rpcTotal :: "('o, 'b) config \<Rightarrow> int" where
  "rpcTotal cfg = GetTotalCount (cfNet cfg)"

subsection \<open>Crash and restart\<close>

definition savedNow :: "('o, 'b) config \<Rightarrow> int \<Rightarrow> command gobval list Persister option go" where
  "savedNow cfg i =
     bindE (go_nth (cfSaved cfg) i) (\<lambda>ps.
     bindE (go_nth (cfRafts cfg) i) (\<lambda>rf.
     Inr (case (ps, rf) of (Some _, Some rf) \<Rightarrow> Some (persister rf) | _ \<Rightarrow> ps)))"

text \<open>The end of \<open>crash1\<close>: a new persister with the Raft state of the old one, and without its snapshot.\<close>

definition raftStateOnly :: "'s Persister \<Rightarrow> 's Persister" where
  "raftStateOnly ps = (case ReadRaftState ps of None \<Rightarrow> MakePersister | Some st \<Rightarrow> SaveRaftState st MakePersister)"

definition crash1 :: "int \<Rightarrow> ('o, 'b) config \<Rightarrow> ('o, 'b) config go" where
  "crash1 i cfg =
     bindE (disconnect i cfg) (\<lambda>cfg.
     let cfg = onNet (DeleteServer i) cfg in
     bindE (savedNow cfg i) (\<lambda>ps.
     let ps = map_option Copy ps in
     bindE (go_nth (cfRafts cfg) i) (\<lambda>rf.
     bindE (case rf of
              None \<Rightarrow> Inr (cfRafts cfg)
            | Some rf \<Rightarrow> bindE (Kill rf) (\<lambda>_. go_update (cfRafts cfg) i None)) (\<lambda>rafts.
     bindE (go_update (cfSaved cfg) i (map_option raftStateOnly ps)) (\<lambda>saved.
     Inr (cfg\<lparr>cfRafts := rafts, cfSaved := saved\<rparr>))))))"

definition start1 :: "(int \<Rightarrow> string) \<Rightarrow> ('o, 'b) goMethod list \<Rightarrow> int \<Rightarrow> ('o, 'b) config \<Rightarrow> ('o, 'b) config go" where
  "start1 randname methodsOf i cfg =
     bindE (crash1 i cfg) (\<lambda>cfg.
     bindE (go_update (cfEndnames cfg) i (map randname [0..cfN cfg - 1])) (\<lambda>names.
     let cfg = cfg\<lparr>cfEndnames := names\<rparr> in
     bindE (makeEnds randname (\<lambda>j. j) [0..cfN cfg - 1] (cfNet cfg)) (\<lambda>rn.
     bindE (savedNow cfg i) (\<lambda>ps.
     let ps = (case ps of Some ps \<Rightarrow> Copy ps | None \<Rightarrow> MakePersister) in
     bindE (go_update (cfSaved cfg) i (Some ps)) (\<lambda>saved.
     bindE (Make (CmdInt 0) (cfN cfg) i ps) (\<lambda>rf.
     bindE (go_update (cfRafts cfg) i (Some rf)) (\<lambda>rafts.
     let srv = AddService (MakeService ''Raft'' methodsOf) MakeServer in
     Inr (cfg\<lparr>cfSaved := saved, cfRafts := rafts, cfNet := AddServer i (length (cfHeap cfg)) rn,
              cfHeap := cfHeap cfg @ [srv]\<rparr>))))))))"

definition make_config :: "int \<Rightarrow> (int \<Rightarrow> int \<Rightarrow> string) \<Rightarrow> (int \<Rightarrow> ('o, 'b) goMethod list) \<Rightarrow> int \<Rightarrow> bool \<Rightarrow> ('o, 'b) config go" where
  "make_config now randname methodsOf n unreliable =
     (if n < 0 then Inl MakeSliceLenOutOfRange
      else
        let cfg = \<lparr>cfNet = MakeNetwork, cfHeap = [], cfN = n, cfRafts = replicate (nat n) None,
              cfApplyErr = replicate (nat n) [], cfConnected = replicate (nat n) False,
              cfSaved = replicate (nat n) None, cfEndnames = replicate (nat n) [], cfLogs = replicate (nat n) (\<lambda>_. None),
              cfStart = now, cfT0 = 0, cfRpcs0 = 0, cfCmds0 = 0, cfMaxIndex = 0, cfMaxIndex0 = 0\<rparr>;
            cfg = onNet (LongDelays True) (setunreliable unreliable cfg) in
        bindE (foldE (\<lambda>i cfg.
          bindE (go_update (cfLogs cfg) i (\<lambda>_. None)) (\<lambda>ls.
          start1 (randname i) (methodsOf i) i (cfg\<lparr>cfLogs := ls\<rparr>))) [0..n - 1] cfg) (\<lambda>cfg.
        foldE connect [0..n - 1] cfg))"

definition checkTimeout :: "bool \<Rightarrow> int \<Rightarrow> ('o, 'b) config \<Rightarrow> unit go" where
  "checkTimeout failed now cfg = (if \<not> failed \<and> now - cfStart cfg > 120 * 10 ^ 9 then Inl TestFatal else Inr ())"

definition cleanup :: "bool \<Rightarrow> int \<Rightarrow> ('o, 'b) config \<Rightarrow> ('o, 'b) config go" where
  "cleanup failed now cfg =
     bindE (mapE (\<lambda>rf. case rf of None \<Rightarrow> Inr None | Some rf \<Rightarrow> bindE (Kill rf) (\<lambda>rf. Inr (Some rf))) (cfRafts cfg)) (\<lambda>rafts.
     bindE (Cleanup (cfNet cfg)) (\<lambda>rn.
     let cfg = cfg\<lparr>cfRafts := rafts, cfNet := rn\<rparr> in
     bindE (checkTimeout failed now cfg) (\<lambda>_. Inr cfg)))"

subsection \<open>The reader of a server's apply channel\<close>

text \<open>
  One message of server \<open>i\<close>. An error message ends the process, because \<open>log.Fatalf\<close> comes
  before the assignment to \<open>applyErr[i]\<close>.
\<close>

definition applied :: "int \<Rightarrow> command ApplyMsg \<Rightarrow> ('o, 'b) config \<Rightarrow> ('o, 'b) config go" where
  "applied i m cfg =
     (if \<not> CommandValid m then Inr cfg
      else case MsgCommand m of
        CmdOther _ \<Rightarrow> Inl LogFatal
      | CmdInt v \<Rightarrow>
          (let differs = (\<exists>lg\<in>set (cfLogs cfg). case lg (CommandIndex m) of None \<Rightarrow> False | Some old \<Rightarrow> old \<noteq> v) in
           bindE (go_nth (cfLogs cfg) i) (\<lambda>lg.
           let prevok = lg (CommandIndex m - 1) \<noteq> None in
           bindE (go_update (cfLogs cfg) i (lg(CommandIndex m \<mapsto> v))) (\<lambda>ls.
           let cfg = cfg\<lparr>cfLogs := ls, cfMaxIndex := max (cfMaxIndex cfg) (CommandIndex m)\<rparr> in
           if differs \<or> CommandIndex m > 1 \<and> \<not> prevok then Inl LogFatal else Inr cfg))))"

subsection \<open>Checks of the tests\<close>

text \<open>
  One iteration of \<open>checkOneLeader\<close>: \<open>obs i\<close> is what \<open>rafts[i].GetState()\<close> returns, and \<open>None\<close>
  stands for a nil server. The map \<open>leaders\<close> is an association list with one entry per term.
\<close>

fun addLeader :: "int \<Rightarrow> int \<Rightarrow> (int \<times> int list) list \<Rightarrow> (int \<times> int list) list" where
  "addLeader t i [] = [(t, [i])]"
| "addLeader t i ((u, is) # ls) = (if u = t then (u, is @ [i]) # ls else (u, is) # addLeader t i ls)"

definition leadersSeen :: "bool list \<Rightarrow> (int \<Rightarrow> (int \<times> bool) option) \<Rightarrow> int \<Rightarrow> (int \<times> int list) list go" where
  "leadersSeen con obs n = foldE (\<lambda>i leaders.
     bindE (go_nth con i) (\<lambda>c.
     if c then
       (case obs i of
          None \<Rightarrow> Inl NilPointer
        | Some (t, isLeader) \<Rightarrow> Inr (if isLeader then addLeader t i leaders else leaders))
     else Inr leaders)) [0..n - 1] []"

definition lastTermWithLeader :: "(int \<times> int list) list \<Rightarrow> int" where
  "lastTermWithLeader leaders = fold (\<lambda>(t, _) lst. if t > lst then t else lst) leaders (-1)"

definition oneLeaderTry :: "bool list \<Rightarrow> (int \<Rightarrow> (int \<times> bool) option) \<Rightarrow> int \<Rightarrow> int option go" where
  "oneLeaderTry con obs n =
     bindE (leadersSeen con obs n) (\<lambda>leaders.
     if \<exists>(t, is)\<in>set leaders. length is > 1 then Inl TestFatal
     else if leaders \<noteq> [] then
       (case map_of leaders (lastTermWithLeader leaders) of
          None \<Rightarrow> Inl IndexOutOfRange
        | Some is \<Rightarrow> bindE (go_nth is 0) (\<lambda>l. Inr (Some l)))
     else Inr None)"

text \<open>The ten iterations; each sees its own observations.\<close>

fun oneLeaderLoop :: "bool list \<Rightarrow> (int \<Rightarrow> (int \<times> bool) option) list \<Rightarrow> int \<Rightarrow> int go" where
  "oneLeaderLoop con [] n = Inl TestFatal"
| "oneLeaderLoop con (obs # rounds) n =
     bindE (oneLeaderTry con obs n) (\<lambda>r. case r of Some l \<Rightarrow> Inr l | None \<Rightarrow> oneLeaderLoop con rounds n)"

definition checkOneLeader :: "bool list \<Rightarrow> (nat \<Rightarrow> int \<Rightarrow> (int \<times> bool) option) \<Rightarrow> int \<Rightarrow> int go" where
  "checkOneLeader con obs n = oneLeaderLoop con (map obs [0..<10]) n"

definition observe :: "('o, 'b) config \<Rightarrow> int \<Rightarrow> (int \<times> bool) go" where
  "observe cfg i = bindE (go_nth (cfRafts cfg) i) (\<lambda>rf. case rf of None \<Rightarrow> Inl NilPointer | Some rf \<Rightarrow> Inr (GetState rf))"

definition checkTerms :: "('o, 'b) config \<Rightarrow> int go" where
  "checkTerms cfg = foldE (\<lambda>i trm.
     bindE (go_nth (cfConnected cfg) i) (\<lambda>c.
     if c then
       bindE (observe cfg i) (\<lambda>(xterm, _).
       if trm = -1 then Inr xterm else if trm \<noteq> xterm then Inl TestFatal else Inr trm)
     else Inr trm)) [0..cfN cfg - 1] (-1)"

definition checkNoLeader :: "('o, 'b) config \<Rightarrow> unit go" where
  "checkNoLeader cfg = foldE (\<lambda>i _.
     bindE (go_nth (cfConnected cfg) i) (\<lambda>c.
     if c then bindE (observe cfg i) (\<lambda>(_, isLeader). if isLeader then Inl TestFatal else Inr ()) else Inr ()))
     [0..cfN cfg - 1] ()"

definition nCommitted :: "int \<Rightarrow> ('o, 'b) config \<Rightarrow> (int \<times> int) go" where
  "nCommitted index cfg = foldE (\<lambda>i (cnt, cmd).
     bindE (go_nth (cfApplyErr cfg) i) (\<lambda>err.
     if err \<noteq> [] then Inl TestFatal
     else
       bindE (go_nth (cfLogs cfg) i) (\<lambda>lg.
       case lg index of
         None \<Rightarrow> Inr (cnt, cmd)
       | Some cmd1 \<Rightarrow> if cnt > 0 \<and> cmd \<noteq> cmd1 then Inl TestFatal else Inr (cnt + 1, cmd1))))
     [0..int (length (cfRafts cfg)) - 1] (0, -1)"

text \<open>
  \<open>wait\<close>: the loop sees the configurations \<open>seen\<close> at its thirty turns, two at each: when it
  counts and, after the sleep, when it reads the terms. \<open>fin\<close> is what the last count sees.
  The result \<open>None\<close> is the \<open>-1\<close> of a server that has moved on.
\<close>

definition movedOn :: "int \<Rightarrow> ('o, 'b) config \<Rightarrow> bool go" where
  "movedOn startTerm cfg =
     (if startTerm > -1 then
        foldE (\<lambda>rf moved. if moved then Inr True else (case rf of None \<Rightarrow> Inl NilPointer | Some rf \<Rightarrow> Inr (fst (GetState rf) > startTerm)))
          (cfRafts cfg) False
      else Inr False)"

fun waitLoop :: "int \<Rightarrow> int \<Rightarrow> int \<Rightarrow> (('o, 'b) config \<times> ('o, 'b) config) list \<Rightarrow> bool go" where
  "waitLoop index n startTerm [] = Inr True"
| "waitLoop index n startTerm ((cfg, later) # seen) =
     bindE (nCommitted index cfg) (\<lambda>(nd, _).
     if nd \<ge> n then Inr True
     else bindE (movedOn startTerm later) (\<lambda>moved. if moved then Inr False else waitLoop index n startTerm seen))"

definition wait :: "int \<Rightarrow> int \<Rightarrow> int \<Rightarrow> (nat \<Rightarrow> ('o, 'b) config \<times> ('o, 'b) config) \<Rightarrow> ('o, 'b) config \<Rightarrow> int option go" where
  "wait index n startTerm seen fin =
     bindE (waitLoop index n startTerm (map seen [0..<30])) (\<lambda>go_on.
     if go_on then bindE (nCommitted index fin) (\<lambda>(nd, cmd). if nd < n then Inl TestFatal else Inr (Some cmd))
     else Inr None)"

text \<open>
  \<open>one\<close>. A round tries every server once, from the one after the last tried; \<open>Start\<close> changes the
  server that accepts. Then it watches the configurations of the next two seconds.
\<close>

fun tryStarts :: "int \<Rightarrow> nat \<Rightarrow> int \<Rightarrow> ('o, 'b) config \<Rightarrow> (('o, 'b) config \<times> int \<times> int) go" where
  "tryStarts cmd 0 starts cfg = Inr (cfg, -1, starts)"
| "tryStarts cmd (Suc k) starts cfg =
     (let starts = (starts + 1) mod cfN cfg in
      bindE (go_nth (cfConnected cfg) starts) (\<lambda>c.
      bindE (if c then go_nth (cfRafts cfg) starts else Inr None) (\<lambda>rf.
      case rf of
        None \<Rightarrow> tryStarts cmd k starts cfg
      | Some rf \<Rightarrow>
          bindE (Start (CmdInt cmd) rf) (\<lambda>(rf, index1, _, ok).
          bindE (go_update (cfRafts cfg) starts (Some rf)) (\<lambda>rafts.
          let cfg = cfg\<lparr>cfRafts := rafts\<rparr> in
          if ok then Inr (cfg, index1, starts) else tryStarts cmd k starts cfg)))))"

fun watchCommit :: "int \<Rightarrow> int \<Rightarrow> int \<Rightarrow> ('o, 'b) config list \<Rightarrow> bool go" where
  "watchCommit index cmd expected [] = Inr False"
| "watchCommit index cmd expected (cfg # seen) =
     bindE (nCommitted index cfg) (\<lambda>(nd, cmd1).
     if nd > 0 \<and> nd \<ge> expected \<and> cmd1 = cmd then Inr True else watchCommit index cmd expected seen)"

fun one :: "int \<Rightarrow> int \<Rightarrow> bool \<Rightarrow> int \<Rightarrow> (('o, 'b) config \<times> ('o, 'b) config list) list \<Rightarrow> int go" where
  "one cmd expected retry starts [] = Inl TestFatal"
| "one cmd expected retry starts ((cfg, seen) # rounds) =
     bindE (tryStarts cmd (nat (cfN cfg)) starts cfg) (\<lambda>(cfg, index, starts).
     if index \<noteq> -1 then
       bindE (watchCommit index cmd expected seen) (\<lambda>found.
       if found then Inr index
       else if \<not> retry then Inl TestFatal
       else one cmd expected retry starts rounds)
     else one cmd expected retry starts rounds)"

definition begin_test :: "int \<Rightarrow> ('o, 'b) config \<Rightarrow> ('o, 'b) config" where
  "begin_test now cfg = cfg\<lparr>cfT0 := now, cfRpcs0 := rpcTotal cfg, cfCmds0 := 0, cfMaxIndex0 := cfMaxIndex cfg\<rparr>"

text \<open>The numbers that \<open>end\<close> prints: seconds, peers, calls and agreements.\<close>

definition end_test :: "bool \<Rightarrow> int \<Rightarrow> ('o, 'b) config \<Rightarrow> (int \<times> int \<times> int \<times> int) option go" where
  "end_test failed now cfg =
     bindE (checkTimeout failed now cfg) (\<lambda>_.
     Inr (if failed then None
          else Some (now - cfT0 cfg, cfN cfg, rpcTotal cfg - cfRpcs0 cfg, cfMaxIndex cfg - cfMaxIndex0 cfg)))"

subsection \<open>Loops over the ends of a server\<close>

lemma onNet_simps [simp]:
  "cfNet (onNet f cfg) = f (cfNet cfg)" "cfN (onNet f cfg) = cfN cfg" "cfConnected (onNet f cfg) = cfConnected cfg"
  "cfEndnames (onNet f cfg) = cfEndnames cfg" "cfRafts (onNet f cfg) = cfRafts cfg" "cfSaved (onNet f cfg) = cfSaved cfg"
  "cfLogs (onNet f cfg) = cfLogs cfg" "cfHeap (onNet f cfg) = cfHeap cfg" "cfApplyErr (onNet f cfg) = cfApplyErr cfg"
  "cfEndname (onNet f cfg) = cfEndname cfg"
  by (simp_all add: onNet_def cfEndname_def fun_eq_iff)

lemma onNet_onNet [simp]: "onNet g (onNet f cfg) = onNet (\<lambda>rn. g (f rn)) cfg"
  by (simp add: onNet_def)

lemma onNet_id [simp]: "onNet (\<lambda>rn. rn) cfg = cfg"
  by (simp add: onNet_def)

interpretation cfgNet: net_holder onNet
  by unfold_locales simp_all

definition row_ok :: "int \<Rightarrow> string list \<Rightarrow> bool" where
  "row_ok n row \<longleftrightarrow> row = [] \<or> length row = nat n"

text \<open>The shape of a configuration: one entry per server in every slice, and rows that are nil or complete.\<close>

definition shape_ok :: "('o, 'b) config \<Rightarrow> bool" where
  "shape_ok cfg \<longleftrightarrow> 0 \<le> cfN cfg \<and> length (cfConnected cfg) = nat (cfN cfg) \<and> length (cfEndnames cfg) = nat (cfN cfg) \<and>
     length (cfRafts cfg) = nat (cfN cfg) \<and> length (cfSaved cfg) = nat (cfN cfg) \<and> length (cfLogs cfg) = nat (cfN cfg) \<and>
     length (cfApplyErr cfg) = nat (cfN cfg) \<and>
     (\<forall>row\<in>set (cfEndnames cfg). row_ok (cfN cfg) row)"

definition endOf :: "('o, 'b) config \<Rightarrow> int \<Rightarrow> int \<Rightarrow> string" where
  "endOf cfg i j = cfEndnames cfg ! nat i ! nat j"

definition started :: "('o, 'b) config \<Rightarrow> int \<Rightarrow> bool" where
  "started cfg i \<longleftrightarrow> cfEndnames cfg ! nat i \<noteq> []"

definition isConnected :: "('o, 'b) config \<Rightarrow> int \<Rightarrow> bool" where
  "isConnected cfg i \<longleftrightarrow> cfConnected cfg ! nat i"

lemma shape_ok_row: "shape_ok cfg \<Longrightarrow> 0 \<le> i \<Longrightarrow> i < cfN cfg \<Longrightarrow> started cfg i \<Longrightarrow> length (cfEndnames cfg ! nat i) = nat (cfN cfg)"
proof -
  assume cfg: "shape_ok cfg" "0 \<le> i" "i < cfN cfg" "started cfg i"
  then have "cfEndnames cfg ! nat i \<in> set (cfEndnames cfg)" by (simp add: shape_ok_def)
  with cfg show ?thesis by (auto simp: shape_ok_def started_def row_ok_def)
qed

lemma cfEndname_started:
  "shape_ok cfg \<Longrightarrow> 0 \<le> i \<Longrightarrow> i < cfN cfg \<Longrightarrow> 0 \<le> j \<Longrightarrow> j < cfN cfg \<Longrightarrow> started cfg i \<Longrightarrow> cfEndname cfg i j = Inr (endOf cfg i j)"
  using shape_ok_row [of cfg i] by (simp add: cfEndname_def shape_ok_def endOf_def)

lemma connect_eq:
  assumes "shape_ok cfg" "0 \<le> i" "i < cfN cfg" "started cfg i"
    and "\<And>j. 0 \<le> j \<Longrightarrow> j < cfN cfg \<Longrightarrow> isConnected cfg j \<Longrightarrow> started cfg j"
  shows "connect i cfg = Inr (onNet (\<lambda>rn. net.switch
      (map (\<lambda>j. (endOf cfg j i, True)) (filter (\<lambda>j. j = i \<or> isConnected cfg j) [0..cfN cfg - 1]))
      (net.switch (map (\<lambda>j. (endOf cfg i j, True)) (filter (\<lambda>j. j = i \<or> isConnected cfg j) [0..cfN cfg - 1])) rn))
      (cfg\<lparr>cfConnected := (cfConnected cfg)[nat i := True]\<rparr>))"
proof -
  define c where "c = cfg\<lparr>cfConnected := (cfConnected cfg)[nat i := True]\<rparr>"
  let ?on = "filter (\<lambda>j. j = i \<or> isConnected cfg j) [0..cfN cfg - 1]"
  have len: "length (cfConnected cfg) = nat (cfN cfg)" "0 \<le> cfN cfg" using assms(1) by (simp_all add: shape_ok_def)
  have con: "go_nth (cfConnected c) j = Inr (j = i \<or> isConnected cfg j)" if "j \<in> set [0..cfN cfg - 1]" for j
    using that len assms(2,3) by (auto simp: c_def isConnected_def nth_list_update)
  have ends: "cfEndname c k j = Inr (endOf cfg k j)" if "k = i \<or> isConnected cfg k" "0 \<le> k" "k < cfN cfg" "0 \<le> j" "j < cfN cfg" for k j
    using cfEndname_started [OF assms(1), of k j] assms(4,5) that by (auto simp: c_def cfEndname_def)
  have out: "foldE (\<lambda>j cfg. bindE (go_nth (cfConnected cfg) j) (\<lambda>c.
       if c then bindE (cfEndname cfg i j) (\<lambda>e. Inr (onNet (Enable e True) cfg)) else Inr cfg)) [0..cfN cfg - 1] (onNet f c) =
     Inr (onNet (\<lambda>rn. net.switch (map (\<lambda>j. (endOf cfg i j, True)) ?on) (f rn)) c)" for f
    by (rule cfgNet.switch_loop) (use assms(2,3) con ends in \<open>auto simp del: onNet_onNet\<close>)
  have inc: "foldE (\<lambda>j cfg. bindE (go_nth (cfConnected cfg) j) (\<lambda>c.
       if c then bindE (cfEndname cfg j i) (\<lambda>e. Inr (onNet (Enable e True) cfg)) else Inr cfg)) [0..cfN cfg - 1] (onNet f c) =
     Inr (onNet (\<lambda>rn. net.switch (map (\<lambda>j. (endOf cfg j i, True)) ?on) (f rn)) c)" for f
    by (rule cfgNet.switch_loop) (use assms(2,3) con ends in \<open>auto simp del: onNet_onNet\<close>)
  have "cfN c = cfN cfg" by (simp add: c_def)
  moreover have "connect i cfg = bindE (foldE (\<lambda>j cfg. bindE (go_nth (cfConnected cfg) j) (\<lambda>c.
       if c then bindE (cfEndname cfg i j) (\<lambda>e. Inr (onNet (Enable e True) cfg)) else Inr cfg)) [0..cfN c - 1] c) (\<lambda>cfg.
     foldE (\<lambda>j cfg. bindE (go_nth (cfConnected cfg) j) (\<lambda>c.
       if c then bindE (cfEndname cfg j i) (\<lambda>e. Inr (onNet (Enable e True) cfg)) else Inr cfg)) [0..cfN cfg - 1] cfg)"
    using len assms(2,3) by (simp add: connect_def c_def)
  ultimately show ?thesis using out [of "\<lambda>rn. rn"] inc by (simp add: c_def)
qed

lemma disconnect_eq:
  assumes "shape_ok cfg" "0 \<le> i" "i < cfN cfg"
  shows "disconnect i cfg = Inr (onNet (\<lambda>rn. net.switch
      (map (\<lambda>j. (endOf cfg j i, False)) (filter (started cfg) [0..cfN cfg - 1]))
      (net.switch (map (\<lambda>j. (endOf cfg i j, False)) (filter (\<lambda>_. started cfg i) [0..cfN cfg - 1])) rn))
      (cfg\<lparr>cfConnected := (cfConnected cfg)[nat i := False]\<rparr>))"
proof -
  define c where "c = cfg\<lparr>cfConnected := (cfConnected cfg)[nat i := False]\<rparr>"
  have len: "length (cfConnected cfg) = nat (cfN cfg)" "0 \<le> cfN cfg" using assms(1) by (simp_all add: shape_ok_def)
  have row: "go_nth (cfEndnames c) k = Inr (cfEndnames cfg ! nat k)" if "0 \<le> k" "k < cfN cfg" for k
    using that assms(1) by (simp add: c_def shape_ok_def)
  have ends: "cfEndname c k j = Inr (endOf cfg k j)" if "started cfg k" "0 \<le> k" "k < cfN cfg" "0 \<le> j" "j < cfN cfg" for k j
    using cfEndname_started [OF assms(1), of k j] that by (auto simp: c_def cfEndname_def)
  have out: "foldE (\<lambda>j cfg. bindE (go_nth (cfEndnames cfg) i) (\<lambda>row.
       if row \<noteq> [] then bindE (cfEndname cfg i j) (\<lambda>e. Inr (onNet (Enable e False) cfg)) else Inr cfg)) [0..cfN cfg - 1] (onNet f c) =
     Inr (onNet (\<lambda>rn. net.switch (map (\<lambda>j. (endOf cfg i j, False)) (filter (\<lambda>_. started cfg i) [0..cfN cfg - 1])) (f rn)) c)" for f
    by (rule cfgNet.switch_loop) (use assms(2,3) row ends in \<open>auto simp: started_def simp del: onNet_onNet\<close>)
  have inc: "foldE (\<lambda>j cfg. bindE (go_nth (cfEndnames cfg) j) (\<lambda>row.
       if row \<noteq> [] then bindE (cfEndname cfg j i) (\<lambda>e. Inr (onNet (Enable e False) cfg)) else Inr cfg)) [0..cfN cfg - 1] (onNet f c) =
     Inr (onNet (\<lambda>rn. net.switch (map (\<lambda>j. (endOf cfg j i, False)) (filter (started cfg) [0..cfN cfg - 1])) (f rn)) c)" for f
    by (rule cfgNet.switch_loop) (use assms(2,3) row ends in \<open>auto simp: started_def simp del: onNet_onNet\<close>)
  have "cfN c = cfN cfg" by (simp add: c_def)
  moreover have "disconnect i cfg = bindE (foldE (\<lambda>j cfg. bindE (go_nth (cfEndnames cfg) i) (\<lambda>row.
       if row \<noteq> [] then bindE (cfEndname cfg i j) (\<lambda>e. Inr (onNet (Enable e False) cfg)) else Inr cfg)) [0..cfN c - 1] c) (\<lambda>cfg.
     foldE (\<lambda>j cfg. bindE (go_nth (cfEndnames cfg) j) (\<lambda>row.
       if row \<noteq> [] then bindE (cfEndname cfg j i) (\<lambda>e. Inr (onNet (Enable e False) cfg)) else Inr cfg)) [0..cfN cfg - 1] cfg)"
    using len assms(2,3) by (simp add: disconnect_def c_def)
  ultimately show ?thesis using out [of "\<lambda>rn. rn"] inc by (simp add: c_def)
qed

subsection \<open>The wiring of a configuration\<close>

definition slot :: "('o, 'b) config \<Rightarrow> int \<Rightarrow> bool" where
  "slot cfg i \<longleftrightarrow> 0 \<le> i \<and> i < cfN cfg"

definition linked :: "('o, 'b) config \<Rightarrow> string \<Rightarrow> bool" where
  "linked cfg e \<longleftrightarrow> (\<exists>i j. slot cfg i \<and> slot cfg j \<and> isConnected cfg i \<and> isConnected cfg j \<and> e = endOf cfg i j)"

text \<open>
  The ends of the current rows have distinct names, each is connected to the server of its
  column, and exactly the ends between two connected servers are enabled: every other end of
  the network, the ends of crashed servers among them, is off.
\<close>

definition wired :: "('o, 'b) config \<Rightarrow> bool" where
  "wired cfg \<longleftrightarrow> shape_ok cfg \<and>
     (\<forall>i j k l. slot cfg i \<and> slot cfg j \<and> slot cfg k \<and> slot cfg l \<and> started cfg i \<and> started cfg k \<and>
        endOf cfg i j = endOf cfg k l \<longrightarrow> i = k \<and> j = l) \<and>
     (\<forall>i j. slot cfg i \<and> slot cfg j \<and> started cfg i \<longrightarrow>
        ends (cfNet cfg) (endOf cfg i j) \<and> connections (cfNet cfg) (endOf cfg i j) = Some j) \<and>
     (\<forall>i. slot cfg i \<and> isConnected cfg i \<longrightarrow> started cfg i) \<and>
     (\<forall>e. enabled (cfNet cfg) e \<longleftrightarrow> linked cfg e)"

lemma wiredD:
  assumes "wired cfg"
  shows "shape_ok cfg"
    and "slot cfg i \<Longrightarrow> slot cfg j \<Longrightarrow> slot cfg k \<Longrightarrow> slot cfg l \<Longrightarrow> started cfg i \<Longrightarrow> started cfg k \<Longrightarrow>
      endOf cfg i j = endOf cfg k l \<Longrightarrow> i = k \<and> j = l"
    and "slot cfg i \<Longrightarrow> slot cfg j \<Longrightarrow> started cfg i \<Longrightarrow>
      ends (cfNet cfg) (endOf cfg i j) \<and> connections (cfNet cfg) (endOf cfg i j) = Some j"
    and "slot cfg i \<Longrightarrow> isConnected cfg i \<Longrightarrow> started cfg i"
    and "enabled (cfNet cfg) e \<longleftrightarrow> linked cfg e"
  using assms by (simp_all add: wired_def)

lemma wiredI:
  assumes "shape_ok cfg"
    and "\<And>i j k l. slot cfg i \<Longrightarrow> slot cfg j \<Longrightarrow> slot cfg k \<Longrightarrow> slot cfg l \<Longrightarrow> started cfg i \<Longrightarrow> started cfg k \<Longrightarrow>
      endOf cfg i j = endOf cfg k l \<Longrightarrow> i = k \<and> j = l"
    and "\<And>i j. slot cfg i \<Longrightarrow> slot cfg j \<Longrightarrow> started cfg i \<Longrightarrow>
      ends (cfNet cfg) (endOf cfg i j) \<and> connections (cfNet cfg) (endOf cfg i j) = Some j"
    and "\<And>i. slot cfg i \<Longrightarrow> isConnected cfg i \<Longrightarrow> started cfg i"
    and "\<And>e. enabled (cfNet cfg) e \<longleftrightarrow> linked cfg e"
  shows "wired cfg"
  using assms unfolding wired_def by blast

text \<open>Names and rows do not depend on who is connected, nor the other fields.\<close>

lemma wired_frame:
  assumes "cfN cfg' = cfN cfg" "cfEndnames cfg' = cfEndnames cfg"
  shows "slot cfg' = slot cfg" "endOf cfg' = endOf cfg" "started cfg' = started cfg"
  using assms by (simp_all add: fun_eq_iff slot_def endOf_def started_def)

lemma wired_reconnect:
  assumes "wired cfg" "cfN cfg' = cfN cfg" "cfEndnames cfg' = cfEndnames cfg" "shape_ok cfg'"
    and "wires (cfNet cfg') = wires (cfNet cfg)"
    and "\<And>i. slot cfg i \<Longrightarrow> isConnected cfg' i \<Longrightarrow> started cfg i"
    and "\<And>e. enabled (cfNet cfg') e \<longleftrightarrow> linked cfg' e"
  shows "wired cfg'"
  unfolding wired_def wired_frame [OF assms(2,3)] wires_eqD(2) [OF assms(5)] wires_eqD(4) [OF assms(5)]
  using assms(4,6,7) wiredD(2,3) [OF assms(1)] by blast

lemma isConnected_update:
  "shape_ok cfg \<Longrightarrow> slot cfg i \<Longrightarrow> slot cfg j \<Longrightarrow>
    isConnected (onNet f (cfg\<lparr>cfConnected := (cfConnected cfg)[nat i := b]\<rparr>)) j = (if j = i then b else isConnected cfg j)"
  by (auto simp: isConnected_def shape_ok_def slot_def nth_list_update)

lemma shape_ok_reconnect:
  "shape_ok cfg \<Longrightarrow> shape_ok (onNet f (cfg\<lparr>cfConnected := (cfConnected cfg)[nat i := b]\<rparr>))"
  by (simp add: shape_ok_def)

lemma connect_wired:
  assumes "wired cfg" "slot cfg i" "started cfg i"
  shows "\<exists>cfg'. connect i cfg = Inr cfg' \<and> wired cfg' \<and> wires (cfNet cfg') = wires (cfNet cfg) \<and>
    cfg' = cfg\<lparr>cfConnected := (cfConnected cfg)[nat i := True], cfNet := cfNet cfg'\<rparr>"
proof -
  let ?on = "filter (\<lambda>j. j = i \<or> isConnected cfg j) [0..cfN cfg - 1]"
  define f where "f = (\<lambda>rn :: (string, int) Network. net.switch (map (\<lambda>j. (endOf cfg j i, True)) ?on) (net.switch (map (\<lambda>j. (endOf cfg i j, True)) ?on) rn))"
  define cfg' where "cfg' = onNet f (cfg\<lparr>cfConnected := (cfConnected cfg)[nat i := True]\<rparr>)"
  have shape: "shape_ok cfg" using wiredD(1) [OF assms(1)] .
  have con: "connect i cfg = Inr cfg'"
    unfolding cfg'_def f_def using connect_eq [OF shape] assms wiredD(4) [OF assms(1)] by (auto simp: slot_def)
  have same: "cfN cfg' = cfN cfg" "cfEndnames cfg' = cfEndnames cfg" by (simp_all add: cfg'_def)
  note frame = wired_frame [OF same]
  have who: "isConnected cfg' j \<longleftrightarrow> j = i \<or> isConnected cfg j" if "slot cfg j" for j
    unfolding cfg'_def using isConnected_update [OF shape assms(2) that] by simp
  have set: "j \<in> set ?on \<longleftrightarrow> slot cfg j \<and> (j = i \<or> isConnected cfg j)" for j by (auto simp: slot_def)
  have en: "enabled (cfNet cfg') e \<longleftrightarrow> enabled (cfNet cfg) e \<or> e \<in> endOf cfg i ` set ?on \<or> e \<in> (\<lambda>j. endOf cfg j i) ` set ?on" for e
    by (auto simp: cfg'_def f_def enabled_switch)
  have "enabled (cfNet cfg') e \<longleftrightarrow> linked cfg' e" for e
    unfolding en wiredD(5) [OF assms(1)] linked_def frame image_iff Bex_def set using who assms(2) by blast
  moreover have "wires (cfNet cfg') = wires (cfNet cfg)" by (simp add: cfg'_def f_def)
  moreover have "shape_ok cfg'" unfolding cfg'_def by (rule shape_ok_reconnect [OF shape])
  moreover have "started cfg j" if "slot cfg j" "isConnected cfg' j" for j
    using who [OF that(1)] that wiredD(4) [OF assms(1)] assms(3) by auto
  ultimately have "wired cfg'" using wired_reconnect [OF assms(1) same] by blast
  with con show ?thesis by (auto simp: cfg'_def onNet_def f_def)
qed

lemma disconnect_wired:
  assumes "wired cfg" "slot cfg i"
  shows "\<exists>cfg'. disconnect i cfg = Inr cfg' \<and> wired cfg' \<and> wires (cfNet cfg') = wires (cfNet cfg) \<and>
    cfg' = cfg\<lparr>cfConnected := (cfConnected cfg)[nat i := False], cfNet := cfNet cfg'\<rparr>"
proof -
  define f where "f = (\<lambda>rn :: (string, int) Network. net.switch (map (\<lambda>j. (endOf cfg j i, False)) (filter (started cfg) [0..cfN cfg - 1]))
    (net.switch (map (\<lambda>j. (endOf cfg i j, False)) (filter (\<lambda>_. started cfg i) [0..cfN cfg - 1])) rn))"
  define cfg' where "cfg' = onNet f (cfg\<lparr>cfConnected := (cfConnected cfg)[nat i := False]\<rparr>)"
  have shape: "shape_ok cfg" using wiredD(1) [OF assms(1)] .
  have dis: "disconnect i cfg = Inr cfg'"
    unfolding cfg'_def f_def using disconnect_eq [OF shape] assms(2) by (auto simp: slot_def)
  have same: "cfN cfg' = cfN cfg" "cfEndnames cfg' = cfEndnames cfg" by (simp_all add: cfg'_def)
  note frame = wired_frame [OF same]
  have who: "isConnected cfg' j \<longleftrightarrow> j \<noteq> i \<and> isConnected cfg j" if "slot cfg j" for j
    unfolding cfg'_def using isConnected_update [OF shape assms(2) that] by simp
  have sets: "j \<in> set (filter (started cfg) [0..cfN cfg - 1]) \<longleftrightarrow> slot cfg j \<and> started cfg j"
    "j \<in> set (filter (\<lambda>_. started cfg i) [0..cfN cfg - 1]) \<longleftrightarrow> slot cfg j \<and> started cfg i" for j by (auto simp: slot_def)
  have en: "enabled (cfNet cfg') e \<longleftrightarrow> enabled (cfNet cfg) e \<and> e \<notin> endOf cfg i ` set (filter (\<lambda>_. started cfg i) [0..cfN cfg - 1]) \<and>
      e \<notin> (\<lambda>j. endOf cfg j i) ` set (filter (started cfg) [0..cfN cfg - 1])" for e
    by (auto simp: cfg'_def f_def enabled_switch)
  have "enabled (cfNet cfg') e \<longleftrightarrow> linked cfg' e" for e
    unfolding en wiredD(5) [OF assms(1)] linked_def frame image_iff Bex_def sets
    using who assms(2) wiredD(2,4) [OF assms(1)] by metis
  moreover have "wires (cfNet cfg') = wires (cfNet cfg)" by (simp add: cfg'_def f_def)
  moreover have "shape_ok cfg'" unfolding cfg'_def by (rule shape_ok_reconnect [OF shape])
  moreover have "started cfg j" if "slot cfg j" "isConnected cfg' j" for j
    using who [OF that(1)] that wiredD(4) [OF assms(1)] by auto
  ultimately have "wired cfg'" using wired_reconnect [OF assms(1) same] by blast
  with dis show ?thesis by (auto simp: cfg'_def onNet_def f_def)
qed

lemma wired_update:
  assumes "wired cfg" "shape_ok cfg'" "cfN cfg' = cfN cfg" "cfConnected cfg' = cfConnected cfg" "cfEndnames cfg' = cfEndnames cfg"
    and "ends (cfNet cfg') = ends (cfNet cfg)" "connections (cfNet cfg') = connections (cfNet cfg)" "enabled (cfNet cfg') = enabled (cfNet cfg)"
  shows "wired cfg'"
proof -
  have "isConnected cfg' = isConnected cfg" using assms(4) by (simp add: isConnected_def fun_eq_iff)
  then have "linked cfg' = linked cfg" by (simp add: linked_def fun_eq_iff wired_frame [OF assms(3,5)])
  note same = this \<open>isConnected cfg' = isConnected cfg\<close>
  show ?thesis
    unfolding wired_def wired_frame [OF assms(3,5)] assms(6-8) same
    using wiredD(2-5) [OF assms(1)] assms(2) by blast
qed

text \<open>A row of new names replaces the row of a server that is off the net.\<close>

lemma wired_new_row:
  assumes "wired cfg" "slot cfg i" "\<not> isConnected cfg i" "shape_ok cfg'"
    and "cfN cfg' = cfN cfg" "cfConnected cfg' = cfConnected cfg"
    and "cfEndnames cfg' = (cfEndnames cfg)[nat i := map name [0..cfN cfg - 1]]"
    and "inj_on name (set [0..cfN cfg - 1])" "\<And>j. j \<in> set [0..cfN cfg - 1] \<Longrightarrow> \<not> ends (cfNet cfg) (name j)"
    and "ends (cfNet cfg') = (\<lambda>e. ends (cfNet cfg) e \<or> e \<in> name ` set [0..cfN cfg - 1])"
    and "enabled (cfNet cfg') = (\<lambda>e. enabled (cfNet cfg) e \<and> e \<notin> name ` set [0..cfN cfg - 1])"
    and "\<forall>j\<in>set [0..cfN cfg - 1]. connections (cfNet cfg') (name j) = Some j"
    and "\<forall>e. e \<notin> name ` set [0..cfN cfg - 1] \<longrightarrow> connections (cfNet cfg') e = connections (cfNet cfg) e"
  shows "wired cfg' \<and> (\<forall>k. slot cfg k \<longrightarrow> started cfg' k = (k = i \<or> started cfg k)) \<and> (\<forall>j. slot cfg j \<longrightarrow> endOf cfg' i j = name j)"
proof -
  note W = wiredD [OF assms(1)]
  have len: "length (cfEndnames cfg) = nat (cfN cfg)" using W(1) by (simp add: shape_ok_def)
  have slots: "slot cfg' = slot cfg" using assms(5) by (simp add: slot_def fun_eq_iff)
  have mem: "j \<in> set [0..cfN cfg - 1] \<longleftrightarrow> slot cfg j" for j by (auto simp: slot_def)
  have row: "cfEndnames cfg' ! nat k = (if k = i then map name [0..cfN cfg - 1] else cfEndnames cfg ! nat k)" if "slot cfg k" for k
    using that assms(2,7) len by (auto simp: slot_def nth_list_update)
  have st: "started cfg' k \<longleftrightarrow> k = i \<or> started cfg k" if "slot cfg k" for k
    using row [OF that] assms(2) by (auto simp: started_def slot_def)
  have eo: "endOf cfg' k j = (if k = i then name j else endOf cfg k j)" if "slot cfg k" "slot cfg j" for k j
    using row [OF that(1)] that by (auto simp: endOf_def slot_def)
  have con: "isConnected cfg' = isConnected cfg" using assms(6) by (simp add: isConnected_def fun_eq_iff)
  have old: "endOf cfg k j \<notin> name ` set [0..cfN cfg - 1]" if "slot cfg k" "slot cfg j" "started cfg k" for k j
    using W(3) [OF that] assms(9) by auto
  have lk: "linked cfg' e \<longleftrightarrow> linked cfg e" for e
  proof
    assume "linked cfg' e"
    then obtain k j where kj: "slot cfg k" "slot cfg j" "isConnected cfg k" "isConnected cfg j" "e = endOf cfg' k j"
      unfolding linked_def slots con by blast
    with eo [of k j] assms(3) have "e = endOf cfg k j" by auto
    with kj show "linked cfg e" unfolding linked_def by blast
  next
    assume "linked cfg e"
    then obtain k j where kj: "slot cfg k" "slot cfg j" "isConnected cfg k" "isConnected cfg j" "e = endOf cfg k j"
      unfolding linked_def by blast
    with eo [of k j] assms(3) have "e = endOf cfg' k j" by auto
    with kj show "linked cfg' e" unfolding linked_def slots con by blast
  qed
  have lknew: "e \<notin> name ` set [0..cfN cfg - 1]" if "linked cfg e" for e
  proof -
    from that obtain k j where "slot cfg k" "slot cfg j" "isConnected cfg k" "e = endOf cfg k j" unfolding linked_def by blast
    with old [of k j] W(4) [of k] show ?thesis by simp
  qed
  have "i' = k \<and> j = l" if "slot cfg i'" "slot cfg j" "slot cfg k" "slot cfg l" "started cfg' i'" "started cfg' k" "endOf cfg' i' j = endOf cfg' k l" for i' j k l
  proof (rule new_row_distinct [where R = "Collect (slot cfg)" and E = "endOf cfg" and E' = "endOf cfg'" and made = "started cfg" and made' = "started cfg'" and i = i and name = name])
    have "Collect (slot cfg) = set [0..cfN cfg - 1]" using mem by blast
    then show "inj_on name (Collect (slot cfg))" using assms(8) by (simp only:)
    show "endOf cfg a b \<noteq> name c" if "a \<in> Collect (slot cfg)" "b \<in> Collect (slot cfg)" "c \<in> Collect (slot cfg)" "started cfg a" for a b c
      using old [of a b] mem [of c] that by (metis imageI mem_Collect_eq)
    show "a = c \<and> b = d" if "a \<in> Collect (slot cfg)" "b \<in> Collect (slot cfg)" "c \<in> Collect (slot cfg)" "d \<in> Collect (slot cfg)"
      "started cfg a" "started cfg c" "endOf cfg a b = endOf cfg c d" for a b c d
      by (rule W(2)) (use that in simp_all)
  qed (use that eo st in simp_all)
  moreover have "ends (cfNet cfg') (endOf cfg' k j) \<and> connections (cfNet cfg') (endOf cfg' k j) = Some j"
    if "slot cfg k" "slot cfg j" "started cfg' k" for k j
    using that st [of k] eo [of k j] W(3) [of k j] old [of k j] assms(10,12,13) mem by auto
  moreover have "started cfg' k" if "slot cfg k" "isConnected cfg' k" for k using that W(4) [of k] st con by auto
  moreover have "enabled (cfNet cfg') e \<longleftrightarrow> linked cfg' e" for e
    unfolding assms(11) lk using W(5) lknew by blast
  ultimately have "wired cfg'" unfolding wired_def slots using assms(4) by blast
  moreover have "endOf cfg' i j = name j" if "slot cfg j" for j using eo [OF assms(2) that] by simp
  ultimately show ?thesis using st by simp
qed

subsection \<open>Crash and restart keep the configuration in order\<close>

text \<open>What a persister may hold: nothing, or what a well-formed server persisted.\<close>

definition stored_ok :: "'c gobval list Persister \<Rightarrow> bool" where
  "stored_ok ps \<longleftrightarrow> ReadRaftState ps = None \<or> (\<exists>rf. node_ok rf \<and> ReadRaftState ps = Some (persisted_state rf))"

definition server_ok :: "('o, 'b) config \<Rightarrow> int \<Rightarrow> bool" where
  "server_ok cfg i \<longleftrightarrow> (servers (cfNet cfg) i = None \<longleftrightarrow> cfRafts cfg ! nat i = None) \<and>
     (case cfRafts cfg ! nat i of
        Some rf \<Rightarrow> \<not> shutDown rf \<and> cfSaved cfg ! nat i \<noteq> None \<and> stored_ok (persister rf)
      | None \<Rightarrow> (case cfSaved cfg ! nat i of None \<Rightarrow> True | Some ps \<Rightarrow> stored_ok ps))"

definition cfg_ok :: "('o, 'b) config \<Rightarrow> bool" where
  "cfg_ok cfg \<longleftrightarrow> wired cfg \<and> (\<forall>i. slot cfg i \<longrightarrow> server_ok cfg i)"

lemma read_raftStateOnly [simp]: "ReadRaftState (raftStateOnly ps) = ReadRaftState ps"
  by (simp add: raftStateOnly_def ReadRaftState_def MakePersister_def SaveRaftState_def split: option.splits)

lemma stored_ok_simps [simp]: "stored_ok (Copy ps) = stored_ok ps" "stored_ok (raftStateOnly ps) = stored_ok ps" "stored_ok MakePersister"
  by (simp_all add: stored_ok_def raft_store.load_dup) (simp add: MakePersister_def ReadRaftState_def)

lemma Make_stored:
  assumes "stored_ok ps" "0 \<le> i" "i < n"
  shows "\<exists>rf. Make zero n i ps = Inr rf"
proof (cases "ReadRaftState ps")
  case None
  then show ?thesis by (simp add: Make_def readPersist_def freshRaft_def Let_def)
next
  case (Some st)
  with assms(1) obtain rf where "node_ok rf" "ReadRaftState ps = Some (persisted_state rf)" by (auto simp: stored_ok_def)
  from Make_recovers [OF this(1) assms(2,3) this(2)] show ?thesis by blast
qed

definition savedOf :: "('o, 'b) config \<Rightarrow> int \<Rightarrow> command gobval list Persister option" where
  "savedOf cfg i = (case (cfSaved cfg ! nat i, cfRafts cfg ! nat i) of (Some _, Some rf) \<Rightarrow> Some (persister rf) | (ps, _) \<Rightarrow> ps)"

lemma savedNow_slot: "shape_ok cfg \<Longrightarrow> slot cfg i \<Longrightarrow> savedNow cfg i = Inr (savedOf cfg i)"
  by (simp add: savedNow_def savedOf_def shape_ok_def slot_def split: option.split)

lemma savedOf_stored: "server_ok cfg i \<Longrightarrow> savedOf cfg i = Some ps \<Longrightarrow> stored_ok ps"
  by (auto simp: server_ok_def savedOf_def split: option.splits)

lemma server_ok_cong:
  "servers (cfNet c') k = servers (cfNet c) k \<Longrightarrow> cfRafts c' ! nat k = cfRafts c ! nat k \<Longrightarrow>
    cfSaved c' ! nat k = cfSaved c ! nat k \<Longrightarrow> server_ok c' k = server_ok c k"
  by (simp add: server_ok_def cong: option.case_cong)

lemma crash1_ok:
  assumes "cfg_ok cfg" "slot cfg i"
  shows "\<exists>cfg'. crash1 i cfg = Inr cfg' \<and> cfg_ok cfg' \<and> \<not> isConnected cfg' i \<and> cfN cfg' = cfN cfg \<and>
    cfEndnames cfg' = cfEndnames cfg \<and> cfRafts cfg' = (cfRafts cfg)[nat i := None] \<and>
    cfSaved cfg' = (cfSaved cfg)[nat i := map_option raftStateOnly (map_option Copy (savedOf cfg i))] \<and>
    ends (cfNet cfg') = ends (cfNet cfg)"
proof -
  have W: "wired cfg" and srv: "\<And>k. slot cfg k \<Longrightarrow> server_ok cfg k" using assms(1) by (simp_all add: cfg_ok_def)
  from disconnect_wired [OF W assms(2)] obtain c where dis: "disconnect i cfg = Inr c" and wc: "wired c"
    and rn: "wires (cfNet c) = wires (cfNet cfg)" and c: "c = cfg\<lparr>cfConnected := (cfConnected cfg)[nat i := False], cfNet := cfNet c\<rparr>" by blast
  have shape: "shape_ok c" using wiredD(1) [OF wc] .
  have fields: "cfN c = cfN cfg" "cfEndnames c = cfEndnames cfg" "cfRafts c = cfRafts cfg" "cfSaved c = cfSaved cfg"
    "cfConnected c = (cfConnected cfg)[nat i := False]" by (subst c, simp)+
  have i: "0 \<le> i" "i < cfN cfg" using assms(2) by (simp_all add: slot_def)
  have lens: "length (cfRafts cfg) = nat (cfN cfg)" "length (cfSaved cfg) = nat (cfN cfg)" "length (cfConnected cfg) = nat (cfN cfg)"
    using wiredD(1) [OF W] by (simp_all add: shape_ok_def)
  let ?saved = "(cfSaved cfg)[nat i := map_option raftStateOnly (map_option Copy (savedOf cfg i))]"
  define c' where "c' = (onNet (DeleteServer i) c)\<lparr>cfRafts := (cfRafts cfg)[nat i := None], cfSaved := ?saved\<rparr>"
  have now: "savedNow (onNet (DeleteServer i) c) i = Inr (savedOf cfg i)"
    using i lens fields by (simp add: savedNow_def savedOf_def split: option.split)
  have kill: "(case cfRafts cfg ! nat i of None \<Rightarrow> Inr (cfRafts cfg) | Some rf \<Rightarrow> bindE (Kill rf) (\<lambda>_. go_update (cfRafts cfg) i None)) =
      Inr ((cfRafts cfg)[nat i := None])"
  proof (cases "cfRafts cfg ! nat i")
    case None
    with list_update_id [of "cfRafts cfg" "nat i"] show ?thesis by simp
  next
    case (Some rf)
    with srv [OF assms(2)] i lens show ?thesis by (simp add: server_ok_def Kill_def)
  qed
  have crash: "crash1 i cfg = Inr c'"
    using dis now kill i lens fields by (simp add: crash1_def Let_def c'_def cong: option.case_cong)
  have "wired c'"
    by (rule wired_update [OF wc]) (use shape in \<open>simp_all add: c'_def DeleteServer_def shape_ok_def fields\<close>)
  moreover have "server_ok c' k" if "slot cfg k" for k
  proof (cases "k = i")
    case True
    have "stored_ok ps" if "savedOf cfg i = Some ps" for ps using savedOf_stored [OF srv [OF assms(2)] that] .
    with True i lens show ?thesis
      by (cases "savedOf cfg i") (simp_all add: server_ok_def c'_def DeleteServer_def)
  next
    case False
    then have "nat k \<noteq> nat i" using that i by (auto simp: slot_def)
    then have "server_ok c' k = server_ok cfg k"
      by (intro server_ok_cong) (use False wires_eqD(3) [OF rn] in \<open>simp_all add: c'_def DeleteServer_def fields\<close>)
    with srv [OF that] show ?thesis by simp
  qed
  moreover have "\<not> isConnected c' i" using i lens by (simp add: isConnected_def c'_def fields)
  moreover have "cfN c' = cfN cfg" "cfEndnames c' = cfEndnames cfg" "cfRafts c' = (cfRafts cfg)[nat i := None]" "cfSaved c' = ?saved"
    by (simp_all add: c'_def fields)
  moreover have "ends (cfNet c') = ends (cfNet cfg)" using wires_eqD(2) [OF rn] by (simp add: c'_def DeleteServer_def)
  moreover have "slot c' = slot cfg" by (simp add: slot_def fun_eq_iff c'_def fields)
  ultimately show ?thesis using crash unfolding cfg_ok_def by metis
qed

lemma start1_ok:
  assumes "cfg_ok cfg" "slot cfg i" "inj_on name (set [0..cfN cfg - 1])" "\<And>j. j \<in> set [0..cfN cfg - 1] \<Longrightarrow> \<not> ends (cfNet cfg) (name j)"
  shows "\<exists>cfg' rf ps. start1 name ms i cfg = Inr cfg' \<and> cfg_ok cfg' \<and> cfN cfg' = cfN cfg \<and> \<not> isConnected cfg' i \<and>
    (\<forall>k. slot cfg k \<longrightarrow> started cfg' k = (k = i \<or> started cfg k)) \<and>
    ends (cfNet cfg') = (\<lambda>e. ends (cfNet cfg) e \<or> e \<in> name ` set [0..cfN cfg - 1]) \<and>
    ReadRaftState ps = Option.bind (savedOf cfg i) ReadRaftState \<and> Make (CmdInt 0) (cfN cfg) i ps = Inr rf \<and>
    cfRafts cfg' = (cfRafts cfg)[nat i := Some rf]"
proof -
  from crash1_ok [OF assms(1,2)] obtain c where crash: "crash1 i cfg = Inr c" and ok: "cfg_ok c" and off: "\<not> isConnected c i"
    and c: "cfN c = cfN cfg" "cfEndnames c = cfEndnames cfg" "cfRafts c = (cfRafts cfg)[nat i := None]"
      "cfSaved c = (cfSaved cfg)[nat i := map_option raftStateOnly (map_option Copy (savedOf cfg i))]"
      "ends (cfNet c) = ends (cfNet cfg)" by blast
  have W: "wired c" and srv: "\<And>k. slot cfg k \<Longrightarrow> server_ok c k" using ok c(1) by (simp_all add: cfg_ok_def slot_def)
  have shape: "shape_ok c" using wiredD(1) [OF W] .
  have i: "0 \<le> i" "i < cfN cfg" "slot c i" using assms(2) c(1) by (simp_all add: slot_def)
  have lens: "length (cfRafts cfg) = nat (cfN cfg)" "length (cfSaved cfg) = nat (cfN cfg)" "length (cfEndnames cfg) = nat (cfN cfg)"
    using assms(1) by (simp_all add: cfg_ok_def wired_def shape_ok_def)
  let ?row = "map name [0..cfN cfg - 1]"
  have "distinct [0..cfN cfg - 1]" by simp
  from makeEnds_fresh [OF assms(3), of "cfNet c" "\<lambda>j. j"] assms(4) c(5) this obtain rn where
    rn: "makeEnds name (\<lambda>j. j) [0..cfN cfg - 1] (cfNet c) = Inr rn"
    "ends rn = (\<lambda>e. ends (cfNet c) e \<or> e \<in> name ` set [0..cfN cfg - 1])"
    "enabled rn = (\<lambda>e. enabled (cfNet c) e \<and> e \<notin> name ` set [0..cfN cfg - 1])"
    "\<forall>j\<in>set [0..cfN cfg - 1]. connections rn (name j) = Some j"
    "\<forall>e. e \<notin> name ` set [0..cfN cfg - 1] \<longrightarrow> connections rn e = connections (cfNet c) e" "servers rn = servers (cfNet c)" by auto
  define ps where "ps = (case map_option raftStateOnly (map_option Copy (savedOf cfg i)) of Some ps \<Rightarrow> Copy ps | None \<Rightarrow> MakePersister)"
  have saved: "savedNow (c\<lparr>cfEndnames := (cfEndnames cfg)[nat i := ?row]\<rparr>) i = Inr (map_option raftStateOnly (map_option Copy (savedOf cfg i)))"
    using i lens c by (simp add: savedNow_def split: option.split)
  have read: "ReadRaftState ps = Option.bind (savedOf cfg i) ReadRaftState"
    by (cases "savedOf cfg i") (simp_all add: ps_def raft_store.load_dup, simp add: ReadRaftState_def MakePersister_def)
  have "stored_ok ps" using savedOf_stored [of cfg i] assms(1,2)
    by (cases "savedOf cfg i") (simp_all add: ps_def cfg_ok_def)
  from Make_stored [OF this i(1,2), of "CmdInt 0"] obtain rf where rf: "Make (CmdInt 0) (cfN cfg) i ps = Inr rf" by blast
  note kept = Make_keeps [OF rf]
  define c' where "c' = c\<lparr>cfEndnames := (cfEndnames cfg)[nat i := ?row], cfSaved := (cfSaved c)[nat i := Some ps], cfRafts := (cfRafts cfg)[nat i := Some rf],
    cfNet := AddServer i (length (cfHeap c)) rn, cfHeap := cfHeap c @ [AddService (MakeService ''Raft'' ms) MakeServer]\<rparr>"
  have start: "start1 name ms i cfg = Inr c'"
    using crash saved rn(1) rf i lens c by (simp add: start1_def Let_def ps_def c'_def)
  have sh': "shape_ok c'"
    using shape c by (auto simp: shape_ok_def c'_def row_ok_def dest!: set_update_subset_insert [THEN subsetD])
  have row': "wired c' \<and> (\<forall>k. slot c k \<longrightarrow> started c' k = (k = i \<or> started c k)) \<and> (\<forall>j. slot c j \<longrightarrow> endOf c' i j = name j)"
    by (rule wired_new_row [OF W i(3) off sh'])
      (use assms(3,4) c rn(2-5) in \<open>simp_all add: c'_def AddServer_def\<close>)
  have "server_ok c' k" if "slot cfg k" for k
  proof (cases "k = i")
    case True
    with i lens c kept \<open>stored_ok ps\<close> show ?thesis by (simp add: server_ok_def c'_def AddServer_def)
  next
    case False
    then have "nat k \<noteq> nat i" using that i by (auto simp: slot_def)
    then have "server_ok c' k = server_ok c k"
      by (intro server_ok_cong) (use False rn(6) c in \<open>simp_all add: c'_def AddServer_def\<close>)
    with srv [OF that] show ?thesis by simp
  qed
  then have "cfg_ok c'" using row' by (simp add: cfg_ok_def slot_def c'_def c)
  moreover have "\<not> isConnected c' i" using off by (simp add: isConnected_def c'_def)
  moreover have "\<forall>k. slot cfg k \<longrightarrow> started c' k = (k = i \<or> started cfg k)" using row' c by (simp add: slot_def started_def)
  moreover have "ends (cfNet c') = (\<lambda>e. ends (cfNet cfg) e \<or> e \<in> name ` set [0..cfN cfg - 1])"
    using rn(2) c(5) by (simp add: c'_def AddServer_def)
  moreover have "cfN c' = cfN cfg" "cfRafts c' = (cfRafts cfg)[nat i := Some rf]" by (simp_all add: c'_def c)
  ultimately show ?thesis using start read rf by blast
qed

end
