(* ===== verification/Raft_Tests.thy ===== *)
theory Raft_Tests
  imports Raft_Config
begin

section \<open>What the test configuration of Raft guarantees\<close>

text \<open>
  The properties of \<open>raft/config.go\<close>. The operations of the tester and the life of the servers
  between them are the steps of \<open>tester_step\<close>; \<open>cfg_ok\<close> with all rows present is its invariant.
\<close>

subsection \<open>Steps of the tester and of the servers\<close>

inductive tester_step :: "('o, 'b) config \<Rightarrow> ('o, 'b) config \<Rightarrow> bool" where
  step_connect: "connect i cfg = Inr cfg' \<Longrightarrow> tester_step cfg cfg'"
| step_disconnect: "disconnect i cfg = Inr cfg' \<Longrightarrow> tester_step cfg cfg'"
| step_crash: "crash1 i cfg = Inr cfg' \<Longrightarrow> tester_step cfg cfg'"
| step_start: "start1 randname ms i cfg = Inr cfg' \<Longrightarrow> tester_step cfg cfg'"
| step_unreliable: "tester_step cfg (setunreliable unrel cfg)"
| step_reordering: "tester_step cfg (setlongreordering longrel cfg)"
| step_begin: "tester_step cfg (begin_test now cfg)"
| step_applied: "applied i m cfg = Inr cfg' \<Longrightarrow> tester_step cfg cfg'"
| step_server: "slot cfg i \<Longrightarrow> cfRafts cfg ! nat i = Some rf \<Longrightarrow> shutDown rf' = shutDown rf \<Longrightarrow> stored_ok (persister rf') \<Longrightarrow>
    tester_step cfg (cfg\<lparr>cfRafts := (cfRafts cfg)[nat i := Some rf']\<rparr>)"
| step_send: "tester_step cfg (onNet (\<lambda>rn. rn\<lparr>netCount := netCount rn + 1\<rparr>) cfg)"

definition running_ok :: "('o, 'b) config \<Rightarrow> bool" where
  "running_ok cfg \<longleftrightarrow> cfg_ok cfg \<and> (\<forall>i. slot cfg i \<longrightarrow> started cfg i)"

text \<open>The operations fail outside of the slices.\<close>

lemma connect_slot: "connect i cfg = Inr cfg' \<Longrightarrow> shape_ok cfg \<Longrightarrow> slot cfg i"
  by (auto simp: connect_def bindE_eq_Inr_iff go_update_eq_Inr_iff shape_ok_def slot_def)

lemma disconnect_slot: "disconnect i cfg = Inr cfg' \<Longrightarrow> shape_ok cfg \<Longrightarrow> slot cfg i"
  by (auto simp: disconnect_def bindE_eq_Inr_iff go_update_eq_Inr_iff shape_ok_def slot_def)

lemma crash1_slot: "crash1 i cfg = Inr cfg' \<Longrightarrow> shape_ok cfg \<Longrightarrow> slot cfg i"
  using disconnect_slot by (auto simp: crash1_def bindE_eq_Inr_iff)

lemma cfg_ok_shape: "cfg_ok cfg \<Longrightarrow> shape_ok cfg"
  by (simp add: cfg_ok_def wired_def)

lemma start1_fresh:
  assumes "start1 name ms i cfg = Inr cfg'" "cfg_ok cfg"
  shows "slot cfg i \<and> inj_on name (set [0..cfN cfg - 1]) \<and> (\<forall>j\<in>set [0..cfN cfg - 1]. \<not> ends (cfNet cfg) (name j))"
proof -
  from assms(1) obtain c rn where c: "crash1 i cfg = Inr c" "makeEnds name (\<lambda>j. j) [0..cfN c - 1] (cfNet c) = Inr rn"
    by (auto simp: start1_def bindE_eq_Inr_iff Let_def)
  note slot = crash1_slot [OF c(1) cfg_ok_shape [OF assms(2)]]
  from crash1_ok [OF assms(2) slot] c(1) have "cfN c = cfN cfg" "ends (cfNet c) = ends (cfNet cfg)" by auto
  with makeEnds_Inr [OF c(2)] slot show ?thesis by simp
qed

lemma start1_keeps:
  assumes "start1 name ms i cfg = Inr cfg'" "cfg_ok cfg"
  shows "slot cfg i \<and> cfg_ok cfg' \<and> cfN cfg' = cfN cfg \<and> (\<forall>k. slot cfg k \<longrightarrow> started cfg' k = (k = i \<or> started cfg k))"
proof -
  from start1_fresh [OF assms] have "slot cfg i" "inj_on name (set [0..cfN cfg - 1])"
    "\<And>j. j \<in> set [0..cfN cfg - 1] \<Longrightarrow> \<not> ends (cfNet cfg) (name j)" by blast+
  from start1_ok [OF assms(2) this, of ms] assms(1) \<open>slot cfg i\<close> show ?thesis by auto
qed

lemma cfg_ok_cong:
  assumes "cfg_ok cfg" "shape_ok cfg'" "cfN cfg' = cfN cfg" "cfConnected cfg' = cfConnected cfg" "cfEndnames cfg' = cfEndnames cfg"
    and "ends (cfNet cfg') = ends (cfNet cfg)" "connections (cfNet cfg') = connections (cfNet cfg)" "enabled (cfNet cfg') = enabled (cfNet cfg)"
    and "\<And>i. slot cfg i \<Longrightarrow> server_ok cfg' i"
  shows "cfg_ok cfg'"
proof -
  have "wired cfg'" using assms(1) by (intro wired_update [OF _ assms(2-8)]) (simp add: cfg_ok_def)
  with assms(3,9) show ?thesis by (simp add: cfg_ok_def slot_def)
qed

lemma connect_keeps:
  assumes "connect i cfg = Inr cfg'" "cfg_ok cfg" "started cfg i"
  shows "cfg_ok cfg' \<and> cfN cfg' = cfN cfg \<and> started cfg' = started cfg"
proof -
  have W: "wired cfg" using assms(2) by (simp add: cfg_ok_def)
  from connect_wired [OF W connect_slot [OF assms(1) wiredD(1) [OF W]] assms(3)] assms(1)
  have c: "wired cfg'" "wires (cfNet cfg') = wires (cfNet cfg)"
    "cfg' = cfg\<lparr>cfConnected := (cfConnected cfg)[nat i := True], cfNet := cfNet cfg'\<rparr>" by auto
  have fields: "cfN cfg' = cfN cfg" "cfEndnames cfg' = cfEndnames cfg" "cfRafts cfg' = cfRafts cfg" "cfSaved cfg' = cfSaved cfg"
    by (subst c(3), simp)+
  have "server_ok cfg' k = server_ok cfg k" for k
    by (rule server_ok_cong) (simp_all add: fields wires_eqD(3) [OF c(2)])
  with assms(2) c(1) fields wired_frame [of cfg' cfg] show ?thesis by (simp add: cfg_ok_def)
qed

lemma disconnect_keeps:
  assumes "disconnect i cfg = Inr cfg'" "cfg_ok cfg"
  shows "cfg_ok cfg' \<and> cfN cfg' = cfN cfg \<and> started cfg' = started cfg"
proof -
  have W: "wired cfg" using assms(2) by (simp add: cfg_ok_def)
  from disconnect_wired [OF W disconnect_slot [OF assms(1) wiredD(1) [OF W]]] assms(1)
  have c: "wired cfg'" "wires (cfNet cfg') = wires (cfNet cfg)"
    "cfg' = cfg\<lparr>cfConnected := (cfConnected cfg)[nat i := False], cfNet := cfNet cfg'\<rparr>" by auto
  have fields: "cfN cfg' = cfN cfg" "cfEndnames cfg' = cfEndnames cfg" "cfRafts cfg' = cfRafts cfg" "cfSaved cfg' = cfSaved cfg"
    by (subst c(3), simp)+
  have "server_ok cfg' k = server_ok cfg k" for k
    by (rule server_ok_cong) (simp_all add: fields wires_eqD(3) [OF c(2)])
  with assms(2) c(1) fields wired_frame [of cfg' cfg] show ?thesis by (simp add: cfg_ok_def)
qed

lemma crash1_keeps:
  assumes "crash1 i cfg = Inr cfg'" "cfg_ok cfg"
  shows "cfg_ok cfg' \<and> cfN cfg' = cfN cfg \<and> started cfg' = started cfg"
proof -
  from crash1_ok [OF assms(2) crash1_slot [OF assms(1) cfg_ok_shape [OF assms(2)]]] assms(1)
  have "cfg_ok cfg'" "cfN cfg' = cfN cfg" "cfEndnames cfg' = cfEndnames cfg" by auto
  then show ?thesis by (simp add: started_def fun_eq_iff)
qed

lemma applied_frame:
  "applied i m cfg = Inr cfg' \<Longrightarrow> cfg' = cfg\<lparr>cfLogs := cfLogs cfg', cfMaxIndex := cfMaxIndex cfg'\<rparr> \<and> length (cfLogs cfg') = length (cfLogs cfg)"
  by (auto simp: applied_def Let_def bindE_eq_Inr_iff go_update_eq_Inr_iff split: if_splits command.splits)

lemma applied_keeps:
  assumes "applied i m cfg = Inr cfg'" "cfg_ok cfg"
  shows "cfg_ok cfg' \<and> cfN cfg' = cfN cfg \<and> started cfg' = started cfg"
proof -
  note frame = applied_frame [OF assms(1)]
  have fields: "cfN cfg' = cfN cfg" "cfEndnames cfg' = cfEndnames cfg" "cfRafts cfg' = cfRafts cfg" "cfSaved cfg' = cfSaved cfg"
    "cfNet cfg' = cfNet cfg" "cfConnected cfg' = cfConnected cfg" "cfApplyErr cfg' = cfApplyErr cfg"
    by (subst frame [THEN conjunct1], simp)+
  have "server_ok cfg' k = server_ok cfg k" for k by (rule server_ok_cong) (simp_all add: fields)
  moreover have "shape_ok cfg'" using cfg_ok_shape [OF assms(2)] frame by (simp add: shape_ok_def fields)
  ultimately have "cfg_ok cfg'" using assms(2) by (intro cfg_ok_cong [OF assms(2)]) (simp_all add: fields cfg_ok_def)
  with fields wired_frame [of cfg' cfg] show ?thesis by simp
qed

lemma server_step_keeps:
  assumes "cfg_ok cfg" "slot cfg i" "cfRafts cfg ! nat i = Some rf" "shutDown rf' = shutDown rf" "stored_ok (persister rf')"
  shows "cfg_ok (cfg\<lparr>cfRafts := (cfRafts cfg)[nat i := Some rf']\<rparr>)"
proof (rule cfg_ok_cong [OF assms(1)])
  fix k assume k: "slot cfg k"
  have srv: "server_ok cfg k" using assms(1) k by (simp add: cfg_ok_def)
  have len: "length (cfRafts cfg) = nat (cfN cfg)" using cfg_ok_shape [OF assms(1)] by (simp add: shape_ok_def)
  show "server_ok (cfg\<lparr>cfRafts := (cfRafts cfg)[nat i := Some rf']\<rparr>) k"
  proof (cases "k = i")
    case True
    with srv assms(2-5) len show ?thesis by (simp add: server_ok_def slot_def)
  next
    case False
    then have "nat k \<noteq> nat i" using k assms(2) by (auto simp: slot_def)
    then have "server_ok (cfg\<lparr>cfRafts := (cfRafts cfg)[nat i := Some rf']\<rparr>) k = server_ok cfg k" by (intro server_ok_cong) simp_all
    with srv show ?thesis by simp
  qed
qed (use cfg_ok_shape [OF assms(1)] in \<open>simp_all add: shape_ok_def\<close>)

lemma net_step_keeps:
  assumes "running_ok cfg" "shape_ok cfg'" "cfN cfg' = cfN cfg" "cfConnected cfg' = cfConnected cfg" "cfEndnames cfg' = cfEndnames cfg"
    "cfRafts cfg' = cfRafts cfg" "cfSaved cfg' = cfSaved cfg"
    and "ends (cfNet cfg') = ends (cfNet cfg)" "connections (cfNet cfg') = connections (cfNet cfg)" "enabled (cfNet cfg') = enabled (cfNet cfg)"
      "servers (cfNet cfg') = servers (cfNet cfg)"
  shows "running_ok cfg'"
proof -
  have "server_ok cfg' k = server_ok cfg k" for k by (rule server_ok_cong) (simp_all add: assms(6,7,11))
  then have "cfg_ok cfg'" using assms(1) by (intro cfg_ok_cong [OF _ assms(2-5,8-10)]) (simp_all add: running_ok_def cfg_ok_def)
  with assms(1) wired_frame [OF assms(3,5)] show ?thesis by (simp add: running_ok_def)
qed

lemmas quiet_steps = shape_ok_def setunreliable_def setlongreordering_def begin_test_def Reliable_def LongReordering_def

lemma running_ok_step:
  assumes "running_ok cfg" "tester_step cfg cfg'"
  shows "running_ok cfg' \<and> cfN cfg' = cfN cfg"
proof -
  have ok: "cfg_ok cfg" and all: "\<And>i. slot cfg i \<Longrightarrow> started cfg i" using assms(1) by (simp_all add: running_ok_def)
  note shape = cfg_ok_shape [OF ok]
  have slots: "slot c = slot cfg" if "cfN c = cfN cfg" for c :: "('a, 'b) config" using that by (simp add: slot_def fun_eq_iff)
  from assms(2) show ?thesis
  proof cases
    case (step_connect i)
    from connect_keeps [OF this ok all [OF connect_slot [OF this shape]]] all slots [of cfg'] show ?thesis by (simp add: running_ok_def)
  next
    case (step_disconnect i)
    from disconnect_keeps [OF this ok] all slots [of cfg'] show ?thesis by (simp add: running_ok_def)
  next
    case (step_crash i)
    from crash1_keeps [OF this ok] all slots [of cfg'] show ?thesis by (simp add: running_ok_def)
  next
    case (step_start name ms i)
    from start1_keeps [OF this ok] all slots [of cfg'] show ?thesis by (simp add: running_ok_def)
  next
    case (step_applied i m)
    from applied_keeps [OF this ok] all slots [of cfg'] show ?thesis by (simp add: running_ok_def)
  next
    case (step_server i rf rf')
    from server_step_keeps [OF ok step_server(2-5)] all slots [of cfg'] step_server(1) show ?thesis
      by (simp add: running_ok_def started_def)
  next
    case (step_unreliable unrel)
    then have "running_ok cfg'" by (intro net_step_keeps [OF assms(1)]) (use shape in \<open>simp_all add: quiet_steps\<close>)
    with step_unreliable show ?thesis by (simp add: quiet_steps)
  next
    case (step_reordering longrel)
    then have "running_ok cfg'" by (intro net_step_keeps [OF assms(1)]) (use shape in \<open>simp_all add: quiet_steps\<close>)
    with step_reordering show ?thesis by (simp add: quiet_steps)
  next
    case (step_begin now)
    then have "running_ok cfg'" by (intro net_step_keeps [OF assms(1)]) (use shape in \<open>simp_all add: quiet_steps\<close>)
    with step_begin show ?thesis by (simp add: quiet_steps)
  next
    case step_send
    then have "running_ok cfg'" by (intro net_step_keeps [OF assms(1)]) (use shape in \<open>simp_all add: quiet_steps\<close>)
    with step_send show ?thesis by (simp add: quiet_steps)
  qed
qed

subsection \<open>The configuration that \<open>make_config\<close> builds\<close>

definition emptyConfig :: "int \<Rightarrow> int \<Rightarrow> bool \<Rightarrow> ('o, 'b) config" where
  "emptyConfig now n unreliable = onNet (LongDelays True) (setunreliable unreliable
     \<lparr>cfNet = MakeNetwork, cfHeap = [], cfN = n, cfRafts = replicate (nat n) None,
      cfApplyErr = replicate (nat n) [], cfConnected = replicate (nat n) False,
      cfSaved = replicate (nat n) None, cfEndnames = replicate (nat n) [], cfLogs = replicate (nat n) (\<lambda>_. None),
      cfStart = now, cfT0 = 0, cfRpcs0 = 0, cfCmds0 = 0, cfMaxIndex = 0, cfMaxIndex0 = 0\<rparr>)"

lemma make_config_eq:
  "0 \<le> n \<Longrightarrow> make_config now randname ms n unreliable =
    bindE (foldE (\<lambda>i cfg. bindE (go_update (cfLogs cfg) i (\<lambda>_. None)) (\<lambda>ls. start1 (randname i) (ms i) i (cfg\<lparr>cfLogs := ls\<rparr>)))
      [0..n - 1] (emptyConfig now n unreliable)) (\<lambda>cfg. foldE connect [0..n - 1] cfg)"
  by (simp add: make_config_def emptyConfig_def Let_def)

lemma emptyConfig_ok: "0 \<le> n \<Longrightarrow> cfg_ok (emptyConfig now n unreliable :: ('o, 'b) config)"
proof -
  assume n: "0 \<le> n"
  let ?c = "emptyConfig now n unreliable :: ('o, 'b) config"
  have fields: "cfN ?c = n" "cfRafts ?c = replicate (nat n) None" "cfConnected ?c = replicate (nat n) False"
    "cfSaved ?c = replicate (nat n) None" "cfEndnames ?c = replicate (nat n) []" "cfLogs ?c = replicate (nat n) (\<lambda>_. None)"
    "cfApplyErr ?c = replicate (nat n) []" "enabled (cfNet ?c) = (\<lambda>_. False)" "servers (cfNet ?c) = (\<lambda>_. None)"
    by (simp_all add: emptyConfig_def setunreliable_def MakeNetwork_def Reliable_def LongDelays_def)
  have off: "\<not> isConnected ?c i" "\<not> started ?c i" if "slot ?c i" for i
    using that n by (simp_all add: isConnected_def started_def fields slot_def)
  have "shape_ok ?c" using n by (simp add: shape_ok_def fields row_ok_def)
  moreover have "\<not> linked ?c e" for e using off(1) by (auto simp: linked_def)
  ultimately have "wired ?c" using off fields(8) by (intro wiredI) simp_all
  moreover have "server_ok ?c i" if "slot ?c i" for i
    using that n by (simp add: server_ok_def fields slot_def)
  ultimately show ?thesis by (simp add: cfg_ok_def)
qed

lemma cfLogs_update_ok:
  "cfg_ok cfg \<Longrightarrow> length ls = length (cfLogs cfg) \<Longrightarrow> cfg_ok (cfg\<lparr>cfLogs := ls\<rparr>)"
proof (rule cfg_ok_cong)
  fix i assume cfg: "cfg_ok cfg" "slot cfg i"
  have "server_ok (cfg\<lparr>cfLogs := ls\<rparr>) i = server_ok cfg i" by (rule server_ok_cong) simp_all
  with cfg show "server_ok (cfg\<lparr>cfLogs := ls\<rparr>) i" by (simp add: cfg_ok_def)
qed (use cfg_ok_shape [of cfg] in \<open>simp_all add: shape_ok_def\<close>)

lemma make_config_running:
  assumes "make_config now randname ms n unreliable = Inr cfg"
  shows "running_ok cfg \<and> cfN cfg = n"
proof -
  have n: "0 \<le> n" using assms by (simp add: make_config_def split: if_splits)
  let ?start = "\<lambda>i cfg. bindE (go_update (cfLogs cfg) i (\<lambda>_. None)) (\<lambda>ls. start1 (randname i) (ms i) i (cfg\<lparr>cfLogs := ls\<rparr>))"
  from assms n obtain c where c: "foldE ?start [0..n - 1] (emptyConfig now n unreliable) = Inr c" "foldE connect [0..n - 1] c = Inr cfg"
    by (auto simp: make_config_eq bindE_eq_Inr_iff)
  have "cfg_ok c \<and> cfN c = n \<and> (\<forall>k\<in>set [0..n - 1]. started c k)"
    using c(1)
  proof (rule foldE_Inr_rule [where I = "\<lambda>done c. cfg_ok c \<and> cfN c = n \<and> (\<forall>k\<in>set done. started c k)"])
    show "cfg_ok (emptyConfig now n unreliable) \<and> cfN (emptyConfig now n unreliable) = n \<and> (\<forall>k\<in>set []. started (emptyConfig now n unreliable) k)"
      using emptyConfig_ok [OF n] by (simp add: emptyConfig_def setunreliable_def)
  next
    fix dn i u u'
    assume u: "cfg_ok u \<and> cfN u = n \<and> (\<forall>k\<in>set dn. started u k)" and dn: "set dn \<subseteq> set [0..n - 1]" "i \<in> set [0..n - 1]" and st: "?start i u = Inr u'"
    define ls where "ls = (cfLogs u)[nat i := \<lambda>_. None]"
    have ls: "length ls = length (cfLogs u)" "start1 (randname i) (ms i) i (u\<lparr>cfLogs := ls\<rparr>) = Inr u'"
      using st by (auto simp: ls_def bindE_eq_Inr_iff go_update_eq_Inr_iff)
    note keep = start1_keeps [OF ls(2) cfLogs_update_ok [OF conjunct1 [OF u] ls(1)]]
    have "started u' k" if "k \<in> set (dn @ [i])" for k
    proof -
      have "slot u k" using that dn u by (auto simp: slot_def)
      with keep that u show ?thesis by (auto simp: slot_def started_def)
    qed
    with keep u show "cfg_ok u' \<and> cfN u' = n \<and> (\<forall>k\<in>set (dn @ [i]). started u' k)" by simp
  qed
  then have started: "running_ok c \<and> cfN c = n" by (auto simp: running_ok_def slot_def)
  have "running_ok cfg \<and> cfN cfg = n"
    using c(2) by (rule foldE_Inr_rule [where I = "\<lambda>_ c. running_ok c \<and> cfN c = n"]) (use started running_ok_step step_connect in blast)+
  then show ?thesis .
qed

text \<open>
  The state of \<open>make_config\<close> when the servers in \<open>D\<close> have been started: their rows are made, they run, and
  the network has no other ends.
\<close>

definition booted :: "(int \<Rightarrow> int \<Rightarrow> string) \<Rightarrow> int \<Rightarrow> int set \<Rightarrow> ('o, 'b) config \<Rightarrow> bool" where
  "booted randname n D c \<longleftrightarrow> cfg_ok c \<and> cfN c = n \<and> (\<forall>k\<in>D. started c k \<and> cfRafts c ! nat k \<noteq> None) \<and>
     (\<forall>e. ends (cfNet c) e \<longrightarrow> (\<exists>i\<in>D. \<exists>j\<in>{0..<n}. e = randname i j))"

definition bootServer :: "(int \<Rightarrow> int \<Rightarrow> string) \<Rightarrow> (int \<Rightarrow> ('o, 'b) goMethod list) \<Rightarrow> int \<Rightarrow> ('o, 'b) config \<Rightarrow> ('o, 'b) config go" where
  "bootServer randname ms i cfg = bindE (go_update (cfLogs cfg) i (\<lambda>_. None)) (\<lambda>ls. start1 (randname i) (ms i) i (cfg\<lparr>cfLogs := ls\<rparr>))"

lemma bootServer_succeeds:
  assumes inj: "\<And>i j k l. i \<in> {0..<n} \<Longrightarrow> j \<in> {0..<n} \<Longrightarrow> k \<in> {0..<n} \<Longrightarrow> l \<in> {0..<n} \<Longrightarrow> randname i j = randname k l \<Longrightarrow> i = k \<and> j = l"
    and c: "booted randname n D c" and i: "i \<in> {0..<n}" "D \<subseteq> {0..<n}" "i \<notin> D"
  shows "\<exists>c'. bootServer randname ms i c = Inr c' \<and> booted randname n (insert i D) c'"
proof -
  define ls where "ls = (cfLogs c)[nat i := \<lambda>_. None]"
  define d where "d = c\<lparr>cfLogs := ls\<rparr>"
  have cok: "cfg_ok c" "cfN c = n" using c by (simp_all add: booted_def)
  have len: "length (cfLogs c) = nat n" "length (cfRafts c) = nat n" using cfg_ok_shape [OF cok(1)] cok(2) by (simp_all add: shape_ok_def)
  have d: "cfg_ok d" "cfN d = n" "cfNet d = cfNet c" "cfRafts d = cfRafts c" "started d = started c" "slot d = slot c"
    using cfLogs_update_ok [OF cok(1), of ls] cok(2) by (simp_all add: d_def ls_def started_def slot_def fun_eq_iff)
  have slot: "slot d k \<longleftrightarrow> k \<in> {0..<n}" for k using d(2) by (auto simp: slot_def)
  have up: "set [0..n - 1] = {0..<n}" by auto
  have new: "inj_on (randname i) {0..<n}" "\<And>j. j \<in> {0..<n} \<Longrightarrow> \<not> ends (cfNet d) (randname i j)"
    using next_row_fresh [where R = "{0..<n}" and randname = randname and D = D and rn = "cfNet c", OF inj i] c unfolding booted_def d(3) by blast+
  have at: "slot d i" using slot i(1) by simp
  from start1_ok [OF d(1) at, of "randname i" "ms i", unfolded d(2) up, OF new] obtain c' rf where c': "start1 (randname i) (ms i) i d = Inr c'"
    "cfg_ok c'" "cfN c' = n" "\<forall>k. slot d k \<longrightarrow> started c' k = (k = i \<or> started d k)"
    "ends (cfNet c') = (\<lambda>e. ends (cfNet d) e \<or> e \<in> randname i ` {0..<n})" "cfRafts c' = (cfRafts d)[nat i := Some rf]"
    by blast
  have "started c' k \<and> cfRafts c' ! nat k \<noteq> None" if "k \<in> insert i D" for k
  proof -
    have "k \<in> {0..<n}" using that i by auto
    then show ?thesis using that c c'(4) slot i(1) len(2) unfolding c'(6) d(4,5)
      by (auto simp: booted_def nth_list_update eq_nat_nat_iff)
  qed
  moreover have "\<exists>k\<in>insert i D. \<exists>j\<in>{0..<n}. e = randname k j" if "ends (cfNet c') e" for e
    using that c unfolding c'(5) d(3) booted_def by blast
  ultimately have "booted randname n (insert i D) c'" using c'(2,3) by (simp add: booted_def)
  moreover have "bootServer randname ms i c = Inr c'" using c'(1) len(1) i(1) by (simp add: bootServer_def d_def ls_def)
  ultimately show ?thesis by blast
qed

lemma start_all_succeeds:
  assumes n: "0 \<le> n"
    and inj: "\<And>i j k l. i \<in> {0..<n} \<Longrightarrow> j \<in> {0..<n} \<Longrightarrow> k \<in> {0..<n} \<Longrightarrow> l \<in> {0..<n} \<Longrightarrow> randname i j = randname k l \<Longrightarrow> i = k \<and> j = l"
  shows "\<exists>c :: ('o, 'b) config. foldE (\<lambda>i cfg. bindE (go_update (cfLogs cfg) i (\<lambda>_. None)) (\<lambda>ls. start1 (randname i) (ms i) i (cfg\<lparr>cfLogs := ls\<rparr>)))
      [0..n - 1] (emptyConfig now n unreliable) = Inr c \<and> running_ok c \<and> cfN c = n \<and> (\<forall>k\<in>{0..<n}. cfRafts c ! nat k \<noteq> None) \<and>
      (\<forall>e. ends (cfNet c) e \<longrightarrow> (\<exists>i\<in>{0..<n}. \<exists>j\<in>{0..<n}. e = randname i j))"
proof -
  have "\<exists>c :: ('o, 'b) config. foldE (bootServer randname ms) [0..n - 1] (emptyConfig now n unreliable) = Inr c \<and> booted randname n (set [0..n - 1]) c"
  proof (rule foldE_prefix_rule [where I = "\<lambda>dn. booted randname n (set dn)"])
    show "booted randname n (set []) (emptyConfig now n unreliable :: ('o, 'b) config)"
      using emptyConfig_ok [OF n] by (simp add: booted_def emptyConfig_def setunreliable_def MakeNetwork_def Reliable_def LongDelays_def)
  next
    fix dn i rest and c :: "('o, 'b) config"
    assume "[0..n - 1] = dn @ i # rest" and c: "booted randname n (set dn) c"
    note i = upto_prefix [OF this(1)]
    have "set (dn @ [i]) = insert i (set dn)" by simp
    with bootServer_succeeds [OF inj c i(3,4,2), of ms]
    show "\<exists>c'. bootServer randname ms i c = Inr c' \<and> booted randname n (set (dn @ [i])) c'" by (simp only:)
  qed
  moreover have "set [0..n - 1] = {0..<n}" by auto
  ultimately obtain c :: "('o, 'b) config" where c: "foldE (bootServer randname ms) [0..n - 1] (emptyConfig now n unreliable) = Inr c" "booted randname n {0..<n} c"
    by (auto simp only:)
  have boot: "bootServer randname ms = (\<lambda>i cfg. bindE (go_update (cfLogs cfg) i (\<lambda>_. None)) (\<lambda>ls. start1 (randname i) (ms i) i (cfg\<lparr>cfLogs := ls\<rparr>)))"
    by (simp add: bootServer_def fun_eq_iff)
  have "running_ok c" "cfN c = n" using c(2) by (auto simp: booted_def running_ok_def slot_def)
  with c show ?thesis unfolding boot by (intro exI [of _ c]) (simp add: booted_def)
qed

lemma make_config_succeeds:
  assumes "0 \<le> n"
    and "\<And>i j k l. i \<in> {0..<n} \<Longrightarrow> j \<in> {0..<n} \<Longrightarrow> k \<in> {0..<n} \<Longrightarrow> l \<in> {0..<n} \<Longrightarrow> randname i j = randname k l \<Longrightarrow> i = k \<and> j = l"
  shows "\<exists>cfg :: ('o, 'b) config. make_config now randname ms n unreliable = Inr cfg \<and> (\<forall>i\<in>{0..<n}. isConnected cfg i) \<and> (\<forall>i\<in>{0..<n}. cfRafts cfg ! nat i \<noteq> None) \<and>
    (\<forall>e. ends (cfNet cfg) e \<longrightarrow> (\<exists>i\<in>{0..<n}. \<exists>j\<in>{0..<n}. e = randname i j))"
proof -
  from start_all_succeeds [OF assms, where now = now and unreliable = unreliable and ms = ms] obtain c :: "('o, 'b) config" where c:
    "foldE (\<lambda>i cfg. bindE (go_update (cfLogs cfg) i (\<lambda>_. None)) (\<lambda>ls. start1 (randname i) (ms i) i (cfg\<lparr>cfLogs := ls\<rparr>)))
      [0..n - 1] (emptyConfig now n unreliable) = Inr c" "running_ok c" "cfN c = n" "\<forall>k\<in>{0..<n}. cfRafts c ! nat k \<noteq> None"
    "\<forall>e. ends (cfNet c) e \<longrightarrow> (\<exists>i\<in>{0..<n}. \<exists>j\<in>{0..<n}. e = randname i j)" by blast
  let ?I = "\<lambda>dn d. running_ok d \<and> cfN d = n \<and> cfRafts d = cfRafts c \<and> ends (cfNet d) = ends (cfNet c) \<and> (\<forall>k\<in>set dn. isConnected d k)"
  have "\<exists>d. foldE connect [0..n - 1] c = Inr d \<and> ?I [0..n - 1] d"
  proof (rule foldE_rule)
    fix dn i d
    assume d: "?I dn d" and dn: "set dn \<subseteq> set [0..n - 1]" "i \<in> set [0..n - 1]"
    have slot: "slot d i" using d dn by (auto simp: slot_def)
    with d have W: "wired d" "started d i" by (simp_all add: running_ok_def cfg_ok_def)
    from connect_wired [OF W(1) slot W(2)] obtain d' where d': "connect i d = Inr d'" "wires (cfNet d') = wires (cfNet d)"
      "d' = d\<lparr>cfConnected := (cfConnected d)[nat i := True], cfNet := cfNet d'\<rparr>" by blast
    have fields: "cfRafts d' = cfRafts d" "cfConnected d' = (cfConnected d)[nat i := True]" by (subst d'(3), simp)+
    have len: "length (cfConnected d) = nat n" using wiredD(1) [OF W(1)] d by (simp add: shape_ok_def)
    have "isConnected d' k" if "k \<in> set (dn @ [i])" for k
      using that d dn len by (auto simp: isConnected_def fields nth_list_update)
    with running_ok_step [of d d'] step_connect [OF d'(1)] d d'(1) fields(1) wires_eqD(2) [OF d'(2)] show "\<exists>d'. connect i d = Inr d' \<and> ?I (dn @ [i]) d'" by auto
  qed (use c(2,3) in simp)
  then obtain d where d: "foldE connect [0..n - 1] c = Inr d" "cfRafts d = cfRafts c" "\<forall>k\<in>set [0..n - 1]. isConnected d k"
    "ends (cfNet d) = ends (cfNet c)" by blast
  have "make_config now randname ms n unreliable = Inr d" using c(1) d(1) assms(1) by (simp add: make_config_eq)
  moreover have "isConnected d i" if "i \<in> {0..<n}" for i using d(3) that by simp
  ultimately show ?thesis using d(2,4) c(4,5) by auto
qed

interpretation tester: inductive_invariant running_ok tester_step running_ok
  by unfold_locales (use running_ok_step in blast)+

lemma reachable_size: "reachable_from tester_step cfg0 cfg \<Longrightarrow> running_ok cfg0 \<Longrightarrow> cfN cfg = cfN cfg0"
proof (induction rule: reachable_from.induct)
  case (reach_step c d)
  then have "running_ok c" using tester.inv_reachable by blast
  with running_ok_step reach_step show ?case by fastforce
qed simp

text \<open>
  Claim C32. The tester isolates servers exactly. If the random names are distinct, \<open>make_config\<close>
  succeeds and starts and connects every server. From then on, whatever the tester does
  (\<open>connect\<close>, \<open>disconnect\<close>, \<open>crash1\<close>, \<open>start1\<close>, changes of the network's reliability) and whatever
  the servers do, a request on an end reaches server \<open>j\<close> exactly if the end is the current end of
  a connected server \<open>i\<close> for \<open>j\<close> and \<open>j\<close> is connected and running. In particular an end of a
  crashed server never reaches anyone again.
\<close>

theorem tester_isolates:
  assumes "0 \<le> n"
    and "\<And>i j k l. i \<in> {0..<n} \<Longrightarrow> j \<in> {0..<n} \<Longrightarrow> k \<in> {0..<n} \<Longrightarrow> l \<in> {0..<n} \<Longrightarrow> randname i j = randname k l \<Longrightarrow> i = k \<and> j = l"
  shows "\<exists>cfg0 :: ('o, 'b) config. make_config now randname ms n unreliable = Inr cfg0 \<and>
    (\<forall>i\<in>{0..<n}. cfConnected cfg0 ! nat i \<and> cfRafts cfg0 ! nat i \<noteq> None) \<and>
    (\<forall>cfg. reachable_from tester_step cfg0 cfg \<longrightarrow>
      (\<forall>e j. delivered e (cfNet cfg) = Some j \<longleftrightarrow>
        (\<exists>i\<in>{0..<n}. j \<in> {0..<n} \<and> cfConnected cfg ! nat i \<and> cfConnected cfg ! nat j \<and> cfRafts cfg ! nat j \<noteq> None \<and>
          e = cfEndnames cfg ! nat i ! nat j)))"
proof -
  from make_config_succeeds [OF assms] obtain cfg0 :: "('o, 'b) config" where mk: "make_config now randname ms n unreliable = Inr cfg0"
    "\<forall>i\<in>{0..<n}. isConnected cfg0 i" "\<forall>i\<in>{0..<n}. cfRafts cfg0 ! nat i \<noteq> None" by blast
  note run = make_config_running [OF mk(1)]
  have "delivered e (cfNet cfg) = Some j \<longleftrightarrow>
        (\<exists>i\<in>{0..<n}. j \<in> {0..<n} \<and> cfConnected cfg ! nat i \<and> cfConnected cfg ! nat j \<and> cfRafts cfg ! nat j \<noteq> None \<and>
          e = cfEndnames cfg ! nat i ! nat j)" if reach: "reachable_from tester_step cfg0 cfg" for cfg e j
  proof -
    have ok: "running_ok cfg" and size: "cfN cfg = n"
      using tester.inv_reachable [OF conjunct1 [OF run] reach] reachable_size [OF reach] run by auto
    then have W: "wired cfg" and srv: "\<And>k. slot cfg k \<Longrightarrow> server_ok cfg k" by (simp_all add: running_ok_def cfg_ok_def)
    have slot: "slot cfg k \<longleftrightarrow> k \<in> {0..<n}" for k by (auto simp: slot_def size)
    have "enabled (cfNet cfg) e \<and> connections (cfNet cfg) e = Some j \<longleftrightarrow>
        (\<exists>i. slot cfg i \<and> slot cfg j \<and> isConnected cfg i \<and> isConnected cfg j \<and> e = endOf cfg i j)"
      unfolding wiredD(5) [OF W] linked_def using wiredD(3,4) [OF W] by fastforce
    moreover have "servers (cfNet cfg) j \<noteq> None \<longleftrightarrow> cfRafts cfg ! nat j \<noteq> None" if "slot cfg j"
      using srv [OF that] by (simp add: server_ok_def)
    ultimately show ?thesis unfolding delivered_iff slot isConnected_def endOf_def by blast
  qed
  with mk show ?thesis unfolding isConnected_def by blast
qed

definition twoNames :: "int \<Rightarrow> int \<Rightarrow> string" where
  "twoNames i j = [if i = 0 then CHR ''a'' else CHR ''b'', if j = 0 then CHR ''a'' else CHR ''b'']"

lemma twoNames_inj:
  assumes "i \<in> {0..<2}" "j \<in> {0..<2}" "k \<in> {0..<2}" "l \<in> {0..<2}" "twoNames i j = twoNames k l"
  shows "i = k \<and> j = l"
proof -
  have two: "x = 0 \<or> x = 1" if "x \<in> {0..<2}" for x :: int using that by auto
  show ?thesis using two [OF assms(1)] two [OF assms(2)] two [OF assms(3)] two [OF assms(4)] assms(5)
    by (elim disjE) (simp_all add: twoNames_def)
qed

theorem tester_isolates_witness:
  "\<exists>cfg0 :: (unit, unit) config. make_config 0 twoNames (\<lambda>_. []) 2 False = Inr cfg0 \<and>
    (\<exists>e. delivered e (cfNet cfg0) = Some 1)"
proof -
  have iso: "\<exists>cfg0 :: (unit, unit) config. make_config 0 twoNames (\<lambda>_. []) 2 False = Inr cfg0 \<and>
    (\<forall>i\<in>{0..<2}. cfConnected cfg0 ! nat i \<and> cfRafts cfg0 ! nat i \<noteq> None) \<and>
    (\<forall>cfg. reachable_from tester_step cfg0 cfg \<longrightarrow>
      (\<forall>e j. delivered e (cfNet cfg) = Some j \<longleftrightarrow>
        (\<exists>i\<in>{0..<2}. j \<in> {0..<2} \<and> cfConnected cfg ! nat i \<and> cfConnected cfg ! nat j \<and> cfRafts cfg ! nat j \<noteq> None \<and>
          e = cfEndnames cfg ! nat i ! nat j)))"
    by (rule tester_isolates [OF _ twoNames_inj]) simp_all
  then obtain cfg0 :: "(unit, unit) config" where
    cfg0: "make_config 0 twoNames (\<lambda>_. []) 2 False = Inr cfg0" "\<forall>i\<in>{0..<2}. cfConnected cfg0 ! nat i \<and> cfRafts cfg0 ! nat i \<noteq> None"
    and all: "\<forall>cfg. reachable_from tester_step cfg0 cfg \<longrightarrow>
      (\<forall>e j. delivered e (cfNet cfg) = Some j \<longleftrightarrow>
        (\<exists>i\<in>{0..<2}. j \<in> {0..<2} \<and> cfConnected cfg ! nat i \<and> cfConnected cfg ! nat j \<and> cfRafts cfg ! nat j \<noteq> None \<and>
          e = cfEndnames cfg ! nat i ! nat j))"
    by blast
  have "(0 :: int) \<in> {0..<2}" "(1 :: int) \<in> {0..<2}" by simp_all
  with cfg0(2) all [rule_format, OF reach_start, of "cfEndnames cfg0 ! nat 0 ! nat 1" 1]
  have "delivered (cfEndnames cfg0 ! nat 0 ! nat 1) (cfNet cfg0) = Some 1" by blast
  with cfg0(1) show ?thesis by blast
qed

text \<open>
  Claim C33. Crash and restart. In every configuration that the tester can reach, \<open>start1\<close> with new
  names succeeds; the new server has the role, the term, the vote and the log of the last state
  that the old server persisted, nothing else, and it is off the net until it is connected.
\<close>

theorem restart_recovers:
  assumes "make_config now randname ms n unreliable = Inr cfg0" "reachable_from tester_step cfg0 cfg"
    and "i \<in> {0..<n}" "cfRafts cfg ! nat i = Some rf" "node_ok old" "ReadRaftState (persister rf) = Some (persisted_state old)"
    and "inj_on name {0..<n}" "\<And>j. j \<in> {0..<n} \<Longrightarrow> \<not> ends (cfNet cfg) (name j)"
  shows "\<exists>cfg' rf'. start1 name ms' i cfg = Inr cfg' \<and> cfRafts cfg' ! nat i = Some rf' \<and> \<not> cfConnected cfg' ! nat i \<and>
    state rf' = state old \<and> currentTerm rf' = currentTerm old \<and> votedFor rf' = votedFor old \<and> logs rf' = logs old \<and>
    commitIndex rf' = -1 \<and> lastApplied rf' = -1 \<and> me rf' = i"
proof -
  note run = make_config_running [OF assms(1)]
  have ok: "running_ok cfg" and size: "cfN cfg = n"
    using tester.inv_reachable [OF conjunct1 [OF run] assms(2)] reachable_size [OF assms(2)] run by auto
  then have cok: "cfg_ok cfg" and slot: "slot cfg i" using assms(3) by (simp_all add: running_ok_def slot_def)
  have set: "set [0..cfN cfg - 1] = {0..<n}" by (auto simp: size)
  from cok slot have "server_ok cfg i" by (simp add: cfg_ok_def)
  with assms(4) have saved: "savedOf cfg i = Some (persister rf)" by (auto simp: savedOf_def server_ok_def)
  from start1_ok [OF cok slot, of name ms'] assms(7,8) obtain cfg' rf' ps where st: "start1 name ms' i cfg = Inr cfg'" "\<not> isConnected cfg' i"
    "ReadRaftState ps = Option.bind (savedOf cfg i) ReadRaftState" "Make (CmdInt 0) (cfN cfg) i ps = Inr rf'"
    "cfRafts cfg' = (cfRafts cfg)[nat i := Some rf']" unfolding set by blast
  have read: "ReadRaftState ps = Some (persisted_state old)" using st(3) saved assms(6) by simp
  have i: "0 \<le> i" "i < cfN cfg" using slot by (simp_all add: slot_def)
  from Make_recovers [OF assms(5) i read, of "CmdInt 0"] st(4) have rf': "state rf' = state old" "currentTerm rf' = currentTerm old"
    "votedFor rf' = votedFor old" "logs rf' = logs old" "commitIndex rf' = -1" "lastApplied rf' = -1" by auto
  have "length (cfRafts cfg) = nat (cfN cfg)" using cfg_ok_shape [OF cok] by (simp add: shape_ok_def)
  then have "cfRafts cfg' ! nat i = Some rf'" using st(5) i by simp
  with st(1,2) rf' Make_keeps [OF st(4)] show ?thesis by (auto simp: isConnected_def)
qed

definition demoServer :: "command Raft" where
  "demoServer = persist ((freshRaft (CmdInt 0) 2 0 MakePersister)\<lparr>currentTerm := 4, votedFor := 1\<rparr>)"

theorem restart_recovers_witness:
  "\<exists>(cfg0 :: (unit, unit) config) cfg cfg' rf'. make_config 0 twoNames (\<lambda>_. []) 2 False = Inr cfg0 \<and> reachable_from tester_step cfg0 cfg \<and>
    start1 (\<lambda>j. if j = 0 then ''x'' else ''y'') [] 0 cfg = Inr cfg' \<and> cfRafts cfg' ! 0 = Some rf' \<and> currentTerm rf' = 4 \<and> votedFor rf' = 1"
proof -
  have "\<exists>cfg0 :: (unit, unit) config. make_config 0 twoNames (\<lambda>_. []) 2 False = Inr cfg0 \<and> (\<forall>i\<in>{0..<2}. isConnected cfg0 i) \<and>
    (\<forall>i\<in>{0..<2}. cfRafts cfg0 ! nat i \<noteq> None) \<and> (\<forall>e. ends (cfNet cfg0) e \<longrightarrow> (\<exists>i\<in>{0..<2}. \<exists>j\<in>{0..<2}. e = twoNames i j))"
    by (rule make_config_succeeds [OF _ twoNames_inj]) simp_all
  then obtain cfg0 :: "(unit, unit) config" where cfg0: "make_config 0 twoNames (\<lambda>_. []) 2 False = Inr cfg0" "\<forall>i\<in>{0..<2}. cfRafts cfg0 ! nat i \<noteq> None"
    "\<forall>e. ends (cfNet cfg0) e \<longrightarrow> (\<exists>i\<in>{0..<2}. \<exists>j\<in>{0..<2}. e = twoNames i j)" by blast
  note run = make_config_running [OF cfg0(1)]
  have ok: "cfg_ok cfg0" "slot cfg0 0" using run by (simp_all add: running_ok_def slot_def)
  from cfg0(2) obtain rf where rf: "cfRafts cfg0 ! nat 0 = Some rf" by fastforce
  with ok have alive: "\<not> shutDown rf" by (auto simp: cfg_ok_def server_ok_def)
  have demo: "node_ok demoServer" "shutDown demoServer = shutDown rf" "ReadRaftState (persister demoServer) = Some (persisted_state demoServer)"
    "currentTerm demoServer = 4" "votedFor demoServer = 1"
    using alive by (simp_all add: demoServer_def node_ok_def log_ok_def freshRaft_def)
  then have stored: "stored_ok (persister demoServer)" by (auto simp: stored_ok_def)
  define cfg where "cfg = cfg0\<lparr>cfRafts := (cfRafts cfg0)[nat 0 := Some demoServer]\<rparr>"
  have reach: "reachable_from tester_step cfg0 cfg"
    unfolding cfg_def by (rule reach_step [OF reach_start]) (rule step_server [OF ok(2) rf demo(2) stored])
  have "length (cfRafts cfg0) = 2" using cfg_ok_shape [OF ok(1)] run by (simp add: shape_ok_def)
  then have now: "cfRafts cfg ! nat 0 = Some demoServer" by (simp add: cfg_def)
  have fresh: "\<not> ends (cfNet cfg) (if j = 0 then ''x'' else ''y'')" for j :: int
    using cfg0(3) by (auto simp: cfg_def twoNames_def)
  have injn: "inj_on (\<lambda>j :: int. if j = 0 then ''x'' else ''y'') {0..<2}" by (auto simp: inj_on_def split: if_splits)
  have zero: "(0 :: int) \<in> {0..<2}" by simp
  from restart_recovers [OF cfg0(1) reach zero now demo(1,3) injn fresh, of "[]"] cfg0(1) reach demo(4,5) show ?thesis by auto
qed

end
