(* ===== verification/Raft_Checks.thy ===== *)
theory Raft_Checks
  imports Raft_Tests
begin

section \<open>What the checks of the Raft tests show\<close>

text \<open>
  The readers of the apply channels (\<open>applied\<close>) and the checks \<open>nCommitted\<close>, \<open>one\<close>, \<open>wait\<close> and
  \<open>checkOneLeader\<close>: what has to hold of the servers for them to pass, and what follows when they
  do.
\<close>

subsection \<open>Applied entries\<close>

definition appliedAt :: "('o, 'b) config \<Rightarrow> int \<Rightarrow> int \<Rightarrow> int option" where
  "appliedAt cfg i index = (cfLogs cfg ! nat i) index"

definition agreed :: "('o, 'b) config \<Rightarrow> bool" where
  "agreed cfg \<longleftrightarrow> (\<forall>i k index v w. i \<in> {0..<int (length (cfLogs cfg))} \<and> k \<in> {0..<int (length (cfLogs cfg))} \<and>
     appliedAt cfg i index = Some v \<and> appliedAt cfg k index = Some w \<longrightarrow> v = w)"

definition in_order :: "('o, 'b) config \<Rightarrow> bool" where
  "in_order cfg \<longleftrightarrow> (\<forall>i index. i \<in> {0..<int (length (cfLogs cfg))} \<and> 1 < index \<and> appliedAt cfg i index \<noteq> None \<longrightarrow> appliedAt cfg i (index - 1) \<noteq> None)"

lemma differs_iff:
  fixes ls :: "(int \<rightharpoonup> int) list"
  shows "(\<exists>lg\<in>set ls. case lg x of None \<Rightarrow> False | Some old \<Rightarrow> old \<noteq> v) \<longleftrightarrow> (\<exists>k\<in>{0..<int (length ls)}. (ls ! nat k) x \<notin> {None, Some v})"
proof -
  have "(\<exists>lg\<in>set ls. P lg) \<longleftrightarrow> (\<exists>k\<in>{0..<int (length ls)}. P (ls ! nat k))" for P :: "(int \<rightharpoonup> int) \<Rightarrow> bool"
  proof
    assume "\<exists>lg\<in>set ls. P lg"
    then obtain k where "k < length ls" "P (ls ! k)" by (auto simp: in_set_conv_nth)
    then show "\<exists>k\<in>{0..<int (length ls)}. P (ls ! nat k)" by (intro bexI [of _ "int k"]) simp_all
  next
    assume "\<exists>k\<in>{0..<int (length ls)}. P (ls ! nat k)"
    then obtain k where "0 \<le> k" "k < int (length ls)" "P (ls ! nat k)" by auto
    moreover from this have "ls ! nat k \<in> set ls" by (intro nth_mem) linarith
    ultimately show "\<exists>lg\<in>set ls. P lg" by blast
  qed
  then show ?thesis by (simp split: option.split) (metis option.exhaust option.inject)
qed

lemma applied_int:
  assumes "i \<in> {0..<int (length (cfLogs cfg))}" "CommandValid m" "MsgCommand m = CmdInt v"
  shows "applied i m cfg =
    (if (\<exists>k\<in>{0..<int (length (cfLogs cfg))}. appliedAt cfg k (CommandIndex m) \<notin> {None, Some v}) \<or>
        1 < CommandIndex m \<and> appliedAt cfg i (CommandIndex m - 1) = None
     then Inl LogFatal
     else Inr (cfg\<lparr>cfLogs := (cfLogs cfg)[nat i := (cfLogs cfg ! nat i)(CommandIndex m \<mapsto> v)], cfMaxIndex := max (cfMaxIndex cfg) (CommandIndex m)\<rparr>))"
proof -
  have "go_nth (cfLogs cfg) i = Inr (cfLogs cfg ! nat i)" "\<And>x. go_update (cfLogs cfg) i x = Inr ((cfLogs cfg)[nat i := x])"
    using assms(1) by simp_all
  then show ?thesis
    unfolding applied_def differs_iff using assms(2,3) by (auto simp: appliedAt_def Let_def)
qed

lemma appliedAt_update:
  assumes "i \<in> {0..<int (length (cfLogs cfg))}" "k \<in> {0..<int (length (cfLogs cfg))}"
  shows "appliedAt (cfg\<lparr>cfLogs := (cfLogs cfg)[nat i := (cfLogs cfg ! nat i)(x \<mapsto> v)], cfMaxIndex := mx\<rparr>) k y =
    (if k = i \<and> y = x then Some v else appliedAt cfg k y)"
proof -
  have "nat k = nat i \<longleftrightarrow> k = i" using assms by auto
  with assms show ?thesis by (auto simp: appliedAt_def nth_list_update)
qed

lemma applied_agreed:
  assumes "applied i m cfg = Inr cfg'" "agreed cfg" "in_order cfg"
  shows "agreed cfg' \<and> in_order cfg' \<and> length (cfLogs cfg') = length (cfLogs cfg) \<and> cfApplyErr cfg' = cfApplyErr cfg \<and> cfRafts cfg' = cfRafts cfg"
proof (cases "CommandValid m")
  case False
  with assms show ?thesis by (simp add: applied_def)
next
  case True
  with assms(1) obtain v where v: "MsgCommand m = CmdInt v" by (cases "MsgCommand m") (auto simp: applied_def)
  from assms(1) True v have i: "i \<in> {0..<int (length (cfLogs cfg))}"
    by (auto simp: applied_def Let_def bindE_eq_Inr_iff go_nth_eq_Inr_iff)
  let ?x = "CommandIndex m"
  from assms(1) applied_int [OF i True v]
  have same: "\<forall>k\<in>{0..<int (length (cfLogs cfg))}. appliedAt cfg k ?x \<in> {None, Some v}" and prev: "1 < ?x \<longrightarrow> appliedAt cfg i (?x - 1) \<noteq> None"
    and cfg': "cfg' = cfg\<lparr>cfLogs := (cfLogs cfg)[nat i := (cfLogs cfg ! nat i)(?x \<mapsto> v)], cfMaxIndex := max (cfMaxIndex cfg) ?x\<rparr>"
    by (auto split: if_splits)
  have at: "appliedAt cfg' k y = (if k = i \<and> y = ?x then Some v else appliedAt cfg k y)" if "k \<in> {0..<int (length (cfLogs cfg))}" for k y
    unfolding cfg' by (rule appliedAt_update [OF i that])
  have len: "length (cfLogs cfg') = length (cfLogs cfg)" by (simp add: cfg')
  have "agreed cfg'"
    unfolding agreed_def len
  proof (intro allI impI)
    fix k l y u w
    assume kl: "k \<in> {0..<int (length (cfLogs cfg))} \<and> l \<in> {0..<int (length (cfLogs cfg))} \<and> appliedAt cfg' k y = Some u \<and> appliedAt cfg' l y = Some w"
    then have old: "appliedAt cfg k y = Some a \<Longrightarrow> appliedAt cfg l y = Some b \<Longrightarrow> a = b" for a b
      using assms(2) unfolding agreed_def by blast
    have new: "appliedAt cfg j ?x \<in> {None, Some v}" if "j = k \<or> j = l" for j
      using bspec [OF same, of j] kl that by auto
    show "u = w"
      using kl at [of k y] at [of l y] old new [of k] new [of l] by (auto split: if_splits)
  qed
  moreover have "in_order cfg'"
    unfolding in_order_def len
  proof (intro allI impI)
    fix k y
    assume ky: "k \<in> {0..<int (length (cfLogs cfg))} \<and> 1 < y \<and> appliedAt cfg' k y \<noteq> None"
    then have "appliedAt cfg k y \<noteq> None \<Longrightarrow> appliedAt cfg k (y - 1) \<noteq> None" using assms(3) unfolding in_order_def by blast
    with ky at [of k y] at [of k "y - 1"] prev show "appliedAt cfg' k (y - 1) \<noteq> None" by (auto split: if_splits)
  qed
  ultimately show ?thesis by (simp add: len cfg')
qed

subsection \<open>Counting the servers that applied an entry\<close>

definition committers :: "('o, 'b) config \<Rightarrow> int \<Rightarrow> int set" where
  "committers cfg index = {i \<in> {0..<int (length (cfRafts cfg))}. appliedAt cfg i index \<noteq> None}"

definition countStep :: "('o, 'b) config \<Rightarrow> int \<Rightarrow> int \<Rightarrow> int \<times> int \<Rightarrow> (int \<times> int) go" where
  "countStep cfg index i r = (if cfApplyErr cfg ! nat i \<noteq> [] then Inl TestFatal
     else (case appliedAt cfg i index of
       None \<Rightarrow> Inr r
     | Some cmd1 \<Rightarrow> if fst r > 0 \<and> snd r \<noteq> cmd1 then Inl TestFatal else Inr (fst r + 1, cmd1)))"

lemma nCommitted_countStep:
  assumes "length (cfLogs cfg) = length (cfRafts cfg)" "length (cfApplyErr cfg) = length (cfRafts cfg)"
  shows "nCommitted index cfg = foldE (countStep cfg index) [0..int (length (cfRafts cfg)) - 1] (0, -1)"
  unfolding nCommitted_def
  by (rule foldE_eq) (use assms in \<open>auto simp: countStep_def appliedAt_def split: option.split\<close>)

text \<open>The state of the count after the servers \<open>dn\<close>.\<close>

definition counted :: "('o, 'b) config \<Rightarrow> int \<Rightarrow> int list \<Rightarrow> int \<times> int \<Rightarrow> bool" where
  "counted cfg index dn r \<longleftrightarrow> fst r = int (length (filter (\<lambda>i. appliedAt cfg i index \<noteq> None) dn)) \<and>
     (\<forall>i\<in>set dn. appliedAt cfg i index \<in> {None, Some (snd r)}) \<and> (fst r = 0 \<longrightarrow> snd r = -1)"

lemma counted_step:
  assumes "counted cfg index dn r" "countStep cfg index i r = Inr r'"
  shows "counted cfg index (dn @ [i]) r'"
proof (cases "appliedAt cfg i index")
  case None
  with assms show ?thesis by (simp add: counted_def countStep_def split: if_splits)
next
  case (Some v)
  with assms(2) have r': "r' = (fst r + 1, v)" and same: "fst r > 0 \<longrightarrow> snd r = v" by (auto simp: countStep_def split: if_splits)
  have "appliedAt cfg k index \<in> {None, Some v}" if "k \<in> set dn" for k
  proof (cases "fst r = 0")
    case True
    with assms(1) have "filter (\<lambda>i. appliedAt cfg i index \<noteq> None) dn = []" by (simp add: counted_def)
    with that show ?thesis by (auto simp: filter_empty_conv)
  next
    case False
    then have "fst r > 0" using assms(1) by (simp add: counted_def)
    with same assms(1) that show ?thesis by (auto simp: counted_def)
  qed
  with assms(1) Some r' show ?thesis by (auto simp: counted_def)
qed

lemma card_committers: "card (committers cfg index) = length (filter (\<lambda>i. appliedAt cfg i index \<noteq> None) [0..int (length (cfRafts cfg)) - 1])"
proof -
  have "committers cfg index = set (filter (\<lambda>i. appliedAt cfg i index \<noteq> None) [0..int (length (cfRafts cfg)) - 1])"
    by (auto simp: committers_def)
  then show ?thesis by (simp only: distinct_card distinct_filter distinct_upto)
qed

lemma nCommitted_sound:
  assumes "nCommitted index cfg = Inr (nd, cmd)" "length (cfLogs cfg) = length (cfRafts cfg)" "length (cfApplyErr cfg) = length (cfRafts cfg)"
  shows "nd = int (card (committers cfg index)) \<and> (\<forall>i\<in>committers cfg index. appliedAt cfg i index = Some cmd)"
proof -
  have "foldE (countStep cfg index) [0..int (length (cfRafts cfg)) - 1] (0, -1) = Inr (nd, cmd)"
    using assms(1) nCommitted_countStep [OF assms(2,3)] by simp
  then have "counted cfg index [0..int (length (cfRafts cfg)) - 1] (nd, cmd)"
    by (rule foldE_Inr_rule [where I = "counted cfg index"]) (simp add: counted_def, rule counted_step)
  then have c: "nd = int (card (committers cfg index))" "\<And>i. i \<in> set [0..int (length (cfRafts cfg)) - 1] \<Longrightarrow> appliedAt cfg i index \<in> {None, Some cmd}"
    by (simp_all only: counted_def card_committers fst_conv snd_conv Ball_def)
  have "appliedAt cfg i index = Some cmd" if "i \<in> committers cfg index" for i
  proof -
    have "appliedAt cfg i index \<in> {None, Some cmd}" by (rule c(2)) (use that in \<open>auto simp: committers_def\<close>)
    with that show ?thesis by (auto simp: committers_def)
  qed
  with c(1) show ?thesis by blast
qed

lemma nCommitted_complete:
  assumes "length (cfLogs cfg) = length (cfRafts cfg)" "length (cfApplyErr cfg) = length (cfRafts cfg)"
    and "\<forall>err\<in>set (cfApplyErr cfg). err = []" "agreed cfg"
  shows "\<exists>nd cmd. nCommitted index cfg = Inr (nd, cmd)"
proof -
  have "\<exists>r. foldE (countStep cfg index) [0..int (length (cfRafts cfg)) - 1] (0, -1) = Inr r \<and> counted cfg index [0..int (length (cfRafts cfg)) - 1] r"
  proof (rule foldE_rule)
    fix dn i r
    assume r: "counted cfg index dn r" and dn: "set dn \<subseteq> set [0..int (length (cfRafts cfg)) - 1]" "i \<in> set [0..int (length (cfRafts cfg)) - 1]"
    have err: "cfApplyErr cfg ! nat i = []" using dn(2) assms(2,3) nth_mem [of "nat i" "cfApplyErr cfg"] by auto
    have "snd r = v" if "fst r > 0" "appliedAt cfg i index = Some v" for v
    proof -
      from that(1) r have "filter (\<lambda>i. appliedAt cfg i index \<noteq> None) dn \<noteq> []" by (auto simp: counted_def)
      then obtain k where k: "k \<in> set dn" "appliedAt cfg k index \<noteq> None" by (auto simp: filter_empty_conv)
      with r have "appliedAt cfg k index = Some (snd r)" by (auto simp: counted_def)
      moreover have "k \<in> {0..<int (length (cfLogs cfg))}" "i \<in> {0..<int (length (cfLogs cfg))}" using k(1) dn assms(1) by auto
      ultimately show ?thesis using assms(4) that(2) unfolding agreed_def by blast
    qed
    then have "\<exists>r'. countStep cfg index i r = Inr r'" using err by (auto simp: countStep_def split: option.split)
    with counted_step [OF r] show "\<exists>r'. countStep cfg index i r = Inr r' \<and> counted cfg index (dn @ [i]) r'" by blast
  qed (simp add: counted_def)
  with nCommitted_countStep [OF assms(1,2)] show ?thesis by fastforce
qed

text \<open>
  Claim C34. The readers of the apply channels. Starting from empty logs, if every message of a
  sequence passes them, then the servers agree on every index, every server has applied its
  entries without gaps, and \<open>nCommitted\<close> counts exactly the servers that applied an entry and
  returns their common command: its own check for a mismatch cannot fail. The first message that
  would break agreement or order ends the test.
\<close>

theorem apply_readers_agree:
  assumes "foldE (\<lambda>(i, m). applied i m) msgs cfg = Inr cfg'"
    and "\<forall>lg\<in>set (cfLogs cfg). lg = (\<lambda>_. None)" "\<forall>err\<in>set (cfApplyErr cfg). err = []"
    and "length (cfLogs cfg) = length (cfRafts cfg)" "length (cfApplyErr cfg) = length (cfRafts cfg)"
  shows "(\<forall>i k index v w. i \<in> {0..<int (length (cfRafts cfg))} \<and> k \<in> {0..<int (length (cfRafts cfg))} \<and>
      (cfLogs cfg' ! nat i) index = Some v \<and> (cfLogs cfg' ! nat k) index = Some w \<longrightarrow> v = w) \<and>
    (\<forall>i index. i \<in> {0..<int (length (cfRafts cfg))} \<and> 1 < index \<and> (cfLogs cfg' ! nat i) index \<noteq> None \<longrightarrow> (cfLogs cfg' ! nat i) (index - 1) \<noteq> None) \<and>
    (\<forall>index. \<exists>cmd. nCommitted index cfg' = Inr (int (card (committers cfg' index)), cmd) \<and>
      (\<forall>i\<in>committers cfg' index. (cfLogs cfg' ! nat i) index = Some cmd)) \<and>
    (\<forall>i m v. i \<in> {0..<int (length (cfRafts cfg))} \<and> CommandValid m \<and> MsgCommand m = CmdInt v \<longrightarrow>
      (applied i m cfg' = Inl LogFatal \<longleftrightarrow>
        (\<exists>k\<in>{0..<int (length (cfRafts cfg))}. (cfLogs cfg' ! nat k) (CommandIndex m) \<notin> {None, Some v}) \<or>
        1 < CommandIndex m \<and> (cfLogs cfg' ! nat i) (CommandIndex m - 1) = None))"
proof -
  have empty: "appliedAt cfg i x = None" if "i \<in> {0..<int (length (cfLogs cfg))}" for i x
  proof -
    have "cfLogs cfg ! nat i \<in> set (cfLogs cfg)" using that by (intro nth_mem) auto
    from bspec [OF assms(2) this] show ?thesis by (simp add: appliedAt_def)
  qed
  have start: "agreed cfg" "in_order cfg" using empty by (auto simp: agreed_def in_order_def)
  from assms(1) have "agreed cfg' \<and> in_order cfg' \<and> length (cfLogs cfg') = length (cfLogs cfg) \<and> cfApplyErr cfg' = cfApplyErr cfg \<and> cfRafts cfg' = cfRafts cfg"
  proof (rule foldE_Inr_rule [where I = "\<lambda>_ c. agreed c \<and> in_order c \<and> length (cfLogs c) = length (cfLogs cfg) \<and> cfApplyErr c = cfApplyErr cfg \<and> cfRafts c = cfRafts cfg"])
    fix dn x c c'
    assume "agreed c \<and> in_order c \<and> length (cfLogs c) = length (cfLogs cfg) \<and> cfApplyErr c = cfApplyErr cfg \<and> cfRafts c = cfRafts cfg"
      and "(case x of (i, m) \<Rightarrow> applied i m) c = Inr c'"
    then show "agreed c' \<and> in_order c' \<and> length (cfLogs c') = length (cfLogs cfg) \<and> cfApplyErr c' = cfApplyErr cfg \<and> cfRafts c' = cfRafts cfg"
      using applied_agreed [of "fst x" "snd x" c c'] by (auto split: prod.splits)
  qed (use start in simp)
  then have ok: "agreed cfg'" "in_order cfg'" and lens: "length (cfLogs cfg') = length (cfRafts cfg)" "length (cfLogs cfg') = length (cfRafts cfg')"
    "length (cfApplyErr cfg') = length (cfRafts cfg')" "\<forall>err\<in>set (cfApplyErr cfg'). err = []"
    using assms(3-5) by auto
  have "\<exists>cmd. nCommitted index cfg' = Inr (int (card (committers cfg' index)), cmd) \<and> (\<forall>i\<in>committers cfg' index. (cfLogs cfg' ! nat i) index = Some cmd)" for index
  proof -
    obtain nd cmd where n: "nCommitted index cfg' = Inr (nd, cmd)" using nCommitted_complete [OF lens(2-4) ok(1)] by blast
    with nCommitted_sound [OF n lens(2,3)] show ?thesis by (auto simp: appliedAt_def)
  qed
  moreover have "applied i m cfg' = Inl LogFatal \<longleftrightarrow>
        (\<exists>k\<in>{0..<int (length (cfRafts cfg))}. (cfLogs cfg' ! nat k) (CommandIndex m) \<notin> {None, Some v}) \<or>
        1 < CommandIndex m \<and> (cfLogs cfg' ! nat i) (CommandIndex m - 1) = None"
    if "i \<in> {0..<int (length (cfRafts cfg))}" "CommandValid m" "MsgCommand m = CmdInt v" for i m v
    using applied_int [of i cfg' m v] that lens(1) by (simp add: appliedAt_def)
  ultimately show ?thesis
    using ok lens(1) unfolding agreed_def in_order_def appliedAt_def by auto
qed

definition intMsg :: "int \<Rightarrow> int \<Rightarrow> command ApplyMsg" where
  "intMsg index v = \<lparr>CommandValid = True, MsgCommand = CmdInt v, CommandIndex = index\<rparr>"

theorem apply_readers_agree_witness:
  "\<exists>cfg' :: (unit, unit) config. foldE (\<lambda>(i, m). applied i m) [(0, intMsg 0 0), (0, intMsg 1 7), (1, intMsg 1 7), (0, intMsg 2 8)] (emptyConfig 0 2 False) = Inr cfg' \<and>
    (\<exists>cmd. nCommitted 1 cfg' = Inr (int (card (committers cfg' 1)), cmd)) \<and> applied 1 (intMsg 2 9) cfg' = Inl LogFatal"
proof -
  let ?cfg = "emptyConfig 0 2 False :: (unit, unit) config"
  let ?msgs = "[(0, intMsg 0 0), (0, intMsg 1 7), (1, intMsg 1 7), (0, intMsg 2 8)]"
  have two: "replicate 2 x = [x, x]" for x :: 'z by (simp add: numeral_2_eq_2)
  have fields: "cfLogs ?cfg = [\<lambda>_. None, \<lambda>_. None]" "cfApplyErr ?cfg = [[], []]" "cfRafts ?cfg = [None, None]"
    by (simp_all add: emptyConfig_def setunreliable_def two)
  obtain cfg' where run: "foldE (\<lambda>(i, m). applied i m) ?msgs ?cfg = Inr cfg'" and logs: "(cfLogs cfg' ! nat 0) 2 = Some 8"
    by (simp add: applied_def intMsg_def fields go_nth_def go_update_def)
  note agree = apply_readers_agree [OF run]
  have "applied 1 (intMsg 2 9) cfg' = Inl LogFatal"
    using agree [THEN conjunct2, THEN conjunct2, THEN conjunct2, rule_format, of 1 "intMsg 2 9" 9] logs
    by (auto simp: fields intMsg_def intro!: bexI [of _ 0])
  with run agree [THEN conjunct2, THEN conjunct2, THEN conjunct1] show ?thesis by (auto simp: fields)
qed

subsection \<open>Reaching an agreement\<close>

lemma Start_refused: "Start cmd rf = Inr (rf', index, trm, False) \<Longrightarrow> rf' = rf"
  by (auto simp: Start_def Let_def bindE_eq_Inr_iff split: if_splits)

lemma Start_accepted:
  "Start cmd rf = Inr (rf', index, trm, True) \<Longrightarrow> state rf = Leader \<and> index = int (length (logs rf)) \<and> trm = currentTerm rf \<and>
    logs rf' = logs rf @ [\<lparr>Term = trm, Index = index, Command = cmd\<rparr>]"
  by (auto simp: Start_def Let_def bindE_eq_Inr_iff persist_def split: if_splits)

lemma tryStarts_accepted:
  assumes "tryStarts cmd k starts cfg = Inr (cfg', index, starts')" "index \<noteq> -1"
  shows "\<exists>i rf rf'. i \<in> {0..<int (length (cfRafts cfg))} \<and> cfConnected cfg ! nat i \<and> cfRafts cfg ! nat i = Some rf \<and> state rf = Leader \<and>
    index = int (length (logs rf)) \<and> cfRafts cfg' = (cfRafts cfg)[nat i := Some rf'] \<and>
    logs rf' = logs rf @ [\<lparr>Term = currentTerm rf, Index = index, Command = CmdInt cmd\<rparr>]"
  using assms
proof (induction k arbitrary: starts cfg)
  case (Suc k)
  define i where "i = (starts + 1) mod cfN cfg"
  from Suc.prems(1) obtain c r where c: "go_nth (cfConnected cfg) i = Inr c" "(if c then go_nth (cfRafts cfg) i else Inr None) = Inr r"
    "(case r of None \<Rightarrow> tryStarts cmd k i cfg
      | Some rf \<Rightarrow> bindE (Start (CmdInt cmd) rf) (\<lambda>(rf, index1, _, ok).
          bindE (go_update (cfRafts cfg) i (Some rf)) (\<lambda>rafts.
          if ok then Inr (cfg\<lparr>cfRafts := rafts\<rparr>, index1, i) else tryStarts cmd k i (cfg\<lparr>cfRafts := rafts\<rparr>)))) = Inr (cfg', index, starts')"
    by (auto simp: Let_def bindE_eq_Inr_iff i_def [symmetric])
  show ?case
  proof (cases r)
    case None
    with c(3) Suc.IH [OF _ Suc.prems(2)] show ?thesis by simp
  next
    case (Some rf)
    with c(1,2) have i: "c" "i \<in> {0..<int (length (cfRafts cfg))}" "cfRafts cfg ! nat i = Some rf" "cfConnected cfg ! nat i"
      by (auto simp: go_nth_eq_Inr_iff split: if_splits)
    from c(3) Some obtain rf' index1 trm ok where st: "Start (CmdInt cmd) rf = Inr (rf', index1, trm, ok)"
      "(if ok then Inr (cfg\<lparr>cfRafts := (cfRafts cfg)[nat i := Some rf']\<rparr>, index1, i)
        else tryStarts cmd k i (cfg\<lparr>cfRafts := (cfRafts cfg)[nat i := Some rf']\<rparr>)) = Inr (cfg', index, starts')"
      using i(2) by (auto simp: bindE_eq_Inr_iff go_update_eq_Inr_iff Let_def)
    show ?thesis
    proof (cases ok)
      case True
      with st Start_accepted [of "CmdInt cmd" rf rf' index1 trm] i show ?thesis
        by (intro exI [of _ i] exI [of _ rf] exI [of _ rf']) auto
    next
      case False
      with st Start_refused [of "CmdInt cmd" rf rf' index1 trm] have "rf' = rf" by simp
      then have "cfg\<lparr>cfRafts := (cfRafts cfg)[nat i := Some rf']\<rparr> = cfg" using i(3) list_update_id [of "cfRafts cfg" "nat i"] by simp
      with False st(2) Suc.IH [OF _ Suc.prems(2)] show ?thesis by simp
    qed
  qed
qed simp

definition well_sized :: "('o, 'b) config \<Rightarrow> bool" where
  "well_sized cfg \<longleftrightarrow> length (cfLogs cfg) = length (cfRafts cfg) \<and> length (cfApplyErr cfg) = length (cfRafts cfg)"

lemma watchCommit_found:
  "watchCommit index cmd expected seen = Inr True \<Longrightarrow>
    \<exists>c\<in>set seen. \<exists>nd. nCommitted index c = Inr (nd, cmd) \<and> 0 < nd \<and> expected \<le> nd"
  by (induction seen) (auto simp: bindE_eq_Inr_iff split: if_splits)

text \<open>
  A round of \<open>one\<close> that reached agreement: \<open>cfg\<close> is the configuration in which the servers were
  asked, \<open>seen\<close> are those in which the entries were counted.
\<close>

definition agreement_in :: "int \<Rightarrow> int \<Rightarrow> int \<Rightarrow> ('o, 'b) config \<Rightarrow> ('o, 'b) config list \<Rightarrow> bool" where
  "agreement_in cmd expected index cfg seen \<longleftrightarrow>
     (\<exists>i\<in>{0..<int (length (cfRafts cfg))}. cfConnected cfg ! nat i \<and>
       (\<exists>rf. cfRafts cfg ! nat i = Some rf \<and> state rf = Leader \<and> index = int (length (logs rf)))) \<and>
     (\<exists>c\<in>set seen. committers c index \<noteq> {} \<and> expected \<le> int (card (committers c index)) \<and>
       (\<forall>k\<in>{0..<int (length (cfRafts c))}. (cfLogs c ! nat k) index \<in> {None, Some cmd}))"


definition demoConfig :: "(unit, unit) config" where
  "demoConfig = (emptyConfig 0 2 False)\<lparr>cfRafts := [Some ((freshRaft (CmdInt 0) 2 0 MakePersister)\<lparr>state := Leader\<rparr>), None],
     cfConnected := [True, False], cfLogs := [\<lambda>_. None, \<lambda>_. None], cfApplyErr := [[], []]\<rparr>"


lemma wait_agreement:
  assumes "wait index n startTerm seen fin = Inr (Some cmd)" "well_sized fin"
  shows "n \<le> int (card (committers fin index)) \<and> (\<forall>i\<in>committers fin index. (cfLogs fin ! nat i) index = Some cmd)"
proof -
  from assms(1) obtain nd where "nCommitted index fin = Inr (nd, cmd)" "n \<le> nd"
    by (auto simp: wait_def bindE_eq_Inr_iff split: if_splits)
  with nCommitted_sound [of index fin nd cmd] assms(2) show ?thesis by (simp add: well_sized_def appliedAt_def)
qed

subsection \<open>Checking for one leader\<close>

definition claimants :: "bool list \<Rightarrow> (int \<Rightarrow> (int \<times> bool) option) \<Rightarrow> int \<Rightarrow> int \<Rightarrow> int set" where
  "claimants con obs n t = {i \<in> {0..<n}. con ! nat i \<and> obs i = Some (t, True)}"

definition leadersOf :: "(int \<times> int list) list \<Rightarrow> int \<Rightarrow> int list" where
  "leadersOf L t = (case map_of L t of None \<Rightarrow> [] | Some is \<Rightarrow> is)"

lemma fst_addLeader: "set (map fst (addLeader t i L)) = insert t (set (map fst L))"
  by (induction t i L rule: addLeader.induct) auto

lemma distinct_addLeader: "distinct (map fst L) \<Longrightarrow> distinct (map fst (addLeader t i L))"
proof (induction t i L rule: addLeader.induct)
  case (2 t i u "is" ls)
  then show ?case using fst_addLeader [of t i ls] by auto
qed simp

lemma leadersOf_addLeader: "leadersOf (addLeader t i L) u = (if u = t then leadersOf L t @ [i] else leadersOf L u)"
  by (induction t i L rule: addLeader.induct) (auto simp: leadersOf_def)

lemma addLeader_nonempty: "\<forall>(t, is)\<in>set L. is \<noteq> [] \<Longrightarrow> \<forall>(u, is)\<in>set (addLeader t i L). is \<noteq> []"
  by (induction t i L rule: addLeader.induct) auto

text \<open>After the servers \<open>dn\<close> the map holds, for each term, those that claimed it, in order.\<close>

definition seen_ok :: "bool list \<Rightarrow> (int \<Rightarrow> (int \<times> bool) option) \<Rightarrow> int list \<Rightarrow> (int \<times> int list) list \<Rightarrow> bool" where
  "seen_ok con obs dn L \<longleftrightarrow> distinct (map fst L) \<and> (\<forall>(t, is)\<in>set L. is \<noteq> []) \<and>
     (\<forall>t. leadersOf L t = filter (\<lambda>i. con ! nat i \<and> obs i = Some (t, True)) dn)"

lemma leadersSeen_ok:
  assumes "length con = nat n" "\<And>i. i \<in> {0..<n} \<Longrightarrow> con ! nat i \<Longrightarrow> obs i \<noteq> None"
  shows "\<exists>L. leadersSeen con obs n = Inr L \<and> seen_ok con obs [0..n - 1] L"
  unfolding leadersSeen_def
proof (rule foldE_rule)
  fix dn i L
  assume L: "seen_ok con obs dn L" and i: "i \<in> set [0..n - 1]"
  then have con: "go_nth con i = Inr (con ! nat i)" using assms(1) by simp
  show "\<exists>L'. bindE (go_nth con i) (\<lambda>c. if c then case obs i of None \<Rightarrow> Inl NilPointer | Some (t, isLeader) \<Rightarrow> Inr (if isLeader then addLeader t i L else L) else Inr L) = Inr L' \<and>
      seen_ok con obs (dn @ [i]) L'"
  proof (cases "con ! nat i")
    case False
    with con L show ?thesis by (simp add: seen_ok_def)
  next
    case True
    with assms(2) [of i] i obtain t b where obs: "obs i = Some (t, b)" by auto
    have "seen_ok con obs (dn @ [i]) (addLeader t i L)" if "b"
      using L True obs that distinct_addLeader [of L t i] addLeader_nonempty [of L t i] unfolding seen_ok_def leadersOf_addLeader by auto
    moreover have "seen_ok con obs (dn @ [i]) L" if "\<not> b" using L obs that by (simp add: seen_ok_def)
    ultimately show ?thesis using con True obs by simp
  qed
qed (simp add: seen_ok_def leadersOf_def)

lemma lastTermWithLeader_greatest:
  "(lastTermWithLeader L = -1 \<or> lastTermWithLeader L \<in> fst ` set L) \<and> (\<forall>t\<in>fst ` set L. t \<le> lastTermWithLeader L)"
proof -
  have "let m = fold (\<lambda>(t, _) lst. if t > lst then t else lst) L a in (m = a \<or> m \<in> fst ` set L) \<and> a \<le> m \<and> (\<forall>t\<in>fst ` set L. t \<le> m)" for a :: int
  proof (induction L arbitrary: a)
    case (Cons x L)
    show ?case using Cons.IH [of "if fst x > a then fst x else a"] by (cases x) (auto simp: Let_def split: if_splits)
  qed simp
  from this [of "-1"] show ?thesis by (simp add: lastTermWithLeader_def Let_def)
qed

lemma claimants_leadersOf:
  assumes "seen_ok con obs [0..n - 1] L"
  shows "claimants con obs n t = set (leadersOf L t)" "card (claimants con obs n t) = length (leadersOf L t)"
    "claimants con obs n t \<noteq> {} \<longleftrightarrow> t \<in> fst ` set L"
proof -
  have l: "leadersOf L t = filter (\<lambda>i. con ! nat i \<and> obs i = Some (t, True)) [0..n - 1]" using assms by (simp add: seen_ok_def)
  then show c: "claimants con obs n t = set (leadersOf L t)" by (auto simp: claimants_def)
  show "card (claimants con obs n t) = length (leadersOf L t)"
    unfolding c l by (simp only: distinct_card distinct_filter distinct_upto)
  show "claimants con obs n t \<noteq> {} \<longleftrightarrow> t \<in> fst ` set L"
  proof
    assume "claimants con obs n t \<noteq> {}"
    then have "map_of L t \<noteq> None" unfolding c by (cases "map_of L t") (simp_all add: leadersOf_def)
    then show "t \<in> fst ` set L" by (simp add: map_of_eq_None_iff)
  next
    assume "t \<in> fst ` set L"
    then obtain "is" where i: "(t, is) \<in> set L" by auto
    with assms have "map_of L t = Some is" "is \<noteq> []" by (auto simp: seen_ok_def)
    then show "claimants con obs n t \<noteq> {}" unfolding c by (simp add: leadersOf_def)
  qed
qed

text \<open>One turn: no claim, two claims of one term, or the claimant of the greatest term.\<close>

lemma oneLeaderTry_cases:
  assumes "length con = nat n" "\<And>i. i \<in> {0..<n} \<Longrightarrow> con ! nat i \<Longrightarrow> obs i \<noteq> None" "\<And>i t b. obs i = Some (t, b) \<Longrightarrow> 0 \<le> t"
  shows "oneLeaderTry con obs n = Inr None \<and> (\<forall>t. claimants con obs n t = {}) \<or>
    oneLeaderTry con obs n = Inl TestFatal \<and> (\<exists>t. 1 < card (claimants con obs n t)) \<or>
    (\<exists>l t. oneLeaderTry con obs n = Inr (Some l) \<and> claimants con obs n t = {l} \<and> (\<forall>u. card (claimants con obs n u) \<le> 1) \<and> (\<forall>u>t. claimants con obs n u = {}))"
proof -
  from leadersSeen_ok [of con n obs, OF assms(1,2)] obtain L where L: "leadersSeen con obs n = Inr L" and ok: "seen_ok con obs [0..n - 1] L" by blast
  note C = claimants_leadersOf [OF ok]
  have look: "leadersOf L t = is" if "(t, is) \<in> set L" for t "is"
    using ok that by (simp add: seen_ok_def leadersOf_def)
  consider "L = []" | t "is" where "(t, is) \<in> set L" "1 < length is" | "L \<noteq> []" "\<forall>(t, is)\<in>set L. length is \<le> 1" by fastforce
  then show ?thesis
  proof cases
    case 1
    with L C(3) show ?thesis by (simp add: oneLeaderTry_def)
  next
    case 2
    then have "oneLeaderTry con obs n = Inl TestFatal" using L by (auto simp: oneLeaderTry_def)
    moreover have "1 < card (claimants con obs n t)" unfolding C(2) look [OF 2(1)] by (rule 2(2))
    ultimately show ?thesis by blast
  next
    case 3
    let ?m = "lastTermWithLeader L"
    obtain t0 is0 where t0: "(t0, is0) \<in> set L" using 3(1) by (cases L) auto
    then have "0 \<le> t0" using C(3) [of t0] assms(3) by (force simp: claimants_def)
    with lastTermWithLeader_greatest [of L] t0 have m: "?m \<in> fst ` set L" "\<forall>t\<in>fst ` set L. t \<le> ?m" by force+
    then obtain ls where ls: "(?m, ls) \<in> set L" by auto
    have "length ls \<le> 1" using bspec [OF 3(2) ls] by simp
    moreover have "ls \<noteq> []" using ok ls by (auto simp: seen_ok_def)
    ultimately have one: "length ls = 1" by (cases ls) simp_all
    then obtain l where l: "ls = [l]" by (auto simp: length_Suc_conv)
    have "map_of L ?m = Some ls" using ok ls by (simp add: seen_ok_def)
    then have "oneLeaderTry con obs n = Inr (Some l)" using L 3 l by (auto simp: oneLeaderTry_def)
    moreover have "claimants con obs n ?m = {l}" using C(1) look [OF ls] l by simp
    moreover have "card (claimants con obs n u) \<le> 1" for u
    proof (cases "u \<in> fst ` set L")
      case True
      then obtain us where "(u, us) \<in> set L" by auto
      from look [OF this] bspec [OF 3(2) this] C(2) [of u] show ?thesis by simp
    next
      case False
      with C(3) have "claimants con obs n u = {}" by blast
      then show ?thesis by simp
    qed
    moreover have "claimants con obs n u = {}" if "?m < u" for u using C(3) [of u] m(2) that by force
    ultimately show ?thesis by blast
  qed
qed

text \<open>
  \<open>checkOneLeader\<close>. In the first of its ten iterations in which a connected server claims to be
  a leader it returns the claimant of the greatest term, provided that no term has two
  claimants; two claimants of one term, or ten iterations without a claim, fail the test.
\<close>

theorem checkOneLeader_result:
  assumes "length con = nat n" "\<And>k i. i \<in> {0..<n} \<Longrightarrow> con ! nat i \<Longrightarrow> obs k i \<noteq> None" "\<And>k i t b. obs k i = Some (t, b) \<Longrightarrow> 0 \<le> t"
  shows "checkOneLeader con obs n = Inl TestFatal \<and>
      ((\<forall>k<10. \<forall>t. claimants con (obs k) n t = {}) \<or>
       (\<exists>k<10. (\<forall>q<k. \<forall>t. claimants con (obs q) n t = {}) \<and> (\<exists>t. 1 < card (claimants con (obs k) n t)))) \<or>
    (\<exists>l t. \<exists>k<10. checkOneLeader con obs n = Inr l \<and> (\<forall>q<k. \<forall>u. claimants con (obs q) n u = {}) \<and>
      claimants con (obs k) n t = {l} \<and> (\<forall>u. card (claimants con (obs k) n u) \<le> 1) \<and> (\<forall>u>t. claimants con (obs k) n u = {}))"
proof -
  let ?quiet = "\<lambda>ob. \<forall>t. claimants con ob n t = {}"
  have cases: "oneLeaderTry con (obs k) n = Inr None \<and> ?quiet (obs k) \<or>
    oneLeaderTry con (obs k) n = Inl TestFatal \<and> (\<exists>t. 1 < card (claimants con (obs k) n t)) \<or>
    (\<exists>l t. oneLeaderTry con (obs k) n = Inr (Some l) \<and> claimants con (obs k) n t = {l} \<and> (\<forall>u. card (claimants con (obs k) n u) \<le> 1) \<and> (\<forall>u>t. claimants con (obs k) n u = {}))" for k
    by (rule oneLeaderTry_cases [OF assms(1)]) (use assms(2,3) in blast)+
  have skip: "oneLeaderLoop con (map obs ks) n = (case dropWhile (\<lambda>k. ?quiet (obs k)) ks of [] \<Rightarrow> Inl TestFatal | k # _ \<Rightarrow> oneLeaderLoop con [obs k] n)" for ks
  proof (induction ks)
    case (Cons k ks)
    from cases [of k] show ?case
    proof (elim disjE exE conjE)
      assume "oneLeaderTry con (obs k) n = Inr None" "?quiet (obs k)"
      with Cons show ?thesis by simp
    next
      fix t assume f: "oneLeaderTry con (obs k) n = Inl TestFatal" "1 < card (claimants con (obs k) n t)"
      then have "\<not> ?quiet (obs k)" by fastforce
      with f show ?thesis by auto
    next
      fix l t assume f: "oneLeaderTry con (obs k) n = Inr (Some l)" "claimants con (obs k) n t = {l}"
      then have "\<not> ?quiet (obs k)" by fastforce
      with f show ?thesis by auto
    qed
  qed simp
  define ks where "ks = dropWhile (\<lambda>k. ?quiet (obs k)) [0..<10]"
  define a where "a = length (takeWhile (\<lambda>k. ?quiet (obs k)) [0..<10])"
  have ks: "ks = drop a [0..<10]" unfolding ks_def a_def by (rule dropWhile_eq_drop)
  have before: "?quiet (obs q)" if "q < a" for q
  proof -
    have "q < 10" using that length_takeWhile_le [of "\<lambda>k. ?quiet (obs k)" "[0..<10]"] by (simp add: a_def)
    then have "takeWhile (\<lambda>k. ?quiet (obs k)) [0..<10] ! q = q" using that takeWhile_nth [of q "\<lambda>k. ?quiet (obs k)" "[0..<10]"] by (simp add: a_def)
    with nth_mem [of q "takeWhile (\<lambda>k. ?quiet (obs k)) [0..<10]"] that show ?thesis
      unfolding a_def by (metis (mono_tags, lifting) set_takeWhileD)
  qed
  have loop: "checkOneLeader con obs n = (case ks of [] \<Rightarrow> Inl TestFatal | k # _ \<Rightarrow> oneLeaderLoop con [obs k] n)"
    unfolding checkOneLeader_def ks_def by (rule skip)
  show ?thesis
  proof (cases "a < 10")
    case False
    then have "ks = []" by (simp add: ks)
    with loop before False show ?thesis by simp
  next
    case True
    have k: "ks = a # [Suc a..<10]" unfolding ks drop_upt add_0 by (rule upt_conv_Cons [OF True])
    then have "dropWhile (\<lambda>k. ?quiet (obs k)) [0..<10] \<noteq> []" "hd (dropWhile (\<lambda>k. ?quiet (obs k)) [0..<10]) = a"
      unfolding ks_def [symmetric] by simp_all
    with hd_dropWhile [OF this(1)] have "\<not> ?quiet (obs a)" by simp
    with cases [of a] consider (two) t where "oneLeaderTry con (obs a) n = Inl TestFatal" "1 < card (claimants con (obs a) n t)"
      | (single) l t where "oneLeaderTry con (obs a) n = Inr (Some l)" "claimants con (obs a) n t = {l}"
        "\<forall>u. card (claimants con (obs a) n u) \<le> 1" "\<forall>u>t. claimants con (obs a) n u = {}" by metis
    then show ?thesis
    proof cases
      case two
      then have "checkOneLeader con obs n = Inl TestFatal" by (simp add: loop k)
      with two(2) before True show ?thesis by blast
    next
      case single
      then have "checkOneLeader con obs n = Inr l" by (simp add: loop k)
      with single(2-4) before True show ?thesis by blast
    qed
  qed
qed

definition demoObs :: "nat \<Rightarrow> int \<Rightarrow> (int \<times> bool) option" where
  "demoObs k i = Some (if k = 0 then 3 else 4, k > 0 \<and> i = 1)"

theorem checkOneLeader_result_witness:
  "checkOneLeader [True, True, False] demoObs 3 = Inr 1"
proof -
  let ?con = "[True, True, False]"
  have cl: "claimants ?con (demoObs k) 3 t = (if k > 0 \<and> t = 4 then {1} else {})" for k t
    by (auto simp: claimants_def demoObs_def)
  have "checkOneLeader ?con demoObs 3 = Inl TestFatal \<and>
      ((\<forall>k<10. \<forall>t. claimants ?con (demoObs k) 3 t = {}) \<or>
       (\<exists>k<10. (\<forall>q<k. \<forall>t. claimants ?con (demoObs q) 3 t = {}) \<and> (\<exists>t. 1 < card (claimants ?con (demoObs k) 3 t)))) \<or>
    (\<exists>l t. \<exists>k<10. checkOneLeader ?con demoObs 3 = Inr l \<and> (\<forall>q<k. \<forall>u. claimants ?con (demoObs q) 3 u = {}) \<and>
      claimants ?con (demoObs k) 3 t = {l} \<and> (\<forall>u. card (claimants ?con (demoObs k) 3 u) \<le> 1) \<and> (\<forall>u>t. claimants ?con (demoObs k) 3 u = {}))"
    by (rule checkOneLeader_result) (auto simp: demoObs_def)
  then show ?thesis
  proof
    assume "checkOneLeader ?con demoObs 3 = Inl TestFatal \<and>
      ((\<forall>k<10. \<forall>t. claimants ?con (demoObs k) 3 t = {}) \<or>
       (\<exists>k<10. (\<forall>q<k. \<forall>t. claimants ?con (demoObs q) 3 t = {}) \<and> (\<exists>t. 1 < card (claimants ?con (demoObs k) 3 t))))"
    then have "(\<forall>k<10. \<forall>t. claimants ?con (demoObs k) 3 t = {}) \<or> (\<exists>k t. 1 < card (claimants ?con (demoObs k) 3 t))" by blast
    moreover have "claimants ?con (demoObs 1) 3 4 \<noteq> {}" by (simp add: cl)
    moreover have "\<not> 1 < card (claimants ?con (demoObs k) 3 t)" for k t by (simp add: cl)
    ultimately have False by (metis one_less_numeral_iff semiring_norm(76))
    then show ?thesis ..
  next
    assume "\<exists>l t. \<exists>k<10. checkOneLeader ?con demoObs 3 = Inr l \<and> (\<forall>q<k. \<forall>u. claimants ?con (demoObs q) 3 u = {}) \<and>
      claimants ?con (demoObs k) 3 t = {l} \<and> (\<forall>u. card (claimants ?con (demoObs k) 3 u) \<le> 1) \<and> (\<forall>u>t. claimants ?con (demoObs k) 3 u = {})"
    then obtain l k t where l: "checkOneLeader ?con demoObs 3 = Inr l" "claimants ?con (demoObs k) 3 t = {l}" by blast
    then have "l = 1" unfolding cl by (auto split: if_splits)
    with l(1) show ?thesis by simp
  qed
qed

subsection \<open>A candidate that still claims to be the leader\<close>

text \<open>
  \<open>GetState\<close> answers with \<open>rf.leader == rf.me\<close>. An election timer that fires while the server is
  being made the leader waits for the mutex and then starts a new election (\<open>Stop\<close> does not
  withdraw it); \<open>candidateRequestVote\<close> does not reset \<open>leader\<close>.
\<close>

lemma leader_timer_claims:
  assumes "leader rf = me rf" "candidateRequestVote no rf = Inr (rf', args)"
  shows "state rf' = Candidate \<and> GetState rf' = (currentTerm rf + 1, True)"
  using assms by (auto simp: candidateRequestVote_def Let_def bindE_eq_Inr_iff resetTimer_def GetState_def)

text \<open>
  Claim C36. Two servers can claim the leadership of the same term, although only one of them is its
  leader: in a cluster of three servers a run of elections ends with server 1 the leader of term 2
  and server 0, a candidate of term 2, still saying that it is the leader. \<open>checkOneLeader\<close> fails on
  this state.
\<close>

theorem two_servers_claim_a_term:
  "\<exists>c. reachable_from cluster_step cluster3 c \<and> state (node c 0) = Candidate \<and> GetState (node c 0) = (2, True) \<and>
    state (node c 1) = Leader \<and> GetState (node c 1) = (2, True) \<and>
    oneLeaderTry [True, True, True] (\<lambda>i. Some (GetState (node c i))) 3 = Inl TestFatal"
proof -
  let ?args1 = "\<lparr>CandidateTerm = 1, CandidateID = 0, LastLogIndex = 0, LastLogTerm = 0, RVA_MsgNo = 0\<rparr>"
  let ?args2 = "\<lparr>CandidateTerm = 2, CandidateID = 1, LastLogIndex = 0, LastLogTerm = 0, RVA_MsgNo = 2\<rparr>"
  have n: "csize cluster3 = 3" "mail cluster3 = (\<lambda>_ _ _. NoMsg)" by (simp_all add: cluster3_def)
  obtain a where a: "candidateRequestVote 0 (node cluster3 0) = Inr (a, ?args1)" "state a = Candidate" "currentTerm a = 1" "votes a 1 = 1" "peers a = 3" "node_ok a" "me a = 0"
    by (simp add: candidateRequestVote_def cluster3_def freshRaft_def lastEntry_def Let_def resetTimer_def node_ok_def log_ok_def)
  obtain b r1 where b: "RequestVote 0 ?args1 (node cluster3 1) = Inr (b, r1)" "VoteGranted r1" "currentTerm b = 1" "me b = 1" "peers b = 3" "node_ok b"
      "logs b = [\<lparr>Term = 0, Index = 0, Command = 0\<rparr>]" "state b = Follower"
    by (simp add: RequestVote_def adoptTerm_def cluster3_def freshRaft_def lastEntry_def Let_def persist_def resetTimer_def node_ok_def log_ok_def)
  define a' where "a' = becomeLeader (countVote 1 a)"
  have won1: "replyHandler 0 r1 1 a = Inr a'" unfolding a'_def by (rule replyHandler_won) (use a b in simp_all)
  have a': "leader a' = me a'" "currentTerm a' = 1" "logs a' = logs a" "me a' = 0" by (simp_all add: a'_def a becomeLeader_def)
  obtain d args where d: "candidateRequestVote 1 a' = Inr (d, args)"
    using a(6) a'(3) by (simp add: candidateRequestVote_def Let_def resetTimer_def lastEntry_def node_ok_def log_ok_def)
  note d_claims = leader_timer_claims [OF a'(1) d]
  obtain e where e: "candidateRequestVote 2 b = Inr (e, ?args2)" "state e = Candidate" "currentTerm e = 2" "votes e 2 = 1" "peers e = 3" "node_ok e" "me e = 1"
    using b by (simp add: candidateRequestVote_def lastEntry_def Let_def resetTimer_def node_ok_def log_ok_def leader_ok_def)
  obtain f r2 where f: "RequestVote 0 ?args2 (node cluster3 2) = Inr (f, r2)" "VoteGranted r2" "leader f \<noteq> me f"
    by (simp add: RequestVote_def adoptTerm_def cluster3_def freshRaft_def lastEntry_def Let_def persist_def resetTimer_def)
  define e' where "e' = becomeLeader (countVote 2 e)"
  have won2: "replyHandler 0 r2 2 e = Inr e'" unfolding e'_def by (rule replyHandler_won) (use e f in simp_all)
  define c1 where "c1 = setNode 0 a (startElection 0 ?args1 cluster3)"
  define c2 where "c2 = setNode 1 b (setMail 0 1 1 (Reply r1) c1)"
  define c3 where "c3 = setNode 0 a' (setMail 0 1 1 (Handled (VoteGranted r1)) c2)"
  define c4 where "c4 = setNode 0 d (startElection 0 args c3)"
  define c5 where "c5 = setNode 1 e (startElection 1 ?args2 c4)"
  define c6 where "c6 = setNode 2 f (setMail 1 2 2 (Reply r2) c5)"
  define c7 where "c7 = setNode 1 e' (setMail 1 2 2 (Handled (VoteGranted r2)) c6)"
  have s1: "cluster_step cluster3 c1" unfolding c1_def by (rule cluster_step.election [OF _ _ a(1)]) (simp_all add: n)
  have s2: "cluster_step c1 c2" unfolding c2_def
    by (rule cluster_step.vote [where args = ?args1 and recv = 0]) (use b(1) in \<open>simp_all add: c1_def electionMail_def n\<close>)
  have s3: "cluster_step c2 c3" unfolding c3_def
    by (rule cluster_step.vote_reply [where recv = 0]) (use won1 in \<open>simp_all add: c2_def c1_def\<close>)
  have s4: "cluster_step c3 c4" unfolding c4_def
    by (rule cluster_step.election [where no = 1]) (use d in \<open>simp_all add: c3_def c2_def c1_def n\<close>)
  have s5: "cluster_step c4 c5" unfolding c5_def
    by (rule cluster_step.election [where no = 2]) (use e(1) in \<open>simp_all add: c4_def c3_def c2_def c1_def n\<close>)
  have s6: "cluster_step c5 c6" unfolding c6_def
    by (rule cluster_step.vote [where args = ?args2 and recv = 0])
      (use f(1) in \<open>simp_all add: c5_def c4_def c3_def c2_def c1_def electionMail_def n\<close>)
  have s7: "cluster_step c6 c7" unfolding c7_def
    by (rule cluster_step.vote_reply [where recv = 0]) (use won2 in \<open>simp_all add: c6_def c5_def\<close>)
  have reach: "reachable_from cluster_step cluster3 c7"
    using s1 s2 s3 s4 s5 s6 s7 reach_start [of cluster_step cluster3] reach_step [of cluster_step cluster3] by meson
  have nodes: "node c7 0 = d" "node c7 1 = e'" "node c7 2 = f"
    by (simp_all add: c7_def c6_def c5_def c4_def)
  have e': "state e' = Leader" "GetState e' = (2, True)" by (simp_all add: e'_def e GetState_def becomeLeader_def)
  have d': "state d = Candidate" "GetState d = (2, True)" using d_claims a'(2) by simp_all
  have up: "[0..2] = [0, 1, 2 :: int]" by (simp add: upto_rec1)
  have "oneLeaderTry [True, True, True] (\<lambda>i. Some (GetState (node c7 i))) 3 = Inl TestFatal"
    using f(3) by (simp add: oneLeaderTry_def leadersSeen_def up go_nth_def nodes e' d' split: prod.split)
  with reach e' d' nodes show ?thesis by blast
qed

end
