(* ===== verification/Mr_Tasks.thy ===== *)
theory Mr_Tasks
  imports Mr_Common "HOL-Library.AList"
begin

section \<open>mapreduce: the map and the reduce task\<close>

text \<open>
  \<open>doMap\<close> and \<open>doReduce\<close> of \<open>mapreduce/common_map.go\<close> and \<open>common_reduce.go\<close> on a file system.

  A file that a JSON encoder writes is the list of the values encoded (\<open>Json\<close>); any other file
  is its text. \<open>jsonText\<close> is what the JSON file looks like as text and \<open>decodeText\<close> what a JSON
  decoder makes of a text: the values before the end or the first error, and whether it came to
  the end. Strings are byte strings that JSON can carry (valid UTF-8). \<open>writable\<close> tells where
  \<open>os.Create\<close> succeeds; a write to a created file succeeds.

  Go visits the entries of a map in an unspecified order. A \<open>range\<close> over a map takes the order
  as an argument, and the theorems hold for every order (\<open>any_order\<close>). The function a user
  hands in for the reduction may end the process, hence its result type.
\<close>

subsection \<open>Files\<close>

datatype fcontent = Text string | Json "KeyValue list"

record FS =
  files :: "string \<Rightarrow> fcontent option"
  writable :: "string \<Rightarrow> bool"
  jsonText :: "KeyValue list \<Rightarrow> string"
  decodeText :: "string \<Rightarrow> KeyValue list \<times> bool"

definition readFile :: "FS \<Rightarrow> string \<Rightarrow> string option" where
  "readFile fs name = map_option (\<lambda>c. case c of Text s \<Rightarrow> s | Json kvs \<Rightarrow> jsonText fs kvs) (files fs name)"

definition create :: "fcontent \<Rightarrow> string \<Rightarrow> FS \<Rightarrow> FS go" where
  "create c name fs = (if writable fs name then Inr (fs\<lparr>files := (files fs)(name \<mapsto> c)\<rparr>) else Inl LogFatal)"

definition decodeFile :: "FS \<Rightarrow> string \<Rightarrow> (KeyValue list \<times> bool) option" where
  "decodeFile fs name =
     map_option (\<lambda>c. case c of Json kvs \<Rightarrow> (kvs, True) | Text s \<Rightarrow> decodeText fs s) (files fs name)"

text \<open>\<open>Encode\<close> on an open file.\<close>

definition encodeTo :: "string \<Rightarrow> KeyValue \<Rightarrow> FS \<Rightarrow> FS" where
  "encodeTo name kv fs =
     fs\<lparr>files := (files fs)(name := Some (case files fs name of Some (Json kvs) \<Rightarrow> Json (kvs @ [kv]) | _ \<Rightarrow> Json [kv]))\<rparr>"

subsection \<open>The map task\<close>

definition createIntermediate :: "string \<Rightarrow> int \<Rightarrow> int \<Rightarrow> FS \<Rightarrow> FS go" where
  "createIntermediate jobName mapTask i fs = create (Json []) (reduceName jobName mapTask i) fs"

definition encodeIntermediate :: "string list \<Rightarrow> int \<Rightarrow> KeyValue \<Rightarrow> FS \<Rightarrow> FS go" where
  "encodeIntermediate json_encoders nReduce kv fs =
     (if nReduce = 0 then Inl DivideByZero
      else bindE (go_nth json_encoders (ihash (Key kv) mod nReduce)) (\<lambda>name. Inr (encodeTo name kv fs)))"

definition doMap :: "string \<Rightarrow> int \<Rightarrow> string \<Rightarrow> int \<Rightarrow> (string \<Rightarrow> string \<Rightarrow> KeyValue list) \<Rightarrow> FS \<Rightarrow> FS go" where
  "doMap jobName mapTask inFile nReduce mapF fs =
     (case readFile fs inFile of
        None \<Rightarrow> Inl LogFatal
      | Some content \<Rightarrow>
          let key_values = mapF inFile content in
          if nReduce < 0 then Inl MakeSliceLenOutOfRange
          else bindE (foldE (createIntermediate jobName mapTask) [0..nReduce - 1] fs) (\<lambda>fs.
               foldE (encodeIntermediate (map (reduceName jobName mapTask) [0..nReduce - 1]) nReduce) key_values fs))"

subsection \<open>The reduce task\<close>

definition any_order :: "('a list \<Rightarrow> 'a list) \<Rightarrow> bool" where
  "any_order rng \<longleftrightarrow> (\<forall>xs. mset (rng xs) = mset xs)"

definition addValue :: "KeyValue \<Rightarrow> (string \<times> string list) list \<Rightarrow> (string \<times> string list) list" where
  "addValue kv m = AList.update (Key kv) ((case map_of m (Key kv) of None \<Rightarrow> [] | Some vs \<Rightarrow> vs) @ [Value kv]) m"

text \<open>All the intermediate files are opened before the first one is decoded.\<close>

definition readIntermediate :: "FS \<Rightarrow> string \<Rightarrow> KeyValue list go" where
  "readIntermediate fs name =
     (case decodeFile fs name of
        None \<Rightarrow> Inl LogFatal
      | Some (kvs, complete) \<Rightarrow> if complete then Inr kvs else Inl LogFatal)"

definition openAll :: "FS \<Rightarrow> string list \<Rightarrow> unit go" where
  "openAll fs names = (if list_all (\<lambda>name. files fs name \<noteq> None) names then Inr () else Inl LogFatal)"

definition decodeInto :: "FS \<Rightarrow> string \<Rightarrow> (string \<times> string list) list \<Rightarrow> (string \<times> string list) list go" where
  "decodeInto fs name m = bindE (readIntermediate fs name) (\<lambda>kvs. Inr (fold addValue kvs m))"

definition reduceKey :: "(string \<Rightarrow> string list \<Rightarrow> string go) \<Rightarrow> string \<times> string list
    \<Rightarrow> (string \<times> string) list \<Rightarrow> (string \<times> string) list go" where
  "reduceKey reduceF p key_result = bindE (reduceF (fst p) (snd p)) (\<lambda>r. Inr (AList.update (fst p) r key_result))"

record Ranges =
  rangeValues :: "(string \<times> string list) list \<Rightarrow> (string \<times> string list) list"
  rangeResult :: "(string \<times> string) list \<Rightarrow> (string \<times> string) list"

definition doReduce :: "Ranges \<Rightarrow> string \<Rightarrow> int \<Rightarrow> string \<Rightarrow> int \<Rightarrow> (string \<Rightarrow> string list \<Rightarrow> string go) \<Rightarrow> FS \<Rightarrow> FS go" where
  "doReduce rng jobName reduceTask outFile nMap reduceF fs =
     (if nMap < 0 then Inl MakeSliceLenOutOfRange
      else let names = map (\<lambda>i. reduceName jobName i reduceTask) [0..nMap - 1] in
        bindE (openAll fs names) (\<lambda>_.
        bindE (foldE (decodeInto fs) names []) (\<lambda>key_multivalues.
        bindE (foldE (reduceKey reduceF) (rangeValues rng key_multivalues) []) (\<lambda>key_result.
        create (Json (map (\<lambda>(key, result). \<lparr>Key = key, Value = result\<rparr>) (rangeResult rng key_result))) outFile fs))))"

subsection \<open>What the map task writes\<close>

definition bucket :: "int \<Rightarrow> int \<Rightarrow> KeyValue list \<Rightarrow> KeyValue list" where
  "bucket nReduce r kvs = filter (\<lambda>kv. ihash (Key kv) mod nReduce = r) kvs"

definition same_env :: "FS \<Rightarrow> FS \<Rightarrow> bool" where
  "same_env fs fs' \<longleftrightarrow> writable fs' = writable fs \<and> jsonText fs' = jsonText fs \<and> decodeText fs' = decodeText fs"

lemma same_env_refl [simp]: "same_env fs fs"
  by (simp add: same_env_def)

lemma same_env_trans: "same_env a b \<Longrightarrow> same_env b c \<Longrightarrow> same_env a c"
  by (simp add: same_env_def)

definition mapFiles :: "string \<Rightarrow> int \<Rightarrow> int \<Rightarrow> string set" where
  "mapFiles job m nReduce = reduceName job m ` {0..<nReduce}"

lemma create_files:
  assumes "foldE (createIntermediate job m) rs fs = Inr fs'"
  shows "same_env fs fs' \<and> files fs' = (\<lambda>name. if name \<in> reduceName job m ` set rs then Some (Json []) else files fs name)"
  using assms
proof (induction rs arbitrary: fs)
  case (Cons r rs)
  then obtain fs1 where fs1: "createIntermediate job m r fs = Inr fs1" "foldE (createIntermediate job m) rs fs1 = Inr fs'"
    by (auto simp: bindE_eq_Inr_iff)
  from fs1(1) have "same_env fs fs1" "files fs1 = (files fs)(reduceName job m r \<mapsto> Json [])"
    by (auto simp: createIntermediate_def create_def same_env_def split: if_splits)
  with Cons.IH [OF fs1(2)] show ?case by (auto intro: same_env_trans)
qed simp

lemma create_succeeds:
  assumes "\<And>r. r \<in> set rs \<Longrightarrow> writable fs (reduceName job m r)"
  shows "\<exists>fs'. foldE (createIntermediate job m) rs fs = Inr fs'"
  using assms
proof (induction rs arbitrary: fs)
  case (Cons r rs)
  then show ?case by (simp add: createIntermediate_def create_def)
qed simp

lemma encode_files:
  assumes "0 < nReduce" "0 \<le> m"
    and "\<And>r. r \<in> {0..<nReduce} \<Longrightarrow> files fs (reduceName job m r) = Some (Json (old r))"
  shows "\<exists>fs'. foldE (encodeIntermediate (map (reduceName job m) [0..nReduce - 1]) nReduce) kvs fs = Inr fs' \<and> same_env fs fs' \<and>
    (\<forall>r\<in>{0..<nReduce}. files fs' (reduceName job m r) = Some (Json (old r @ bucket nReduce r kvs))) \<and>
    (\<forall>name. name \<notin> mapFiles job m nReduce \<longrightarrow> files fs' name = files fs name)"
  using assms(3)
proof (induction kvs arbitrary: fs old)
  case Nil
  then show ?case by (simp add: bucket_def)
next
  case (Cons kv kvs)
  define r0 where "r0 = ihash (Key kv) mod nReduce"
  have r0: "r0 \<in> {0..<nReduce}" using assms(1) by (simp add: r0_def)
  define fs1 where "fs1 = encodeTo (reduceName job m r0) kv fs"
  have step: "encodeIntermediate (map (reduceName job m) [0..nReduce - 1]) nReduce kv fs = Inr fs1"
    using assms(1) r0 by (simp add: encodeIntermediate_def fs1_def r0_def nth_append flip: r0_def)
  have files1: "files fs1 = (files fs)(reduceName job m r0 \<mapsto> Json (old r0 @ [kv]))"
    using Cons.prems [OF r0] by (simp add: fs1_def encodeTo_def)
  have env1: "same_env fs fs1" by (simp add: same_env_def fs1_def encodeTo_def)
  have "files fs1 (reduceName job m r) = Some (Json ((old(r0 := old r0 @ [kv])) r))" if "r \<in> {0..<nReduce}" for r
    using that r0 Cons.prems [OF that] assms(2) by (auto simp: files1 reduceName_inj)
  from Cons.IH [OF this] obtain fs' where fs':
    "foldE (encodeIntermediate (map (reduceName job m) [0..nReduce - 1]) nReduce) kvs fs1 = Inr fs'" "same_env fs1 fs'"
    "\<forall>r\<in>{0..<nReduce}. files fs' (reduceName job m r) = Some (Json ((old(r0 := old r0 @ [kv])) r @ bucket nReduce r kvs))"
    "\<forall>name. name \<notin> mapFiles job m nReduce \<longrightarrow> files fs' name = files fs1 name"
    by blast
  show ?case
  proof (intro exI conjI)
    show "foldE (encodeIntermediate (map (reduceName job m) [0..nReduce - 1]) nReduce) (kv # kvs) fs = Inr fs'"
      using step fs'(1) by simp
    show "same_env fs fs'" using env1 fs'(2) by (rule same_env_trans)
    show "\<forall>r\<in>{0..<nReduce}. files fs' (reduceName job m r) = Some (Json (old r @ bucket nReduce r (kv # kvs)))"
      using fs'(3) by (auto simp: bucket_def r0_def)
    show "\<forall>name. name \<notin> mapFiles job m nReduce \<longrightarrow> files fs' name = files fs name"
      using fs'(4) r0 by (auto simp: files1 mapFiles_def)
  qed
qed

lemma doMap_result:
  assumes "readFile fs inFile = Some content" "0 < nReduce" "0 \<le> m"
    and "\<And>r. r \<in> {0..<nReduce} \<Longrightarrow> writable fs (reduceName job m r)"
  shows "\<exists>fs'. doMap job m inFile nReduce mapF fs = Inr fs' \<and> same_env fs fs' \<and>
    (\<forall>r\<in>{0..<nReduce}. files fs' (reduceName job m r) = Some (Json (bucket nReduce r (mapF inFile content)))) \<and>
    (\<forall>name. name \<notin> mapFiles job m nReduce \<longrightarrow> files fs' name = files fs name)"
proof -
  from create_succeeds [of "[0..nReduce - 1]" fs job m] assms(4)
  obtain fs1 where fs1: "foldE (createIntermediate job m) [0..nReduce - 1] fs = Inr fs1" by auto
  note files1 = create_files [OF fs1]
  have "files fs1 (reduceName job m r) = Some (Json [])" if "r \<in> {0..<nReduce}" for r
    using files1 that by auto
  from encode_files [OF assms(2,3) this, of "mapF inFile content"] obtain fs' where fs':
    "foldE (encodeIntermediate (map (reduceName job m) [0..nReduce - 1]) nReduce) (mapF inFile content) fs1 = Inr fs'"
    "same_env fs1 fs'"
    "\<forall>r\<in>{0..<nReduce}. files fs' (reduceName job m r) = Some (Json (bucket nReduce r (mapF inFile content)))"
    "\<forall>name. name \<notin> mapFiles job m nReduce \<longrightarrow> files fs' name = files fs1 name"
    by auto
  moreover have "doMap job m inFile nReduce mapF fs = Inr fs'"
    using assms(1,2) fs1 fs'(1) by (simp add: doMap_def)
  moreover have "\<forall>name. name \<notin> mapFiles job m nReduce \<longrightarrow> files fs1 name = files fs name"
    using files1 by (auto simp: mapFiles_def)
  ultimately show ?thesis using files1 same_env_trans [of fs fs1 fs'] by auto
qed

subsection \<open>What the reduce task writes\<close>

definition valuesOf :: "string \<Rightarrow> KeyValue list \<Rightarrow> string list" where
  "valuesOf k kvs = map Value (filter (\<lambda>kv. Key kv = k) kvs)"

definition keysOf :: "KeyValue list \<Rightarrow> string set" where
  "keysOf kvs = Key ` set kvs"

definition reduction :: "(string \<Rightarrow> string list \<Rightarrow> string go) \<Rightarrow> KeyValue list \<Rightarrow> KeyValue list \<Rightarrow> bool" where
  "reduction reduceF kvs out \<longleftrightarrow> distinct (map Key out) \<and> keysOf out = keysOf kvs \<and>
     (\<forall>kv\<in>set out. reduceF (Key kv) (valuesOf (Key kv) kvs) = Inr (Value kv))"

lemma keysOf_append [simp]: "keysOf (xs @ ys) = keysOf xs \<union> keysOf ys"
  by (auto simp: keysOf_def)

lemma valuesOf_append [simp]: "valuesOf k (xs @ ys) = valuesOf k xs @ valuesOf k ys"
  by (simp add: valuesOf_def)

lemma valuesOf_none: "k \<notin> keysOf kvs \<Longrightarrow> valuesOf k kvs = []"
  by (auto simp: valuesOf_def keysOf_def filter_empty_conv)

text \<open>The map that the decoding loop builds: every key seen, with its values in the order read.\<close>

definition grouped :: "KeyValue list \<Rightarrow> (string \<times> string list) list \<Rightarrow> bool" where
  "grouped kvs m \<longleftrightarrow> distinct (map fst m) \<and> map_of m = (\<lambda>k. if k \<in> keysOf kvs then Some (valuesOf k kvs) else None)"

lemma grouped_addValue: "grouped kvs m \<Longrightarrow> grouped (kvs @ [kv]) (addValue kv m)"
proof -
  assume g: "grouped kvs m"
  then have "(case map_of m (Key kv) of None \<Rightarrow> [] | Some vs \<Rightarrow> vs) = valuesOf (Key kv) kvs"
    by (simp add: grouped_def valuesOf_none)
  moreover have "keysOf [kv] = {Key kv}" "valuesOf k [kv] = (if k = Key kv then [Value kv] else [])" for k
    by (auto simp: keysOf_def valuesOf_def)
  ultimately show ?thesis
    using g by (auto simp: grouped_def addValue_def distinct_update update_conv')
qed

lemma grouped_fold: "grouped kvs m \<Longrightarrow> grouped (kvs @ new) (fold addValue new m)"
proof (induction new arbitrary: kvs m)
  case (Cons kv new)
  from Cons.IH [OF grouped_addValue [OF Cons.prems, of kv]] show ?case by simp
qed simp

lemma decodeInto_all:
  assumes "\<And>i. i \<in> set is \<Longrightarrow> files fs (name i) = Some (Json (stored i))" "grouped kvs m"
  shows "\<exists>m'. foldE (decodeInto fs) (map name is) m = Inr m' \<and> grouped (kvs @ concat (map stored is)) m'"
  using assms
proof (induction "is" arbitrary: kvs m)
  case (Cons i "is")
  have "decodeInto fs (name i) m = Inr (fold addValue (stored i) m)"
    using Cons.prems(1) [of i] by (simp add: decodeInto_def readIntermediate_def decodeFile_def)
  moreover from Cons.IH [OF _ grouped_fold [OF Cons.prems(2), of "stored i"]] Cons.prems(1)
  obtain m' where "foldE (decodeInto fs) (map name is) (fold addValue (stored i) m) = Inr m'"
    "grouped ((kvs @ stored i) @ concat (map stored is)) m'" by auto
  ultimately show ?case by simp
qed simp

lemma update_fresh: "k \<notin> fst ` set m \<Longrightarrow> AList.update k v m = m @ [(k, v)]"
  by (induction m) auto

lemma reduceKey_all:
  assumes "\<And>p. p \<in> set ps \<Longrightarrow> reduceF (fst p) (snd p) = Inr (res p)"
    and "distinct (map fst ps)" "fst ` set ps \<inter> fst ` set acc = {}"
  shows "foldE (reduceKey reduceF) ps acc = Inr (acc @ map (\<lambda>p. (fst p, res p)) ps)"
  using assms
proof (induction ps arbitrary: acc)
  case (Cons p ps)
  have "AList.update (fst p) (res p) acc = acc @ [(fst p, res p)]"
    using Cons.prems(3) by (intro update_fresh) auto
  then have "reduceKey reduceF p acc = Inr (acc @ [(fst p, res p)])"
    using Cons.prems(1) [of p] by (simp add: reduceKey_def)
  moreover have "foldE (reduceKey reduceF) ps (acc @ [(fst p, res p)]) = Inr ((acc @ [(fst p, res p)]) @ map (\<lambda>p. (fst p, res p)) ps)"
    using Cons.prems by (intro Cons.IH) auto
  ultimately show ?case by simp
qed simp

lemma any_order_set: "any_order rng \<Longrightarrow> set (rng xs) = set xs"
  unfolding any_order_def by (metis set_mset_mset)

lemma any_order_distinct: "any_order rng \<Longrightarrow> distinct (map f (rng xs)) \<longleftrightarrow> distinct (map f xs)"
  unfolding any_order_def by (metis mset_eq_imp_distinct_iff mset_map)

definition fair_ranges :: "Ranges \<Rightarrow> bool" where
  "fair_ranges rng \<longleftrightarrow> any_order (rangeValues rng) \<and> any_order (rangeResult rng)"

lemma grouped_entry: "grouped kvs m \<Longrightarrow> p \<in> set m \<Longrightarrow> fst p \<in> keysOf kvs \<and> snd p = valuesOf (fst p) kvs"
proof -
  assume g: "grouped kvs m" and p: "p \<in> set m"
  then have "map_of m (fst p) = Some (snd p)" by (intro map_of_is_SomeI) (simp_all add: grouped_def)
  with g show ?thesis by (simp add: grouped_def split: if_splits)
qed

lemma grouped_keys: "grouped kvs m \<Longrightarrow> fst ` set m = keysOf kvs"
proof -
  assume g: "grouped kvs m"
  have "fst ` set m = dom (map_of m)" by (simp add: dom_map_of_conv_image_fst)
  with g show ?thesis by (auto simp: grouped_def dom_def split: if_splits)
qed

lemma doReduce_result:
  assumes "fair_ranges rng" "0 \<le> nMap" "writable fs outFile"
    and stored: "\<And>i. i \<in> {0..<nMap} \<Longrightarrow> files fs (reduceName job i r) = Some (Json (stored i))"
    and kvs: "kvs = concat (map stored [0..nMap - 1])"
    and ok: "\<And>k. k \<in> keysOf kvs \<Longrightarrow> isOk (reduceF k (valuesOf k kvs))"
  shows "\<exists>out. doReduce rng job r outFile nMap reduceF fs = Inr (fs\<lparr>files := (files fs)(outFile \<mapsto> Json out)\<rparr>) \<and>
    reduction reduceF kvs out"
proof -
  define names where "names = map (\<lambda>i. reduceName job i r) [0..nMap - 1]"
  have opened: "openAll fs names = Inr ()"
    using stored by (auto simp: openAll_def names_def list_all_iff)
  have "grouped [] []" by (simp add: grouped_def keysOf_def)
  from decodeInto_all [OF _ this, of "[0..nMap - 1]" fs "\<lambda>i. reduceName job i r" stored] stored
  obtain m where m: "foldE (decodeInto fs) names [] = Inr m" "grouped kvs m"
    by (auto simp: names_def kvs)
  define ps where "ps = rangeValues rng m"
  have order: "any_order (rangeValues rng)" "any_order (rangeResult rng)" using assms(1) by (simp_all add: fair_ranges_def)
  have ps: "set ps = set m" "distinct (map fst ps)"
    using any_order_set [OF order(1)] any_order_distinct [OF order(1), of fst m] m(2) by (simp_all add: ps_def grouped_def)
  define res where "res p = projr (reduceF (fst p) (snd p))" for p
  have res: "reduceF (fst p) (snd p) = Inr (res p)" if "p \<in> set ps" for p
    using ok [of "fst p"] grouped_entry [OF m(2), of p] that by (auto simp: ps(1) res_def isOk_iff)
  have result: "foldE (reduceKey reduceF) ps [] = Inr (map (\<lambda>p. (fst p, res p)) ps)"
    using reduceKey_all [of ps reduceF res "[]"] res ps(2) by simp
  define out where "out = map (\<lambda>(key, result). \<lparr>Key = key, Value = result\<rparr>) (rangeResult rng (map (\<lambda>p. (fst p, res p)) ps))"
  have set_out: "set out = (\<lambda>p. \<lparr>Key = fst p, Value = res p\<rparr>) ` set m"
    by (auto simp: out_def any_order_set [OF order(2)] ps(1) image_iff)
  have "map Key out = map fst (rangeResult rng (map (\<lambda>p. (fst p, res p)) ps))"
    by (simp add: out_def split_beta comp_def)
  then have "distinct (map Key out)"
    using any_order_distinct [OF order(2), of fst] ps(2) by (simp add: comp_def)
  moreover have "keysOf out = keysOf kvs"
    using grouped_keys [OF m(2)] by (simp add: keysOf_def set_out image_image)
  moreover have "reduceF (Key kv) (valuesOf (Key kv) kvs) = Inr (Value kv)" if "kv \<in> set out" for kv
    using that res grouped_entry [OF m(2)] by (auto simp: set_out ps(1))
  ultimately have "reduction reduceF kvs out" by (simp add: reduction_def)
  moreover have "doReduce rng job r outFile nMap reduceF fs = Inr (fs\<lparr>files := (files fs)(outFile \<mapsto> Json out)\<rparr>)"
    using assms(2,3) opened m(1) result by (simp add: doReduce_def create_def ps_def out_def flip: names_def)
  ultimately show ?thesis by blast
qed

end
