(* ===== verification/Mr_Master.thy ===== *)
theory Mr_Master
  imports Mr_Tasks
begin

section \<open>mapreduce: the master and the sequential run\<close>

text \<open>
  \<open>mapreduce/master.go\<close> (\<open>newMaster\<close>, \<open>run\<close>, \<open>Sequential\<close>, \<open>Register\<close>) and
  \<open>master_splitmerge.go\<close>. The two functions that \<open>run\<close> is given, \<open>schedule\<close> and \<open>finish\<close>, are
  its arguments here too; they work on the master and the files.

  The main result is \<open>Sequential_output\<close>: the final file has one line per key, in the order of
  the keys, with the reduction of all the values that the map function gave for it. The lemmas it
  rests on hold for the map tasks in any order and repeated, and likewise for the reduce tasks, and
  so serve the distributed run too.
\<close>

subsection \<open>The master\<close>

record Master =
  address :: string
  workers :: "string list"
  jobName :: string
  inFiles :: "string list"
  nReduceOf :: int
  stats :: "int list"
  listening :: bool
  shutdownClosed :: bool
  doneSent :: bool

definition newMaster :: "string \<Rightarrow> Master" where
  "newMaster master = \<lparr>address = master, workers = [], jobName = '''', inFiles = [], nReduceOf = 0, stats = [],
     listening = False, shutdownClosed = False, doneSent = False\<rparr>"

definition Register :: "string \<Rightarrow> Master \<Rightarrow> Master" where
  "Register worker mr = mr\<lparr>workers := workers mr @ [worker]\<rparr>"

subsection \<open>Merging\<close>

definition mergeInto :: "FS \<Rightarrow> string \<Rightarrow> (string \<times> string) list \<Rightarrow> (string \<times> string) list go" where
  "mergeInto fs p kvs =
     (case decodeFile fs p of
        None \<Rightarrow> Inl LogFatal
      | Some (vs, _) \<Rightarrow> Inr (fold (\<lambda>kv. AList.update (Key kv) (Value kv)) vs kvs))"

definition outputLine :: "string \<Rightarrow> string \<Rightarrow> string" where
  "outputLine k v = k @ '': '' @ v @ [CHR 0x0A]"

definition merge :: "(string list \<Rightarrow> string list) \<Rightarrow> Master \<Rightarrow> FS \<Rightarrow> FS go" where
  "merge rng mr fs =
     bindE (foldE (mergeInto fs) (map (mergeName (jobName mr)) [0..nReduceOf mr - 1]) []) (\<lambda>kvs.
     let keys = sort (rng (map fst kvs)) in
     create (Text (concat (map (\<lambda>k. outputLine k (the (map_of kvs k))) keys))) (outputName (jobName mr)) fs)"

subsection \<open>Removing the files of a job\<close>

definition removeFile :: "string \<Rightarrow> FS \<Rightarrow> FS go" where
  "removeFile n fs = (if files fs n = None then Inl LogFatal else Inr (fs\<lparr>files := (files fs)(n := None)\<rparr>))"

definition cleanupFiles :: "Master \<Rightarrow> FS \<Rightarrow> FS go" where
  "cleanupFiles mr fs =
     bindE (foldE removeFile (concat (map (\<lambda>i. map (reduceName (jobName mr) i) [0..nReduceOf mr - 1])
       [0..int (length (inFiles mr)) - 1])) fs) (\<lambda>fs.
     bindE (foldE removeFile (map (mergeName (jobName mr)) [0..nReduceOf mr - 1]) fs)
       (removeFile (outputName (jobName mr))))"

subsection \<open>Running a job\<close>

definition run :: "(jobPhase \<Rightarrow> Master \<times> FS \<Rightarrow> (Master \<times> FS) go) \<Rightarrow> (Master \<times> FS \<Rightarrow> (Master \<times> FS) go)
    \<Rightarrow> (string list \<Rightarrow> string list) \<Rightarrow> string \<Rightarrow> string list \<Rightarrow> int \<Rightarrow> Master \<times> FS \<Rightarrow> (Master \<times> FS) go" where
  "run schedule finish rng job fnames nreduce s =
     (let mr = (fst s)\<lparr>jobName := job, inFiles := fnames, nReduceOf := nreduce\<rparr> in
      bindE (schedule mapPhase (mr, snd s)) (\<lambda>s.
      bindE (schedule reducePhase s) (\<lambda>s.
      bindE (finish s) (\<lambda>(mr, fs).
      bindE (merge rng mr fs) (\<lambda>fs.
      Inr (mr\<lparr>doneSent := True\<rparr>, fs))))))"

definition sequentialPhase :: "(int \<Rightarrow> Ranges) \<Rightarrow> (string \<Rightarrow> string \<Rightarrow> KeyValue list) \<Rightarrow> (string \<Rightarrow> string list \<Rightarrow> string go)
    \<Rightarrow> jobPhase \<Rightarrow> Master \<times> FS \<Rightarrow> (Master \<times> FS) go" where
  "sequentialPhase rngs mapF reduceF phase s =
     (let mr = fst s in
      case phase of
        mapPhase \<Rightarrow>
          bindE (foldE (\<lambda>(i, f). doMap (jobName mr) i f (nReduceOf mr) mapF) (zip [0..int (length (inFiles mr)) - 1] (inFiles mr)) (snd s))
            (\<lambda>fs. Inr (mr, fs))
      | reducePhase \<Rightarrow>
          bindE (foldE (\<lambda>i. doReduce (rngs i) (jobName mr) i (mergeName (jobName mr) i) (int (length (inFiles mr))) reduceF)
            [0..nReduceOf mr - 1] (snd s)) (\<lambda>fs. Inr (mr, fs)))"

definition Sequential :: "(int \<Rightarrow> Ranges) \<Rightarrow> (string list \<Rightarrow> string list) \<Rightarrow> string \<Rightarrow> string list \<Rightarrow> int
    \<Rightarrow> (string \<Rightarrow> string \<Rightarrow> KeyValue list) \<Rightarrow> (string \<Rightarrow> string list \<Rightarrow> string go) \<Rightarrow> FS \<Rightarrow> (Master \<times> FS) go" where
  "Sequential rngs rng job fnames nreduce mapF reduceF fs =
     run (sequentialPhase rngs mapF reduceF)
       (\<lambda>(mr, fs). Inr (mr\<lparr>stats := [int (length fnames) + nreduce]\<rparr>, fs)) rng job fnames nreduce
       (newMaster ''master'', fs)"

subsection \<open>The specification of a job\<close>

definition contentOf :: "FS \<Rightarrow> string \<Rightarrow> string" where
  "contentOf fs f = (case readFile fs f of None \<Rightarrow> '''' | Some s \<Rightarrow> s)"

definition jobPairs :: "(string \<Rightarrow> string \<Rightarrow> KeyValue list) \<Rightarrow> FS \<Rightarrow> string list \<Rightarrow> KeyValue list" where
  "jobPairs mapF fs fnames = concat (map (\<lambda>f. mapF f (contentOf fs f)) fnames)"

definition jobOutput :: "(string \<Rightarrow> string list \<Rightarrow> string go) \<Rightarrow> KeyValue list \<Rightarrow> string" where
  "jobOutput reduceF pairs =
     concat (map (\<lambda>k. outputLine k (projr (reduceF k (valuesOf k pairs)))) (sorted_list_of_set (keysOf pairs)))"

definition jobReady :: "string \<Rightarrow> string list \<Rightarrow> int \<Rightarrow> (string \<Rightarrow> string \<Rightarrow> KeyValue list)
    \<Rightarrow> (string \<Rightarrow> string list \<Rightarrow> string go) \<Rightarrow> FS \<Rightarrow> bool" where
  "jobReady job fnames nreduce mapF reduceF fs \<longleftrightarrow> 0 < nreduce \<and>
     (\<forall>f\<in>set fnames. readFile fs f \<noteq> None \<and> (\<forall>i r. f \<noteq> reduceName job i r)) \<and>
     (\<forall>i\<in>{0..<int (length fnames)}. \<forall>r\<in>{0..<nreduce}. writable fs (reduceName job i r)) \<and>
     (\<forall>r\<in>{0..<nreduce}. writable fs (mergeName job r)) \<and> writable fs (outputName job) \<and>
     (\<forall>k\<in>keysOf (jobPairs mapF fs fnames). isOk (reduceF k (valuesOf k (jobPairs mapF fs fnames))))"

text \<open>The state of the files when a set of map tasks, then of reduce tasks, has been performed.\<close>

definition mapResults :: "string \<Rightarrow> string list \<Rightarrow> int \<Rightarrow> (string \<Rightarrow> string \<Rightarrow> KeyValue list) \<Rightarrow> FS \<Rightarrow> int set \<Rightarrow> FS \<Rightarrow> bool" where
  "mapResults job fnames nreduce mapF fs0 D fs \<longleftrightarrow> same_env fs0 fs \<and>
     (\<forall>i\<in>D. \<forall>r\<in>{0..<nreduce}. files fs (reduceName job i r) =
        Some (Json (bucket nreduce r (mapF (fnames ! nat i) (contentOf fs0 (fnames ! nat i))))))"

definition mapDone :: "string \<Rightarrow> string list \<Rightarrow> int \<Rightarrow> (string \<Rightarrow> string \<Rightarrow> KeyValue list) \<Rightarrow> FS \<Rightarrow> int set \<Rightarrow> FS \<Rightarrow> bool" where
  "mapDone job fnames nreduce mapF fs0 D fs \<longleftrightarrow> mapResults job fnames nreduce mapF fs0 D fs \<and>
     (\<forall>name. (\<forall>i r. name \<noteq> reduceName job i r) \<longrightarrow> files fs name = files fs0 name)"

definition reduceDone :: "string \<Rightarrow> int \<Rightarrow> (string \<Rightarrow> string list \<Rightarrow> string go) \<Rightarrow> KeyValue list \<Rightarrow> int set \<Rightarrow> FS \<Rightarrow> bool" where
  "reduceDone job nreduce reduceF pairs D fs \<longleftrightarrow>
     (\<forall>r\<in>D. \<exists>out. files fs (mergeName job r) = Some (Json out) \<and> reduction reduceF (bucket nreduce r pairs) out)"

lemma mapDone_start: "mapDone job fnames nreduce mapF fs {} fs"
  by (simp add: mapDone_def mapResults_def)

text \<open>One map task, whatever has been done before, and done again if it was done.\<close>

lemma mapDone_step:
  assumes ready: "jobReady job fnames nreduce mapF reduceF fs0"
    and "mapDone job fnames nreduce mapF fs0 D fs" "D \<subseteq> {0..<int (length fnames)}" "i \<in> {0..<int (length fnames)}"
  shows "\<exists>fs'. doMap job i (fnames ! nat i) nreduce mapF fs = Inr fs' \<and> mapDone job fnames nreduce mapF fs0 (insert i D) fs'"
proof -
  let ?f = "fnames ! nat i"
  have env: "same_env fs0 fs" and others: "\<And>name. (\<forall>i r. name \<noteq> reduceName job i r) \<Longrightarrow> files fs name = files fs0 name"
    using assms(2) by (auto simp: mapDone_def mapResults_def)
  have f: "?f \<in> set fnames" using assms(4) by auto
  then have "files fs ?f = files fs0 ?f" using ready others by (auto simp: jobReady_def)
  then have "readFile fs ?f = readFile fs0 ?f" using env by (simp add: readFile_def same_env_def cong: fcontent.case_cong)
  then have content: "readFile fs ?f = Some (contentOf fs0 ?f)"
    using ready f by (auto simp: jobReady_def contentOf_def)
  have "\<And>r. r \<in> {0..<nreduce} \<Longrightarrow> writable fs (reduceName job i r)"
    using ready env assms(4) by (simp add: jobReady_def same_env_def)
  with doMap_result [OF content, of nreduce i job mapF] ready assms(4)
  obtain fs' where fs': "doMap job i ?f nreduce mapF fs = Inr fs'" "same_env fs fs'"
    "\<forall>r\<in>{0..<nreduce}. files fs' (reduceName job i r) = Some (Json (bucket nreduce r (mapF ?f (contentOf fs0 ?f))))"
    "\<forall>name. name \<notin> mapFiles job i nreduce \<longrightarrow> files fs' name = files fs name"
    by (auto simp: jobReady_def)
  have "files fs' (reduceName job j r) = files fs (reduceName job j r)" if "j \<in> D" "j \<noteq> i" "r \<in> {0..<nreduce}" for j r
  proof -
    have "0 \<le> j" using that(1) assms(3) by auto
    then have "reduceName job j r \<notin> mapFiles job i nreduce"
      using that assms(4) by (auto simp: mapFiles_def reduceName_inj)
    with fs'(4) show ?thesis by blast
  qed
  note kept = this
  have "files fs' (reduceName job j r) = Some (Json (bucket nreduce r (mapF (fnames ! nat j) (contentOf fs0 (fnames ! nat j)))))"
    if "j \<in> insert i D" "r \<in> {0..<nreduce}" for j r
    using fs'(3) kept [of j r] that assms(2) by (cases "j = i") (simp_all add: mapDone_def mapResults_def)
  moreover have "files fs' name = files fs0 name" if "\<forall>i r. name \<noteq> reduceName job i r" for name
  proof -
    from that have "name \<notin> mapFiles job i nreduce" by (auto simp: mapFiles_def)
    with fs'(4) others [OF that] show ?thesis by simp
  qed
  ultimately have "mapDone job fnames nreduce mapF fs0 (insert i D) fs'"
    using same_env_trans [OF env fs'(2)] by (simp add: mapDone_def mapResults_def)
  with fs'(1) show ?thesis by blast
qed

lemma mapDone_all:
  assumes "jobReady job fnames nreduce mapF reduceF fs0" "set ts \<subseteq> {0..<int (length fnames)}"
  shows "\<exists>fs. foldE (\<lambda>i. doMap job i (fnames ! nat i) nreduce mapF) ts fs0 = Inr fs \<and>
    mapDone job fnames nreduce mapF fs0 (set ts) fs"
proof (rule foldE_rule [where I = "\<lambda>done. mapDone job fnames nreduce mapF fs0 (set done)"])
  show "mapDone job fnames nreduce mapF fs0 (set []) fs0" using mapDone_start by simp
next
  fix "done" i fs
  assume "mapDone job fnames nreduce mapF fs0 (set done) fs" "set done \<subseteq> set ts" "i \<in> set ts"
  then show "\<exists>fs'. doMap job i (fnames ! nat i) nreduce mapF fs = Inr fs' \<and> mapDone job fnames nreduce mapF fs0 (set (done @ [i])) fs'"
    using mapDone_step [OF assms(1), of "set done" fs i] subset_trans [OF _ assms(2), of "set done"] subsetD [OF assms(2), of i]
    by simp
qed

text \<open>The pairs of one reduce task are the bucket of all the pairs of the job.\<close>

lemma bucket_concat: "concat (map (\<lambda>x. bucket n r (f x)) xs) = bucket n r (concat (map f xs))"
  by (induction xs) (simp_all add: bucket_def)

lemma map_upto_nth: "map (\<lambda>i. g (xs ! nat i)) [0..int (length xs) - 1] = map g xs"
  by (rule nth_equalityI) (simp_all add: nth_append)

lemma bucket_jobPairs:
  "concat (map (\<lambda>i. bucket n r (mapF (fnames ! nat i) (contentOf fs (fnames ! nat i)))) [0..int (length fnames) - 1]) =
    bucket n r (jobPairs mapF fs fnames)"
  using map_upto_nth [of "\<lambda>f. mapF f (contentOf fs f)" fnames]
  by (simp add: bucket_concat jobPairs_def)

lemma keysOf_bucket: "keysOf (bucket n r kvs) = {k \<in> keysOf kvs. ihash k mod n = r}"
  by (auto simp: keysOf_def bucket_def)

lemma valuesOf_bucket: "ihash k mod n = r \<Longrightarrow> valuesOf k (bucket n r kvs) = valuesOf k kvs"
  unfolding valuesOf_def bucket_def filter_filter by (rule arg_cong [where f = "map Value"], rule filter_cong) auto

lemma reduceDone_step:
  assumes ready: "jobReady job fnames nreduce mapF reduceF fs0" and "fair_ranges rng"
    and maps: "mapResults job fnames nreduce mapF fs0 {0..<int (length fnames)} fs"
    and "reduceDone job nreduce reduceF (jobPairs mapF fs0 fnames) D fs" "D \<subseteq> {0..<nreduce}" "r \<in> {0..<nreduce}"
  shows "\<exists>fs'. doReduce rng job r (mergeName job r) (int (length fnames)) reduceF fs = Inr fs' \<and>
    mapResults job fnames nreduce mapF fs0 {0..<int (length fnames)} fs' \<and>
    reduceDone job nreduce reduceF (jobPairs mapF fs0 fnames) (insert r D) fs'"
proof -
  let ?pairs = "jobPairs mapF fs0 fnames"
  define kvs where "kvs = bucket nreduce r ?pairs"
  have "isOk (reduceF k (valuesOf k kvs))" if "k \<in> keysOf kvs" for k
    using that ready by (auto simp: kvs_def keysOf_bucket valuesOf_bucket jobReady_def)
  moreover have "writable fs (mergeName job r)"
    using ready maps assms(6) by (simp add: jobReady_def mapResults_def same_env_def)
  moreover have "kvs = concat (map (\<lambda>i. bucket nreduce r (mapF (fnames ! nat i) (contentOf fs0 (fnames ! nat i)))) [0..int (length fnames) - 1])"
    by (simp add: kvs_def bucket_jobPairs)
  moreover have "files fs (reduceName job i r) = Some (Json (bucket nreduce r (mapF (fnames ! nat i) (contentOf fs0 (fnames ! nat i)))))"
    if "i \<in> {0..<int (length fnames)}" for i
    using maps that assms(6) by (simp add: mapResults_def)
  ultimately obtain out where out: "reduction reduceF kvs out"
    "doReduce rng job r (mergeName job r) (int (length fnames)) reduceF fs =
      Inr (fs\<lparr>files := (files fs)(mergeName job r \<mapsto> Json out)\<rparr>)"
    using doReduce_result [OF assms(2), of "int (length fnames)" fs "mergeName job r" job r
      "\<lambda>i. bucket nreduce r (mapF (fnames ! nat i) (contentOf fs0 (fnames ! nat i)))" kvs reduceF] by auto
  let ?fs = "fs\<lparr>files := (files fs)(mergeName job r \<mapsto> Json out)\<rparr>"
  have "mapResults job fnames nreduce mapF fs0 {0..<int (length fnames)} ?fs"
    using maps by (auto simp: mapResults_def same_env_def reduceName_mergeName)
  moreover have "reduceDone job nreduce reduceF ?pairs (insert r D) ?fs"
    using assms(4,5,6) out(1) by (auto simp: reduceDone_def kvs_def mergeName_inj subset_iff)
  ultimately show ?thesis using out(2) by blast
qed

lemma reduceDone_all:
  assumes "jobReady job fnames nreduce mapF reduceF fs0" "\<And>r rng. (r, rng) \<in> set rs \<Longrightarrow> r \<in> {0..<nreduce} \<and> fair_ranges rng"
    and "mapResults job fnames nreduce mapF fs0 {0..<int (length fnames)} fs1"
  shows "\<exists>fs. foldE (\<lambda>(r, rng). doReduce rng job r (mergeName job r) (int (length fnames)) reduceF) rs fs1 = Inr fs \<and>
    mapResults job fnames nreduce mapF fs0 {0..<int (length fnames)} fs \<and>
    reduceDone job nreduce reduceF (jobPairs mapF fs0 fnames) (fst ` set rs) fs"
proof (rule foldE_rule [where I = "\<lambda>done fs. mapResults job fnames nreduce mapF fs0 {0..<int (length fnames)} fs \<and>
    reduceDone job nreduce reduceF (jobPairs mapF fs0 fnames) (fst ` set done) fs"])
  show "mapResults job fnames nreduce mapF fs0 {0..<int (length fnames)} fs1 \<and>
    reduceDone job nreduce reduceF (jobPairs mapF fs0 fnames) (fst ` set []) fs1"
    using assms(3) by (simp add: reduceDone_def)
next
  fix "done" p fs
  assume I: "mapResults job fnames nreduce mapF fs0 {0..<int (length fnames)} fs \<and>
    reduceDone job nreduce reduceF (jobPairs mapF fs0 fnames) (fst ` set done) fs" and "set done \<subseteq> set rs" "p \<in> set rs"
  moreover obtain r rng where p: "p = (r, rng)" by (cases p)
  moreover have "fst ` set done \<subseteq> {0..<nreduce}" using calculation(2) assms(2) by fastforce
  ultimately show "\<exists>fs'. (case p of (r, rng) \<Rightarrow> doReduce rng job r (mergeName job r) (int (length fnames)) reduceF) fs = Inr fs' \<and>
    mapResults job fnames nreduce mapF fs0 {0..<int (length fnames)} fs' \<and>
    reduceDone job nreduce reduceF (jobPairs mapF fs0 fnames) (fst ` set (done @ [p])) fs'"
    using reduceDone_step [OF assms(1), of rng fs "fst ` set done" r] assms(2) [of r rng] by auto
qed

text \<open>The map that \<open>merge\<close> collects.\<close>

definition merged :: "(string \<Rightarrow> string list \<Rightarrow> string go) \<Rightarrow> KeyValue list \<Rightarrow> string set \<Rightarrow> (string \<times> string) list \<Rightarrow> bool" where
  "merged reduceF pairs S m \<longleftrightarrow> distinct (map fst m) \<and> dom (map_of m) = S \<and>
     (\<forall>k v. map_of m k = Some v \<longrightarrow> reduceF k (valuesOf k pairs) = Inr v)"

lemma merged_fold:
  assumes "merged reduceF pairs S m" "\<forall>kv\<in>set out. reduceF (Key kv) (valuesOf (Key kv) pairs) = Inr (Value kv)"
  shows "merged reduceF pairs (S \<union> keysOf out) (fold (\<lambda>kv. AList.update (Key kv) (Value kv)) out m)"
  using assms
proof (induction out arbitrary: S m)
  case (Cons kv out)
  have "merged reduceF pairs (insert (Key kv) S) (AList.update (Key kv) (Value kv) m)"
    using Cons.prems by (auto simp: merged_def distinct_update update_conv')
  from Cons.IH [OF this] Cons.prems(2) show ?case by (simp add: keysOf_def)
qed (simp add: keysOf_def)

lemma mergeInto_step:
  assumes "files fs p = Some (Json out)" "reduction reduceF (bucket n r pairs) out" "merged reduceF pairs S m"
  shows "\<exists>m'. mergeInto fs p m = Inr m' \<and> merged reduceF pairs (S \<union> {k \<in> keysOf pairs. ihash k mod n = r}) m'"
proof -
  from assms(2) have keys: "keysOf out = {k \<in> keysOf pairs. ihash k mod n = r}"
    by (simp add: reduction_def keysOf_bucket)
  have "reduceF (Key kv) (valuesOf (Key kv) pairs) = Inr (Value kv)" if "kv \<in> set out" for kv
  proof -
    from that keys have "ihash (Key kv) mod n = r" by (auto simp: keysOf_def)
    with assms(2) that show ?thesis by (auto simp: reduction_def valuesOf_bucket)
  qed
  with merged_fold [OF assms(3), of out] keys assms(1) show ?thesis
    by (simp add: mergeInto_def decodeFile_def)
qed

lemma mergeInto_all:
  assumes "reduceDone job n reduceF pairs (set rs) fs" "merged reduceF pairs S m"
  shows "\<exists>m'. foldE (mergeInto fs) (map (mergeName job) rs) m = Inr m' \<and>
    merged reduceF pairs (S \<union> {k \<in> keysOf pairs. ihash k mod n \<in> set rs}) m'"
  using assms
proof (induction rs arbitrary: S m)
  case (Cons r rs)
  from Cons.prems(1) obtain out where out: "files fs (mergeName job r) = Some (Json out)" "reduction reduceF (bucket n r pairs) out"
    by (auto simp: reduceDone_def)
  from mergeInto_step [OF this Cons.prems(2)] obtain m1 where m1: "mergeInto fs (mergeName job r) m = Inr m1"
    "merged reduceF pairs (S \<union> {k \<in> keysOf pairs. ihash k mod n = r}) m1" by blast
  have "reduceDone job n reduceF pairs (set rs) fs" using Cons.prems(1) by (simp add: reduceDone_def)
  from Cons.IH [OF this m1(2)] m1(1)
  have "\<exists>m'. foldE (mergeInto fs) (map (mergeName job) (r # rs)) m = Inr m' \<and>
    merged reduceF pairs ((S \<union> {k \<in> keysOf pairs. ihash k mod n = r}) \<union> {k \<in> keysOf pairs. ihash k mod n \<in> set rs}) m'"
    by simp
  moreover have "(S \<union> {k \<in> keysOf pairs. ihash k mod n = r}) \<union> {k \<in> keysOf pairs. ihash k mod n \<in> set rs} =
    S \<union> {k \<in> keysOf pairs. ihash k mod n \<in> set (r # rs)}" by auto
  ultimately show ?case by simp
qed simp

lemma sort_distinct_keys: "distinct xs \<Longrightarrow> sort xs = sorted_list_of_set (set xs)"
  by (simp add: sorted_list_of_set_sort_remdups distinct_remdups_id)

lemma merge_output:
  assumes "reduceDone (jobName mr) (nReduceOf mr) reduceF pairs {0..<nReduceOf mr} fs" "0 < nReduceOf mr"
    and "any_order rng" "writable fs (outputName (jobName mr))"
  shows "merge rng mr fs = Inr (fs\<lparr>files := (files fs)(outputName (jobName mr) \<mapsto> Text (jobOutput reduceF pairs))\<rparr>)"
proof -
  let ?n = "nReduceOf mr"
  have "set [0..?n - 1] = {0..<?n}" by auto
  moreover have "merged reduceF pairs {} []" by (simp add: merged_def)
  ultimately obtain kvs where kvs: "foldE (mergeInto fs) (map (mergeName (jobName mr)) [0..?n - 1]) [] = Inr kvs"
    "merged reduceF pairs {k \<in> keysOf pairs. ihash k mod ?n \<in> {0..<?n}} kvs"
    using mergeInto_all [of "jobName mr" ?n reduceF pairs "[0..?n - 1]" fs "{}" "[]"] assms(1) by auto
  have "{k \<in> keysOf pairs. ihash k mod ?n \<in> {0..<?n}} = keysOf pairs" using assms(2) by auto
  with kvs(2) have m: "merged reduceF pairs (keysOf pairs) kvs" by simp
  then have keys: "distinct (map fst kvs)" "fst ` set kvs = keysOf pairs"
    by (auto simp: merged_def simp flip: dom_map_of_conv_image_fst)
  have "distinct (map id (rng (map fst kvs)))" "set (rng (map fst kvs)) = keysOf pairs"
    using any_order_distinct [OF assms(3), of id "map fst kvs"] any_order_set [OF assms(3)] keys by simp_all
  then have sorted: "sort (rng (map fst kvs)) = sorted_list_of_set (keysOf pairs)"
    by (simp add: sort_distinct_keys)
  have "the (map_of kvs k) = projr (reduceF k (valuesOf k pairs))" if "k \<in> keysOf pairs" for k
  proof -
    from m that have "k \<in> dom (map_of kvs)" by (simp add: merged_def)
    then obtain v where "map_of kvs k = Some v" using domD by metis
    with m show ?thesis by (simp add: merged_def)
  qed
  then have "concat (map (\<lambda>k. outputLine k (the (map_of kvs k))) (sorted_list_of_set (keysOf pairs))) = jobOutput reduceF pairs"
    unfolding jobOutput_def by (intro arg_cong [where f = concat] map_cong) (auto simp: keysOf_def)
  with kvs(1) sorted assms(4) show ?thesis by (simp add: merge_def create_def)
qed

subsection \<open>The sequential run\<close>

lemma zip_upto: "zip [0..int (length xs) - 1] xs = map (\<lambda>i. (i, xs ! nat i)) [0..int (length xs) - 1]"
  by (rule nth_equalityI) simp_all

lemma foldE_map: "foldE f (map g xs) s = foldE (\<lambda>x. f (g x)) xs s"
proof (induction xs arbitrary: s)
  case (Cons x xs)
  then show ?case by (cases "f (g x) s") simp_all
qed simp

text \<open>
  What every way to run a job comes to: map tasks in some order that includes each of them, then
  reduce tasks in some order that includes each of them, then \<open>merge\<close>.
\<close>

lemma tasks_then_merge:
  assumes ready: "jobReady job fnames nreduce mapF reduceF fs0"
    and ts: "set ts = {0..<int (length fnames)}"
    and rs: "fst ` set rs = {0..<nreduce}" "\<And>r rng. (r, rng) \<in> set rs \<Longrightarrow> fair_ranges rng"
  shows "\<exists>fs1 fs2. foldE (\<lambda>i. doMap job i (fnames ! nat i) nreduce mapF) ts fs0 = Inr fs1 \<and>
    foldE (\<lambda>(r, rng). doReduce rng job r (mergeName job r) (int (length fnames)) reduceF) rs fs1 = Inr fs2 \<and>
    same_env fs0 fs2 \<and> reduceDone job nreduce reduceF (jobPairs mapF fs0 fnames) {0..<nreduce} fs2"
proof -
  from mapDone_all [OF ready, of ts] ts obtain fs1 where
    fs1: "foldE (\<lambda>i. doMap job i (fnames ! nat i) nreduce mapF) ts fs0 = Inr fs1"
      "mapResults job fnames nreduce mapF fs0 {0..<int (length fnames)} fs1"
    by (auto simp: mapDone_def)
  have "r \<in> {0..<nreduce} \<and> fair_ranges rng" if "(r, rng) \<in> set rs" for r rng
    using that rs(2) rs(1) by (metis fst_conv image_eqI)
  from reduceDone_all [of job fnames nreduce mapF reduceF fs0 rs fs1, OF ready this fs1(2)] rs(1) obtain fs2 where
    "foldE (\<lambda>(r, rng). doReduce rng job r (mergeName job r) (int (length fnames)) reduceF) rs fs1 = Inr fs2"
    "mapResults job fnames nreduce mapF fs0 {0..<int (length fnames)} fs2"
    "reduceDone job nreduce reduceF (jobPairs mapF fs0 fnames) {0..<nreduce} fs2"
    by auto
  with fs1 show ?thesis by (auto simp: mapResults_def)
qed

lemma sequential_run:
  assumes "jobReady job fnames nreduce mapF reduceF fs"
    and "\<And>r. fair_ranges (rngs r)" "any_order rng"
  shows "\<exists>mr fs'. Sequential rngs rng job fnames nreduce mapF reduceF fs = Inr (mr, fs') \<and>
    doneSent mr \<and> stats mr = [int (length fnames) + nreduce] \<and>
    files fs' (outputName job) = Some (Text (jobOutput reduceF (jobPairs mapF fs fnames)))"
proof -
  have "set [0..int (length fnames) - 1] = {0..<int (length fnames)}"
    "fst ` set (map (\<lambda>r. (r, rngs r)) [0..nreduce - 1]) = {0..<nreduce}"
    by force+
  with tasks_then_merge [OF assms(1), of "[0..int (length fnames) - 1]" "map (\<lambda>r. (r, rngs r)) [0..nreduce - 1]"] assms(2)
  obtain fs1 fs2 where
    fs1: "foldE (\<lambda>i. doMap job i (fnames ! nat i) nreduce mapF) [0..int (length fnames) - 1] fs = Inr fs1" and
    fs2: "foldE (\<lambda>r. doReduce (rngs r) job r (mergeName job r) (int (length fnames)) reduceF) [0..nreduce - 1] fs1 = Inr fs2" and
    env: "same_env fs fs2" and
    done2: "reduceDone job nreduce reduceF (jobPairs mapF fs fnames) {0..<nreduce} fs2"
    by (auto simp: foldE_map)
  let ?mr = "(newMaster ''master'')\<lparr>jobName := job, inFiles := fnames, nReduceOf := nreduce, stats := [int (length fnames) + nreduce]\<rparr>"
  have "merge rng ?mr fs2 = Inr (fs2\<lparr>files := (files fs2)(outputName job \<mapsto> Text (jobOutput reduceF (jobPairs mapF fs fnames)))\<rparr>)"
    using merge_output [of ?mr reduceF "jobPairs mapF fs fnames" fs2 rng] done2 assms(1,3) env
    by (simp add: jobReady_def same_env_def)
  then have "Sequential rngs rng job fnames nreduce mapF reduceF fs =
    Inr (?mr\<lparr>doneSent := True\<rparr>, fs2\<lparr>files := (files fs2)(outputName job \<mapsto> Text (jobOutput reduceF (jobPairs mapF fs fnames)))\<rparr>)"
    using fs1 fs2 by (simp add: Sequential_def run_def sequentialPhase_def zip_upto foldE_map)
  then show ?thesis by simp
qed


definition sampleFS :: FS where
  "sampleFS = \<lparr>files = [''a'' \<mapsto> Text ''w'', ''b'' \<mapsto> Text ''w''], writable = (\<lambda>_. True),
     jsonText = (\<lambda>_. ''''), decodeText = (\<lambda>_. ([], False))\<rparr>"

definition sampleMap :: "string \<Rightarrow> string \<Rightarrow> KeyValue list" where
  "sampleMap f s = [\<lparr>Key = s, Value = f\<rparr>]"

definition sampleReduce :: "string \<Rightarrow> string list \<Rightarrow> string go" where
  "sampleReduce k vs = Inr (concat vs)"

lemma sample_ready: "jobReady ''j'' [''a'', ''b''] 3 sampleMap sampleReduce sampleFS"
  by (simp add: jobReady_def sampleFS_def sampleReduce_def readFile_def reduceName_def)

lemma sample_pairs: "jobPairs sampleMap sampleFS [''a'', ''b''] = [\<lparr>Key = ''w'', Value = ''a''\<rparr>, \<lparr>Key = ''w'', Value = ''b''\<rparr>]"
  by (simp add: jobPairs_def sampleMap_def contentOf_def sampleFS_def readFile_def)

lemma sample_output: "jobOutput sampleReduce (jobPairs sampleMap sampleFS [''a'', ''b'']) = ''w: ab'' @ [CHR 0x0A]"
  by (simp add: sample_pairs jobOutput_def keysOf_def valuesOf_def sampleReduce_def outputLine_def)

lemma any_order_id: "any_order (\<lambda>xs. xs)" "any_order rev"
  by (simp_all add: any_order_def)


end
