(* ===== verification/Mr_Schedule.thy ===== *)
theory Mr_Schedule
  imports Mr_Master
begin

section \<open>mapreduce: workers and the distributed schedule\<close>

text \<open>
  \<open>mapreduce/schedule.go\<close>, \<open>worker.go\<close>, \<open>common_rpc.go\<close> and the distributed half of \<open>master.go\<close>.

  \<open>schedule\<close> is a dispatcher goroutine, one goroutine per task handed out, and the goroutines
  that offer a worker on \<open>registerChan\<close>. Its state (\<open>Sched\<close>) holds the buffered \<open>task_chan\<close>, the
  task the dispatcher has received and not yet handed out, the senders blocked on
  \<open>registerChan\<close>, the calls in progress and the counter of the wait group; \<open>sched_step\<close> has one
  rule per communication, so that every interleaving is a run. \<open>call\<close> returns true when the
  worker has answered. When it returns false the worker may have done the task, or a part of it,
  or nothing: the files that the task writes are then arbitrary, all others are as before.
\<close>

subsection \<open>Workers\<close>

record DoTaskArgs =
  JobName :: string
  File :: string
  Phase :: jobPhase
  TaskNumber :: int
  NumOtherPhase :: int

record Parallelism =
  par_now :: int
  par_max :: int

record Worker =
  wname :: string
  MapFun :: "string \<Rightarrow> string \<Rightarrow> KeyValue list"
  ReduceFun :: "string \<Rightarrow> string list \<Rightarrow> string go"
  nRPC :: int
  nTasks :: int
  concurrent :: int
  parallelism :: "Parallelism option"
  wlistening :: bool

text \<open>The body of \<open>DoTask\<close>: the switch over the phase.\<close>

definition performTask :: "Ranges \<Rightarrow> (string \<Rightarrow> string \<Rightarrow> KeyValue list) \<Rightarrow> (string \<Rightarrow> string list \<Rightarrow> string go)
    \<Rightarrow> DoTaskArgs \<Rightarrow> FS \<Rightarrow> FS go" where
  "performTask rng mapF reduceF arg fs =
     (case Phase arg of
        mapPhase \<Rightarrow> doMap (JobName arg) (TaskNumber arg) (File arg) (NumOtherPhase arg) mapF fs
      | reducePhase \<Rightarrow> doReduce rng (JobName arg) (TaskNumber arg) (mergeName (JobName arg) (TaskNumber arg)) (NumOtherPhase arg) reduceF fs)"

definition enterParallel :: "Parallelism \<Rightarrow> Parallelism \<times> bool" where
  "enterParallel p =
     (let now = par_now p + 1; mx = (if par_max p < now then now else par_max p)
      in (\<lparr>par_now = now, par_max = mx\<rparr>, mx < 2))"

definition leaveParallel :: "Parallelism \<Rightarrow> Parallelism" where
  "leaveParallel p = p\<lparr>par_now := par_now p - 1\<rparr>"

text \<open>\<open>DoTask\<close> until it works on the task, and after it.\<close>

definition taskBegin :: "Worker \<Rightarrow> (Worker \<times> bool) go" where
  "taskBegin wk =
     (let wk = wk\<lparr>nTasks := nTasks wk + 1, concurrent := concurrent wk + 1\<rparr> in
      if 1 < concurrent wk then Inl LogFatal
      else case parallelism wk of
             None \<Rightarrow> Inr (wk, False)
           | Some p \<Rightarrow> (case enterParallel p of (p', pause) \<Rightarrow> Inr (wk\<lparr>parallelism := Some p'\<rparr>, pause)))"

definition taskEnd :: "Worker \<Rightarrow> Worker" where
  "taskEnd wk = wk\<lparr>concurrent := concurrent wk - 1, parallelism := map_option leaveParallel (parallelism wk)\<rparr>"

definition DoTask :: "Ranges \<Rightarrow> DoTaskArgs \<Rightarrow> Worker \<times> FS \<Rightarrow> (Worker \<times> FS) go" where
  "DoTask rng arg s =
     bindE (taskBegin (fst s)) (\<lambda>(wk, pause).
     bindE (performTask rng (MapFun wk) (ReduceFun wk) arg (snd s)) (\<lambda>fs.
     Inr (taskEnd wk, fs)))"

definition workerShutdown :: "Worker \<Rightarrow> Worker \<times> int" where
  "workerShutdown wk = (wk\<lparr>nRPC := 1\<rparr>, nTasks wk)"

definition newWorker :: "string \<Rightarrow> (string \<Rightarrow> string \<Rightarrow> KeyValue list) \<Rightarrow> (string \<Rightarrow> string list \<Rightarrow> string go) \<Rightarrow> int
    \<Rightarrow> Parallelism option \<Rightarrow> Worker" where
  "newWorker me mapf reducef n par = \<lparr>wname = me, MapFun = mapf, ReduceFun = reducef, nRPC = n, nTasks = 0, concurrent = 0,
     parallelism = par, wlistening = True\<rparr>"

text \<open>
  The loop of \<open>RunWorker\<close> by its program points: the test of \<open>nRPC\<close>, and \<open>Accept\<close>, whose result
  is a connection or an error. Handlers, \<open>Shutdown\<close> among them, may run between the two. A step
  yields the connection that is handed to a serving goroutine.
\<close>

datatype accept_pc = AcceptCheck | AcceptWait | AcceptDone

fun acceptStep :: "'conn option \<Rightarrow> accept_pc \<times> Worker \<Rightarrow> (accept_pc \<times> Worker) \<times> 'conn option" where
  "acceptStep res (AcceptCheck, wk) =
     (if nRPC wk = 0 then ((AcceptDone, wk\<lparr>wlistening := False\<rparr>), None) else ((AcceptWait, wk), None))"
| "acceptStep (Some conn) (AcceptWait, wk) = ((AcceptCheck, wk\<lparr>nRPC := nRPC wk - 1\<rparr>), Some conn)"
| "acceptStep None (AcceptWait, wk) = ((AcceptDone, wk\<lparr>wlistening := False\<rparr>), None)"
| "acceptStep res (AcceptDone, wk) = ((AcceptDone, wk), None)"

text \<open>\<open>RunWorker\<close> until its loop: \<open>Listen\<close> may fail, and the call of \<open>register\<close> may not reach the master.\<close>

definition register :: "bool \<Rightarrow> Worker \<Rightarrow> Master \<Rightarrow> Master" where
  "register reached wk mr = (if reached then Register (wname wk) mr else mr)"

definition RunWorker :: "bool \<Rightarrow> bool \<Rightarrow> string \<Rightarrow> (string \<Rightarrow> string \<Rightarrow> KeyValue list)
    \<Rightarrow> (string \<Rightarrow> string list \<Rightarrow> string go) \<Rightarrow> int \<Rightarrow> Parallelism option \<Rightarrow> Master \<Rightarrow> (Master \<times> accept_pc \<times> Worker) go" where
  "RunWorker listens reached me mapf reducef n par mr =
     (let wk = newWorker me mapf reducef n par in
      if \<not> listens then Inl LogFatal else Inr (register reached wk mr, AcceptCheck, wk))"

subsection \<open>The end of a distributed run\<close>

text \<open>\<open>rpc w\<close> is the reply of the worker \<open>w\<close> to \<open>Shutdown\<close>, if there is one.\<close>

definition killWorkers :: "(string \<Rightarrow> int option) \<Rightarrow> Master \<Rightarrow> int list" where
  "killWorkers rpc mr = concat (map (\<lambda>w. case rpc w of None \<Rightarrow> [] | Some n \<Rightarrow> [n]) (workers mr))"

definition masterShutdown :: "Master \<Rightarrow> Master go" where
  "masterShutdown mr =
     (if shutdownClosed mr then Inl CloseOfClosedChannel
      else Inr (mr\<lparr>shutdownClosed := True, listening := False\<rparr>))"

definition stopRPCServer :: "bool \<Rightarrow> Master \<Rightarrow> Master go" where
  "stopRPCServer reached mr = (if reached then masterShutdown mr else Inr mr)"

definition startRPCServer :: "bool \<Rightarrow> Master \<Rightarrow> Master go" where
  "startRPCServer listens mr = (if listens then Inr (mr\<lparr>listening := True\<rparr>) else Inl LogFatal)"

definition finishDistributed :: "(string \<Rightarrow> int option) \<Rightarrow> bool \<Rightarrow> Master \<times> FS \<Rightarrow> (Master \<times> FS) go" where
  "finishDistributed rpc reached s =
     bindE (stopRPCServer reached ((fst s)\<lparr>stats := killWorkers rpc (fst s)\<rparr>)) (\<lambda>mr. Inr (mr, snd s))"

text \<open>A turn of \<open>forwardRegistrations\<close>: the worker it starts to offer, if there is a new one.\<close>

definition forwardRegistrations :: "Master \<Rightarrow> nat \<Rightarrow> (nat \<times> string) option" where
  "forwardRegistrations mr i = (if i < length (workers mr) then Some (i + 1, workers mr ! i) else None)"

subsection \<open>The schedule of a phase\<close>

definition nTasksOf :: "Master \<Rightarrow> jobPhase \<Rightarrow> int" where
  "nTasksOf mr phase = (case phase of mapPhase \<Rightarrow> int (length (inFiles mr)) | reducePhase \<Rightarrow> nReduceOf mr)"

definition nOther :: "Master \<Rightarrow> jobPhase \<Rightarrow> int" where
  "nOther mr phase = (case phase of mapPhase \<Rightarrow> nReduceOf mr | reducePhase \<Rightarrow> int (length (inFiles mr)))"

definition taskArgs :: "Master \<Rightarrow> jobPhase \<Rightarrow> int \<Rightarrow> DoTaskArgs go" where
  "taskArgs mr phase task_no =
     (let args = \<lparr>JobName = jobName mr, File = '''', Phase = phase, TaskNumber = task_no, NumOtherPhase = nOther mr phase\<rparr> in
      if phase = mapPhase then bindE (go_nth (inFiles mr) task_no) (\<lambda>f. Inr (args\<lparr>File := f\<rparr>)) else Inr args)"

record Sched =
  task_chan :: "int list"
  held :: "int option"
  registerChan :: "string list"
  known :: "string list"
  calls :: "(DoTaskArgs \<times> string) list"
  wg :: int
  returned :: bool
  disk :: FS

definition scheduleStart :: "Master \<Rightarrow> jobPhase \<Rightarrow> FS \<Rightarrow> Sched go" where
  "scheduleStart mr phase fs =
     (if nTasksOf mr phase < 0 then Inl MakeSliceLenOutOfRange
      else Inr \<lparr>task_chan = [0..nTasksOf mr phase - 1], held = None, registerChan = [], known = [],
        calls = [], wg = nTasksOf mr phase, returned = False, disk = fs\<rparr>)"

text \<open>The files that a task writes.\<close>

definition taskOutputs :: "DoTaskArgs \<Rightarrow> string set" where
  "taskOutputs arg =
     (case Phase arg of
        mapPhase \<Rightarrow> mapFiles (JobName arg) (TaskNumber arg) (NumOtherPhase arg)
      | reducePhase \<Rightarrow> {mergeName (JobName arg) (TaskNumber arg)})"

definition differsOnly :: "string set \<Rightarrow> FS \<Rightarrow> FS \<Rightarrow> bool" where
  "differsOnly S fs fs' \<longleftrightarrow> same_env fs fs' \<and> (\<forall>name. name \<notin> S \<longrightarrow> files fs' name = files fs name)"

text \<open>
  \<open>offer\<close> is \<open>forwardRegistrations\<close> starting to offer a worker that has just registered (each
  address registers once); \<open>take_task\<close> and \<open>assign\<close> are the two receives of the dispatcher;
  \<open>succeed\<close> and \<open>fail\<close> are the two results of \<open>call\<close>; \<open>finish\<close> is \<open>wg.Wait\<close> returning and the
  dispatcher receiving from \<open>task_completed\<close>.
\<close>

inductive sched_step :: "(string \<Rightarrow> string \<Rightarrow> KeyValue list) \<Rightarrow> (string \<Rightarrow> string list \<Rightarrow> string go) \<Rightarrow> Master \<Rightarrow> jobPhase
    \<Rightarrow> Sched \<Rightarrow> Sched \<Rightarrow> bool"
  for mapF :: "string \<Rightarrow> string \<Rightarrow> KeyValue list" and reduceF :: "string \<Rightarrow> string list \<Rightarrow> string go"
    and mr :: Master and phase :: jobPhase where
  offer: "w \<notin> set (known s) \<Longrightarrow>
    sched_step mapF reduceF mr phase s (s\<lparr>known := w # known s, registerChan := registerChan s @ [w]\<rparr>)"
| take_task: "\<not> returned s \<Longrightarrow> held s = None \<Longrightarrow> task_chan s = t # q \<Longrightarrow>
    sched_step mapF reduceF mr phase s (s\<lparr>held := Some t, task_chan := q\<rparr>)"
| assign: "held s = Some t \<Longrightarrow> w \<in> set (registerChan s) \<Longrightarrow> taskArgs mr phase t = Inr args \<Longrightarrow>
    sched_step mapF reduceF mr phase s
      (s\<lparr>held := None, registerChan := remove1 w (registerChan s), calls := calls s @ [(args, w)]\<rparr>)"
| succeed: "(args, w) \<in> set (calls s) \<Longrightarrow> fair_ranges rng \<Longrightarrow> performTask rng mapF reduceF args (disk s) = Inr fs' \<Longrightarrow>
    sched_step mapF reduceF mr phase s
      (s\<lparr>calls := remove1 (args, w) (calls s), wg := wg s - 1, registerChan := registerChan s @ [w], disk := fs'\<rparr>)"
| fail: "(args, w) \<in> set (calls s) \<Longrightarrow> differsOnly (taskOutputs args) (disk s) fs' \<Longrightarrow>
    sched_step mapF reduceF mr phase s
      (s\<lparr>calls := remove1 (args, w) (calls s), task_chan := task_chan s @ [TaskNumber args], disk := fs'\<rparr>)"
| finish: "wg s = 0 \<Longrightarrow> held s = None \<Longrightarrow> \<not> returned s \<Longrightarrow>
    sched_step mapF reduceF mr phase s (s\<lparr>returned := True\<rparr>)"

subsection \<open>The invariant of the schedule\<close>

definition pendingTasks :: "Sched \<Rightarrow> int list" where
  "pendingTasks s = task_chan s @ (case held s of None \<Rightarrow> [] | Some t \<Rightarrow> [t]) @ map (TaskNumber \<circ> fst) (calls s)"

definition busyWorkers :: "Sched \<Rightarrow> string list" where
  "busyWorkers s = registerChan s @ map snd (calls s)"

definition taskSet :: "Master \<Rightarrow> jobPhase \<Rightarrow> int set" where
  "taskSet mr phase = {0..<nTasksOf mr phase}"

definition sched_ok :: "Master \<Rightarrow> jobPhase \<Rightarrow> (int set \<Rightarrow> FS \<Rightarrow> bool) \<Rightarrow> Sched \<Rightarrow> bool" where
  "sched_ok mr phase completed s \<longleftrightarrow>
     distinct (pendingTasks s) \<and> set (pendingTasks s) \<subseteq> taskSet mr phase \<and> wg s = int (length (pendingTasks s)) \<and>
     distinct (busyWorkers s) \<and> set (busyWorkers s) \<subseteq> set (known s) \<and>
     (\<forall>args w. (args, w) \<in> set (calls s) \<longrightarrow> taskArgs mr phase (TaskNumber args) = Inr args) \<and>
     completed (taskSet mr phase - set (pendingTasks s)) (disk s) \<and> (returned s \<longrightarrow> pendingTasks s = [])"

lemma taskArgs_number: "taskArgs mr phase t = Inr args \<Longrightarrow> TaskNumber args = t"
  by (auto simp: taskArgs_def Let_def bindE_eq_Inr_iff split: if_splits)

lemma taskArgs_ok: "t \<in> taskSet mr phase \<Longrightarrow> isOk (taskArgs mr phase t)"
  by (auto simp: taskArgs_def taskSet_def nTasksOf_def Let_def split: jobPhase.splits)

text \<open>How each communication moves tasks and workers.\<close>

lemma mset_map_remove1: "x \<in> set xs \<Longrightarrow> mset (map f xs) = add_mset (f x) (mset (map f (remove1 x xs)))"
  by (induction xs) auto

lemma pending_moves:
  "held s = None \<Longrightarrow> task_chan s = t # q \<Longrightarrow> mset (pendingTasks (s\<lparr>held := Some t, task_chan := q\<rparr>)) = mset (pendingTasks s)"
  "held s = Some t \<Longrightarrow> TaskNumber args = t \<Longrightarrow>
    mset (pendingTasks (s\<lparr>held := None, registerChan := ws, calls := calls s @ [(args, w)]\<rparr>)) = mset (pendingTasks s)"
  "(args, w) \<in> set (calls s) \<Longrightarrow>
    mset (pendingTasks s) = add_mset (TaskNumber args)
      (mset (pendingTasks (s\<lparr>calls := remove1 (args, w) (calls s), wg := n, registerChan := ws, disk := fs\<rparr>)))"
  "(args, w) \<in> set (calls s) \<Longrightarrow>
    mset (pendingTasks (s\<lparr>calls := remove1 (args, w) (calls s), task_chan := task_chan s @ [TaskNumber args], disk := fs\<rparr>)) =
      mset (pendingTasks s)"
  using mset_map_remove1 [of "(args, w)" "calls s" "TaskNumber \<circ> fst"]
  by (auto simp: pendingTasks_def simp del: mset_map split: option.splits)

lemma busy_moves:
  "w \<in> set (registerChan s) \<Longrightarrow>
    mset (busyWorkers (s\<lparr>held := None, registerChan := remove1 w (registerChan s), calls := calls s @ [(args, w)]\<rparr>)) = mset (busyWorkers s)"
  "(args, w) \<in> set (calls s) \<Longrightarrow>
    mset (busyWorkers (s\<lparr>calls := remove1 (args, w) (calls s), wg := n, registerChan := registerChan s @ [w], disk := fs\<rparr>)) = mset (busyWorkers s)"
  "(args, w) \<in> set (calls s) \<Longrightarrow>
    mset (busyWorkers s) = add_mset w (mset (busyWorkers (s\<lparr>calls := remove1 (args, w) (calls s), task_chan := ts, disk := fs\<rparr>)))"
  using mset_map_remove1 [of "(args, w)" "calls s" snd]
  by (auto simp: busyWorkers_def simp del: mset_map)

lemma distinct_submset: "mset xs \<subseteq># mset ys \<Longrightarrow> distinct ys \<Longrightarrow> distinct xs"
proof -
  assume "mset xs \<subseteq># mset ys" "distinct ys"
  then obtain zs where "mset ys = mset (xs @ zs)" by (metis ex_mset mset_append mset_subset_eq_exists_conv)
  from mset_eq_imp_distinct_iff [OF this] \<open>distinct ys\<close> show ?thesis by simp
qed

text \<open>
  What the schedule relies on: performing a task adds it to the tasks completed, even if it had
  been performed before, and a failed attempt at a task that is not completed leaves the others
  completed.
\<close>

locale phase_files =
  fixes mapF :: "string \<Rightarrow> string \<Rightarrow> KeyValue list" and reduceF :: "string \<Rightarrow> string list \<Rightarrow> string go"
    and mr :: Master and phase :: jobPhase and completed :: "int set \<Rightarrow> FS \<Rightarrow> bool"
  assumes perform_completes: "completed D fs \<Longrightarrow> D \<subseteq> taskSet mr phase \<Longrightarrow> t \<in> taskSet mr phase \<Longrightarrow>
      taskArgs mr phase t = Inr args \<Longrightarrow> fair_ranges rng \<Longrightarrow>
      \<exists>fs'. performTask rng mapF reduceF args fs = Inr fs' \<and> completed (insert t D) fs'"
    and failure_keeps: "completed D fs \<Longrightarrow> D \<subseteq> taskSet mr phase \<Longrightarrow> t \<in> taskSet mr phase \<Longrightarrow> t \<notin> D \<Longrightarrow>
      taskArgs mr phase t = Inr args \<Longrightarrow> differsOnly (taskOutputs args) fs fs' \<Longrightarrow> completed D fs'"
begin

lemma sched_ok_cong:
  assumes "sched_ok mr phase completed s" "mset (pendingTasks t) = mset (pendingTasks s)" "mset (busyWorkers t) \<subseteq># mset (busyWorkers s)"
    and "known t = known s" "wg t = wg s" "completed (taskSet mr phase - set (pendingTasks s)) (disk t)" "returned t = returned s"
    and "\<And>args w. (args, w) \<in> set (calls t) \<Longrightarrow> taskArgs mr phase (TaskNumber args) = Inr args"
  shows "sched_ok mr phase completed t"
proof -
  have tasks: "set (pendingTasks t) = set (pendingTasks s)" "distinct (pendingTasks t) = distinct (pendingTasks s)"
    "length (pendingTasks t) = length (pendingTasks s)"
    using mset_eq_setD [OF assms(2)] mset_eq_imp_distinct_iff [OF assms(2)] mset_eq_length [OF assms(2)] by simp_all
  have "set (busyWorkers t) \<subseteq> set (busyWorkers s)" using set_mset_mono [OF assms(3)] by simp
  then show ?thesis using assms tasks distinct_submset [OF assms(3)] by (auto simp: sched_ok_def)
qed

lemma sched_ok_calls: "sched_ok mr phase completed s \<Longrightarrow> (args, w) \<in> set (calls s) \<Longrightarrow>
    taskArgs mr phase (TaskNumber args) = Inr args \<and> TaskNumber args \<in> set (pendingTasks s) \<and> TaskNumber args \<in> taskSet mr phase"
proof -
  assume ok: "sched_ok mr phase completed s" and call: "(args, w) \<in> set (calls s)"
  from call have "TaskNumber args \<in> set (map (TaskNumber \<circ> fst) (calls s))" by (auto simp: image_iff intro!: bexI [of _ "(args, w)"])
  then have pending: "TaskNumber args \<in> set (pendingTasks s)" by (simp add: pendingTasks_def)
  moreover have "taskArgs mr phase (TaskNumber args) = Inr args" using ok call unfolding sched_ok_def by blast
  moreover have "set (pendingTasks s) \<subseteq> taskSet mr phase" using ok by (simp add: sched_ok_def)
  ultimately show ?thesis by blast
qed

lemma sched_ok_succeed:
  assumes ok: "sched_ok mr phase completed s" and call: "(args, w) \<in> set (calls s)" and "fair_ranges rng"
    and fs': "performTask rng mapF reduceF args (disk s) = Inr fs'"
  shows "sched_ok mr phase completed
    (s\<lparr>calls := remove1 (args, w) (calls s), wg := wg s - 1, registerChan := registerChan s @ [w], disk := fs'\<rparr>)"
    (is "sched_ok mr phase completed ?t")
proof -
  let ?n = "TaskNumber args"
  note task = sched_ok_calls [OF ok call]
  note moved = pending_moves(3) [OF call, where n = "wg s - 1" and ws = "registerChan s @ [w]" and fs = fs']
  have busy: "mset (busyWorkers ?t) = mset (busyWorkers s)" by (rule busy_moves(2) [OF call])
  have dist: "distinct (pendingTasks s)" using ok by (simp add: sched_ok_def)
  then have fresh: "distinct (?n # pendingTasks ?t)"
    using mset_eq_imp_distinct_iff [of "pendingTasks s" "?n # pendingTasks ?t"] moved by simp
  have sets: "set (pendingTasks s) = insert ?n (set (pendingTasks ?t))"
    using mset_eq_setD [of "pendingTasks s" "?n # pendingTasks ?t"] moved by simp
  have len: "length (pendingTasks s) = Suc (length (pendingTasks ?t))"
    using mset_eq_length [of "pendingTasks s" "?n # pendingTasks ?t"] moved by simp
  have "completed (insert ?n (taskSet mr phase - set (pendingTasks s))) fs'"
    using perform_completes [of "taskSet mr phase - set (pendingTasks s)" "disk s" ?n args rng] ok task assms(3) fs'
    by (auto simp: sched_ok_def)
  moreover have "insert ?n (taskSet mr phase - set (pendingTasks s)) = taskSet mr phase - set (pendingTasks ?t)"
    using task fresh sets by auto
  ultimately have completed_t: "completed (taskSet mr phase - set (pendingTasks ?t)) (disk ?t)" by simp
  have "set (calls ?t) \<subseteq> set (calls s)" by (simp add: set_remove1_subset)
  then have args_ok: "\<forall>a v. (a, v) \<in> set (calls ?t) \<longrightarrow> taskArgs mr phase (TaskNumber a) = Inr a"
    using sched_ok_calls [OF ok] by blast
  have "\<not> returned s" using ok task by (auto simp: sched_ok_def)
  then show ?thesis
    using ok fresh sets len completed_t args_ok mset_eq_setD [OF busy] mset_eq_imp_distinct_iff [OF busy]
    unfolding sched_ok_def by simp
qed

lemma sched_ok_fail:
  assumes ok: "sched_ok mr phase completed s" and call: "(args, w) \<in> set (calls s)"
    and fs': "differsOnly (taskOutputs args) (disk s) fs'"
  shows "sched_ok mr phase completed
    (s\<lparr>calls := remove1 (args, w) (calls s), task_chan := task_chan s @ [TaskNumber args], disk := fs'\<rparr>)"
proof (rule sched_ok_cong [OF ok pending_moves(4) [OF call]])
  note task = sched_ok_calls [OF ok call]
  then have "completed (taskSet mr phase - set (pendingTasks s)) fs'"
    using failure_keeps [OF _ _ _ _ _ fs', of "taskSet mr phase - set (pendingTasks s)" "TaskNumber args"] ok
    by (auto simp: sched_ok_def)
  then show "completed (taskSet mr phase - set (pendingTasks s))
    (disk (s\<lparr>calls := remove1 (args, w) (calls s), task_chan := task_chan s @ [TaskNumber args], disk := fs'\<rparr>))" by simp
next
  show "mset (busyWorkers (s\<lparr>calls := remove1 (args, w) (calls s), task_chan := task_chan s @ [TaskNumber args], disk := fs'\<rparr>)) \<subseteq># mset (busyWorkers s)"
    using busy_moves(3) [OF call, where ts = "task_chan s @ [TaskNumber args]" and fs = fs'] by simp
next
  fix a v
  assume "(a, v) \<in> set (calls (s\<lparr>calls := remove1 (args, w) (calls s), task_chan := task_chan s @ [TaskNumber args], disk := fs'\<rparr>))"
  then have "(a, v) \<in> set (calls s)" using set_remove1_subset by fastforce
  with sched_ok_calls [OF ok] show "taskArgs mr phase (TaskNumber a) = Inr a" by blast
qed simp_all

lemma sched_ok_step:
  assumes "sched_ok mr phase completed s" "sched_step mapF reduceF mr phase s t"
  shows "sched_ok mr phase completed t"
  using assms(2)
proof cases
  case (offer w)
  moreover have "pendingTasks t = pendingTasks s" "busyWorkers t = registerChan s @ w # map snd (calls s)"
    by (simp_all add: offer pendingTasks_def busyWorkers_def)
  ultimately show ?thesis using assms(1) by (auto simp: sched_ok_def busyWorkers_def)
next
  case (take_task n q)
  show ?thesis unfolding take_task(1)
    by (rule sched_ok_cong [OF assms(1) pending_moves(1)])
      (use take_task assms(1) in \<open>auto simp: busyWorkers_def sched_ok_def\<close>)
next
  case (assign n w args)
  show ?thesis unfolding assign(1)
  proof (rule sched_ok_cong [OF assms(1) pending_moves(2)])
    show "completed (taskSet mr phase - set (pendingTasks s))
      (disk (s\<lparr>held := None, registerChan := remove1 w (registerChan s), calls := calls s @ [(args, w)]\<rparr>))"
      using assms(1) by (simp add: sched_ok_def)
  next
    fix a v
    assume "(a, v) \<in> set (calls (s\<lparr>held := None, registerChan := remove1 w (registerChan s), calls := calls s @ [(args, w)]\<rparr>))"
    then have "(a, v) \<in> set (calls s) \<or> a = args" by auto
    then show "taskArgs mr phase (TaskNumber a) = Inr a"
      using sched_ok_calls [OF assms(1)] assign(4) taskArgs_number [OF assign(4)] by auto
  qed (use assign busy_moves(1) [of w s args] taskArgs_number [OF assign(4)] in simp_all)
next
  case (succeed args w rng fs')
  with sched_ok_succeed [OF assms(1)] show ?thesis by simp
next
  case (fail args w fs')
  with sched_ok_fail [OF assms(1)] show ?thesis by simp
next
  case finish
  then have "pendingTasks s = []" using assms(1) by (simp add: sched_ok_def)
  moreover have "pendingTasks t = pendingTasks s" "busyWorkers t = busyWorkers s"
    by (simp_all add: finish pendingTasks_def busyWorkers_def)
  ultimately show ?thesis using assms(1) finish by (simp add: sched_ok_def)
qed

end

subsection \<open>The two phases\<close>

definition mapCompleted :: "(string \<Rightarrow> string \<Rightarrow> KeyValue list) \<Rightarrow> (string \<Rightarrow> string list \<Rightarrow> string go) \<Rightarrow> Master \<Rightarrow> FS \<Rightarrow> int set \<Rightarrow> FS \<Rightarrow> bool" where
  "mapCompleted mapF reduceF mr fs0 D fs \<longleftrightarrow>
     jobReady (jobName mr) (inFiles mr) (nReduceOf mr) mapF reduceF fs0 \<and>
     mapDone (jobName mr) (inFiles mr) (nReduceOf mr) mapF fs0 D fs"

definition reduceCompleted :: "(string \<Rightarrow> string \<Rightarrow> KeyValue list) \<Rightarrow> (string \<Rightarrow> string list \<Rightarrow> string go) \<Rightarrow> Master \<Rightarrow> FS \<Rightarrow> int set \<Rightarrow> FS \<Rightarrow> bool" where
  "reduceCompleted mapF reduceF mr fs0 D fs \<longleftrightarrow>
     jobReady (jobName mr) (inFiles mr) (nReduceOf mr) mapF reduceF fs0 \<and>
     mapResults (jobName mr) (inFiles mr) (nReduceOf mr) mapF fs0 {0..<int (length (inFiles mr))} fs \<and>
     reduceDone (jobName mr) (nReduceOf mr) reduceF (jobPairs mapF fs0 (inFiles mr)) D fs"

lemma mapArgs: "taskArgs mr mapPhase t = Inr args \<Longrightarrow> t \<in> taskSet mr mapPhase \<Longrightarrow>
    args = \<lparr>JobName = jobName mr, File = inFiles mr ! nat t, Phase = mapPhase, TaskNumber = t, NumOtherPhase = nReduceOf mr\<rparr>"
  by (simp add: taskArgs_def taskSet_def nTasksOf_def nOther_def)

lemma reduceArgs: "taskArgs mr reducePhase t = Inr args \<Longrightarrow>
    args = \<lparr>JobName = jobName mr, File = '''', Phase = reducePhase, TaskNumber = t, NumOtherPhase = int (length (inFiles mr))\<rparr>"
  by (simp add: taskArgs_def nOther_def)

lemma other_map_files:
  assumes "0 \<le> i" "0 \<le> t" "i \<noteq> t" "0 \<le> r"
  shows "reduceName job i r \<notin> mapFiles job t n"
  using assms by (auto simp: mapFiles_def reduceName_inj)

interpretation map_phase: phase_files mapF reduceF mr mapPhase "mapCompleted mapF reduceF mr fs0" for mapF reduceF mr fs0
proof (unfold_locales, goal_cases)
  case (1 D fs t args rng)
  from 1(1,2,3) mapDone_step [of "jobName mr" "inFiles mr" "nReduceOf mr" mapF reduceF fs0 D fs t] mapArgs [OF 1(4,3)]
  show ?case by (simp add: mapCompleted_def performTask_def taskSet_def nTasksOf_def)
next
  case (2 D fs t args fs')
  have env: "same_env fs0 fs'" "\<And>name. name \<notin> mapFiles (jobName mr) t (nReduceOf mr) \<Longrightarrow> files fs' name = files fs name"
    using 2(1,6) mapArgs [OF 2(5,3)] same_env_trans [of fs0 fs fs']
    by (simp_all add: differsOnly_def taskOutputs_def mapCompleted_def mapDone_def mapResults_def)
  have "files fs' (reduceName (jobName mr) i r) = files fs (reduceName (jobName mr) i r)" if "i \<in> D" "r \<in> {0..<nReduceOf mr}" for i r
  proof -
    from that 2(2,3,4) have "0 \<le> i" "0 \<le> t" "i \<noteq> t" "0 \<le> r" by (auto simp: taskSet_def)
    then show ?thesis by (intro env(2) other_map_files)
  qed
  moreover have "files fs' name = files fs name" if "\<forall>i r. name \<noteq> reduceName (jobName mr) i r" for name
    using env(2) [of name] that by (auto simp: mapFiles_def)
  ultimately show ?case using 2(1) env(1) by (simp add: mapCompleted_def mapDone_def mapResults_def)
qed

interpretation reduce_phase: phase_files mapF reduceF mr reducePhase "reduceCompleted mapF reduceF mr fs0" for mapF reduceF mr fs0
proof (unfold_locales, goal_cases)
  case (1 D fs t args rng)
  then show ?case
    using reduceDone_step [of "jobName mr" "inFiles mr" "nReduceOf mr" mapF reduceF fs0 rng fs D t] reduceArgs [OF 1(4)]
    by (simp add: reduceCompleted_def performTask_def taskSet_def nTasksOf_def)
next
  case (2 D fs t args fs')
  have env: "same_env fs0 fs'" "\<And>name. name \<noteq> mergeName (jobName mr) t \<Longrightarrow> files fs' name = files fs name"
    using 2(1,6) reduceArgs [OF 2(5)] same_env_trans [of fs0 fs fs']
    by (simp_all add: differsOnly_def taskOutputs_def reduceCompleted_def mapResults_def)
  have "files fs' (mergeName (jobName mr) r) = files fs (mergeName (jobName mr) r)" if "r \<in> D" for r
  proof -
    from that 2(2,3,4) have "0 \<le> r" "0 \<le> t" "r \<noteq> t" by (auto simp: taskSet_def)
    then show ?thesis by (intro env(2)) (simp add: mergeName_inj)
  qed
  moreover have "files fs' (reduceName (jobName mr) i r) = files fs (reduceName (jobName mr) i r)" if "0 \<le> i" for i r
    using that by (intro env(2) reduceName_mergeName)
  ultimately show ?case using 2(1) env(1) by (simp add: reduceCompleted_def reduceDone_def mapResults_def)
qed

sublocale phase_files \<subseteq> schedule: inductive_invariant "sched_ok mr phase completed" "sched_step mapF reduceF mr phase"
    "sched_ok mr phase completed"
  by unfold_locales (auto intro: sched_ok_step)

subsection \<open>Progress\<close>

definition schedMeasure :: "Sched \<Rightarrow> nat" where
  "schedMeasure s = 3 * length (task_chan s) + (case held s of None \<Rightarrow> 0 | Some _ \<Rightarrow> 2) + length (calls s) + (if returned s then 0 else 1)"

lemma schedMeasure_moves:
  "held s = None \<Longrightarrow> task_chan s = t # q \<Longrightarrow> schedMeasure (s\<lparr>held := Some t, task_chan := q\<rparr>) < schedMeasure s"
  "held s = Some t \<Longrightarrow> schedMeasure (s\<lparr>held := None, registerChan := ws, calls := calls s @ [c]\<rparr>) < schedMeasure s"
  "c \<in> set (calls s) \<Longrightarrow> schedMeasure (s\<lparr>calls := remove1 c (calls s), wg := n, registerChan := ws, disk := fs\<rparr>) < schedMeasure s"
  "\<not> returned s \<Longrightarrow> schedMeasure (s\<lparr>returned := True\<rparr>) < schedMeasure s"
  by (auto simp: schedMeasure_def length_remove1 intro: diff_less length_pos_if_in_set split: option.splits)

lemma sched_step_measure:
  assumes "sched_step mapF reduceF mr phase s t" "known t = known s" "length (task_chan t) \<le> length (task_chan s)"
  shows "schedMeasure t < schedMeasure s"
  using assms(1)
proof cases
  case (offer w)
  with assms(2) have "length (w # known s) = length (known s)" by simp
  then show ?thesis by simp
next
  case (fail args w fs')
  with assms(3) show ?thesis by simp
qed (use schedMeasure_moves in auto)

context phase_files
begin

lemma can_finish:
  assumes "sched_ok mr phase completed s" "busyWorkers s \<noteq> []" "fair_ranges rng"
  shows "\<exists>t. (sched_step mapF reduceF mr phase)\<^sup>*\<^sup>* s t \<and> returned t"
  using assms(1,2)
proof (induction "schedMeasure s" arbitrary: s rule: less_induct)
  case less
  let ?step = "sched_step mapF reduceF mr phase"
  have continue: ?case if "?step s t" "schedMeasure t < schedMeasure s" "busyWorkers t \<noteq> []" for t
    using less(1) [OF that(2) sched_ok_step [OF less(2) that(1)] that(3)] that(1) by (meson converse_rtranclp_into_rtranclp)
  consider "returned s" | "\<not> returned s" "calls s \<noteq> []" | "\<not> returned s" "calls s = []" "held s \<noteq> None"
    | "\<not> returned s" "calls s = []" "held s = None" "task_chan s \<noteq> []" | "\<not> returned s" "calls s = []" "held s = None" "task_chan s = []"
    by blast
  then show ?case
  proof cases
    case 1
    then show ?thesis by blast
  next
    case 2
    then obtain args w where call: "(args, w) \<in> set (calls s)" by (cases "calls s") auto
    note task = sched_ok_calls [OF less(2) call]
    then obtain fs' where fs': "performTask rng mapF reduceF args (disk s) = Inr fs'"
      using perform_completes [of "taskSet mr phase - set (pendingTasks s)" "disk s" "TaskNumber args" args rng] less(2) assms(3)
      by (auto simp: sched_ok_def)
    show ?thesis
      by (rule continue [OF sched_step.succeed [OF call assms(3) fs'] schedMeasure_moves(3) [OF call]]) (simp add: busyWorkers_def)
  next
    case 3
    then obtain t where t: "held s = Some t" by blast
    with less(2) have "t \<in> taskSet mr phase" by (auto simp: sched_ok_def pendingTasks_def)
    then obtain args where args: "taskArgs mr phase t = Inr args" using taskArgs_ok [of t mr phase] by (auto simp: isOk_iff)
    from 3 less(3) obtain w where w: "w \<in> set (registerChan s)" by (cases "registerChan s") (auto simp: busyWorkers_def)
    show ?thesis
      by (rule continue [OF sched_step.assign [OF t w args] schedMeasure_moves(2) [OF t]]) (simp add: busyWorkers_def)
  next
    case 4
    then obtain t q where q: "task_chan s = t # q" by (cases "task_chan s") auto
    show ?thesis
      by (rule continue [OF sched_step.take_task [OF 4(1,3) q] schedMeasure_moves(1) [OF 4(3) q]])
        (use less(3) in \<open>simp add: busyWorkers_def\<close>)
  next
    case 5
    then have "wg s = 0" using less(2) by (simp add: sched_ok_def pendingTasks_def)
    from continue [OF sched_step.finish [OF this 5(3,1)] schedMeasure_moves(4) [OF 5(1)]] less(3)
    show ?thesis by (simp add: busyWorkers_def)
  qed
qed

end

subsection \<open>What the schedule guarantees\<close>

definition phaseReady :: "(string \<Rightarrow> string \<Rightarrow> KeyValue list) \<Rightarrow> (string \<Rightarrow> string list \<Rightarrow> string go) \<Rightarrow> Master \<Rightarrow> FS \<Rightarrow> jobPhase \<Rightarrow> int set \<Rightarrow> FS \<Rightarrow> bool" where
  "phaseReady mapF reduceF mr fs0 phase D fs =
     (case phase of mapPhase \<Rightarrow> mapCompleted mapF reduceF mr fs0 D fs | reducePhase \<Rightarrow> reduceCompleted mapF reduceF mr fs0 D fs)"

interpretation any_phase: phase_files mapF reduceF mr phase "phaseReady mapF reduceF mr fs0 phase" for mapF reduceF mr phase fs0
  by (cases phase) (simp_all add: phaseReady_def [abs_def] map_phase.phase_files_axioms reduce_phase.phase_files_axioms)

lemma scheduleStart_ok:
  assumes "scheduleStart mr phase fs = Inr s" "phaseReady mapF reduceF mr fs0 phase {} fs"
  shows "sched_ok mr phase (phaseReady mapF reduceF mr fs0 phase) s"
proof -
  from assms(1) have s: "0 \<le> nTasksOf mr phase" "pendingTasks s = [0..nTasksOf mr phase - 1]" "busyWorkers s = []" "disk s = fs" "calls s = []"
    "wg s = nTasksOf mr phase" "\<not> returned s"
    by (auto simp: scheduleStart_def pendingTasks_def busyWorkers_def split: if_splits)
  then have "set (pendingTasks s) = taskSet mr phase" by (auto simp: taskSet_def)
  with s assms(2) show ?thesis by (simp add: sched_ok_def)
qed

lemma schedule_ok:
  assumes "scheduleStart mr phase fs = Inr s0" "phaseReady mapF reduceF mr fs0 phase {} fs"
    and "reachable_from (sched_step mapF reduceF mr phase) s0 s"
  shows "sched_ok mr phase (phaseReady mapF reduceF mr fs0 phase) s"
  by (rule any_phase.schedule.inv_reachable [OF scheduleStart_ok [OF assms(1,2)] assms(3)])

lemma schedule_complete:
  assumes "sched_ok mr phase (phaseReady mapF reduceF mr fs0 phase) s" "returned s"
  shows "phaseReady mapF reduceF mr fs0 phase (taskSet mr phase) (disk s)"
proof -
  from assms have "pendingTasks s = []" "phaseReady mapF reduceF mr fs0 phase (taskSet mr phase - set (pendingTasks s)) (disk s)"
    unfolding sched_ok_def by blast+
  then show ?thesis by simp
qed

text \<open>
  Claim C23. Whatever the order of the communications and however many calls fail, at every moment
  of a phase each task is in exactly one place (in \<open>task_chan\<close>, in the hands of the dispatcher, in
  a call) or completed; no worker is given two tasks at once, so that the \<open>log.Fatal\<close> of
  \<open>DoTask\<close> cannot be reached; \<open>task_chan\<close> never exceeds its capacity, so that a goroutine that
  puts a task back is not blocked; the wait group counts the tasks not completed; a worker that
  performs the task of a call ends without an error; and when \<open>schedule\<close> returns every task of
  the phase is completed.
\<close>

theorem schedule_safe:
  assumes "scheduleStart mr phase fs = Inr s0" "phaseReady mapF reduceF mr fs0 phase {} fs"
    and "reachable_from (sched_step mapF reduceF mr phase) s0 s"
  shows "distinct (pendingTasks s) \<and> distinct (map snd (calls s)) \<and>
    int (length (task_chan s)) \<le> nTasksOf mr phase \<and> wg s = int (length (pendingTasks s)) \<and>
    phaseReady mapF reduceF mr fs0 phase (taskSet mr phase - set (pendingTasks s)) (disk s) \<and>
    (\<forall>args w rng. (args, w) \<in> set (calls s) \<longrightarrow> fair_ranges rng \<longrightarrow> isOk (performTask rng mapF reduceF args (disk s))) \<and>
    (returned s \<longrightarrow> phaseReady mapF reduceF mr fs0 phase (taskSet mr phase) (disk s))"
proof -
  note ok = schedule_ok [OF assms]
  then have pending: "distinct (pendingTasks s)" "set (pendingTasks s) \<subseteq> taskSet mr phase" "distinct (busyWorkers s)"
    "wg s = int (length (pendingTasks s))" "phaseReady mapF reduceF mr fs0 phase (taskSet mr phase - set (pendingTasks s)) (disk s)"
    by (simp_all add: sched_ok_def)
  have nonneg: "0 \<le> nTasksOf mr phase" using assms(1) by (auto simp: scheduleStart_def split: if_splits)
  have "length (task_chan s) \<le> length (pendingTasks s)" by (simp add: pendingTasks_def)
  also have "\<dots> = card (set (pendingTasks s))" using pending(1) by (simp add: distinct_card)
  also have "\<dots> \<le> nat (nTasksOf mr phase)"
    using card_mono [OF _ pending(2)] by (simp add: taskSet_def)
  finally have "int (length (task_chan s)) \<le> nTasksOf mr phase" using nonneg by simp
  moreover have "isOk (performTask rng mapF reduceF args (disk s))" if "(args, w) \<in> set (calls s)" "fair_ranges rng" for args w rng
    using any_phase.perform_completes [OF pending(5), of "TaskNumber args" args rng] any_phase.sched_ok_calls [OF ok that(1)] that(2)
    by (auto simp: isOk_iff)
  moreover have "distinct (map snd (calls s))" using pending(3) by (simp add: busyWorkers_def)
  ultimately show ?thesis using pending schedule_complete [OF ok] by blast
qed

text \<open>
  Claim C24. A phase can always be brought to its end as long as one worker is available: from
  every state that a schedule reaches in which some worker is offered or in a call, there is a
  continuation in which \<open>schedule\<close> returns. Moreover every communication except a registration and
  a failed call brings the end nearer: a natural number falls, so that after the last failure a
  phase ends within a bounded number of steps.
\<close>

theorem schedule_completes:
  assumes "scheduleStart mr phase fs = Inr s0" "phaseReady mapF reduceF mr fs0 phase {} fs"
    and "reachable_from (sched_step mapF reduceF mr phase) s0 s" "busyWorkers s \<noteq> []"
  shows "(\<exists>t. (sched_step mapF reduceF mr phase)\<^sup>*\<^sup>* s t \<and> returned t) \<and>
    (\<forall>t. sched_step mapF reduceF mr phase s t \<longrightarrow> known t = known s \<longrightarrow> length (task_chan t) \<le> length (task_chan s) \<longrightarrow>
      schedMeasure t < schedMeasure s)"
proof -
  have "fair_ranges \<lparr>rangeValues = \<lambda>xs. xs, rangeResult = \<lambda>xs. xs\<rparr>" by (simp add: fair_ranges_def any_order_id)
  from any_phase.can_finish [OF schedule_ok [OF assms(1,2,3)] assms(4) this] sched_step_measure show ?thesis by blast
qed

text \<open>
  Claim C22. A distributed run gives the same output as a sequential one: when the two calls of
  \<open>schedule\<close> have returned, with any number of workers, any interleaving and any failures, \<open>finish\<close>
  and \<open>merge\<close> leave in the output file the lines that the specification of the job gives, and
  these are the lines that \<open>Sequential\<close> writes.
\<close>

theorem Distributed_output:
  assumes "jobReady (jobName mr) (inFiles mr) (nReduceOf mr) mapF reduceF fs" "any_order rng" "\<not> shutdownClosed mr"
    and "scheduleStart mr mapPhase fs = Inr s0" "reachable_from (sched_step mapF reduceF mr mapPhase) s0 s1" "returned s1"
    and "scheduleStart mr reducePhase (disk s1) = Inr s2" "reachable_from (sched_step mapF reduceF mr reducePhase) s2 s3" "returned s3"
  shows "\<exists>mr' fs'. bindE (finishDistributed rpc reached (mr, disk s3)) (\<lambda>(mr, fs). bindE (merge rng mr fs) (\<lambda>fs. Inr (mr, fs))) = Inr (mr', fs') \<and>
    files fs' (outputName (jobName mr)) = Some (Text (jobOutput reduceF (jobPairs mapF fs (inFiles mr)))) \<and>
    (\<forall>rngs srng mr'' fs''. (\<forall>r. fair_ranges (rngs r)) \<longrightarrow> any_order srng \<longrightarrow>
      Sequential rngs srng (jobName mr) (inFiles mr) (nReduceOf mr) mapF reduceF fs = Inr (mr'', fs'') \<longrightarrow>
      files fs'' (outputName (jobName mr)) = files fs' (outputName (jobName mr)))"
proof -
  have "phaseReady mapF reduceF mr fs mapPhase {} fs"
    using assms(1) by (simp add: phaseReady_def mapCompleted_def mapDone_start)
  from schedule_complete [OF schedule_ok [OF assms(4) this assms(5)] assms(6)]
  have "phaseReady mapF reduceF mr fs reducePhase {} (disk s1)"
    by (simp add: phaseReady_def mapCompleted_def reduceCompleted_def mapDone_def reduceDone_def taskSet_def nTasksOf_def)
  from schedule_complete [OF schedule_ok [OF assms(7) this assms(8)] assms(9)]
  have maps: "mapResults (jobName mr) (inFiles mr) (nReduceOf mr) mapF fs {0..<int (length (inFiles mr))} (disk s3)"
    and reds: "reduceDone (jobName mr) (nReduceOf mr) reduceF (jobPairs mapF fs (inFiles mr)) {0..<nReduceOf mr} (disk s3)"
    by (simp_all add: phaseReady_def reduceCompleted_def taskSet_def nTasksOf_def)
  obtain mr' where mr': "finishDistributed rpc reached (mr, disk s3) = Inr (mr', disk s3)"
    "jobName mr' = jobName mr" "nReduceOf mr' = nReduceOf mr"
    using assms(3) by (cases reached) (simp_all add: finishDistributed_def stopRPCServer_def masterShutdown_def)
  have "merge rng mr' (disk s3) = Inr ((disk s3)\<lparr>files := (files (disk s3))(outputName (jobName mr) \<mapsto> Text (jobOutput reduceF (jobPairs mapF fs (inFiles mr))))\<rparr>)"
    using merge_output [of mr' reduceF "jobPairs mapF fs (inFiles mr)" "disk s3" rng] reds maps assms(1,2) mr'
    by (simp add: jobReady_def mapResults_def same_env_def)
  moreover have "files fs'' (outputName (jobName mr)) = Some (Text (jobOutput reduceF (jobPairs mapF fs (inFiles mr))))"
    if "\<forall>r. fair_ranges (rngs r)" "any_order srng"
      "Sequential rngs srng (jobName mr) (inFiles mr) (nReduceOf mr) mapF reduceF fs = Inr (mr'', fs'')" for rngs srng mr'' fs''
    using sequential_run [OF assms(1), of rngs srng] that by auto
  ultimately show ?thesis using mr'(1) by simp
qed

subsection \<open>A run of a small job\<close>

lemma reachable_rtranclp: "step\<^sup>*\<^sup>* s t \<Longrightarrow> reachable_from step s0 s \<Longrightarrow> reachable_from step s0 t"
  by (induction rule: rtranclp_induct) (auto intro: reach_step)

lemma schedule_run_exists:
  assumes "0 \<le> nTasksOf mr phase" "phaseReady mapF reduceF mr fs0 phase {} fs"
  shows "\<exists>s0 s t. scheduleStart mr phase fs = Inr s0 \<and> reachable_from (sched_step mapF reduceF mr phase) s0 s \<and> registerChan s = [''w''] \<and>
    reachable_from (sched_step mapF reduceF mr phase) s0 t \<and> returned t"
proof -
  let ?step = "sched_step mapF reduceF mr phase"
  obtain s0 where s0: "scheduleStart mr phase fs = Inr s0" "known s0 = []" "registerChan s0 = []" using assms(1) by (simp add: scheduleStart_def)
  define s where "s = s0\<lparr>known := [''w''], registerChan := [''w'']\<rparr>"
  have "?step s0 s" using sched_step.offer [of "''w''" s0] s0 by (simp add: s_def)
  then have s: "reachable_from ?step s0 s" by (rule reach_step [OF reach_start])
  have "fair_ranges \<lparr>rangeValues = \<lambda>xs. xs, rangeResult = \<lambda>xs. xs\<rparr>" "busyWorkers s \<noteq> []"
    by (simp_all add: fair_ranges_def any_order_id s_def busyWorkers_def)
  with any_phase.can_finish [OF schedule_ok [OF s0(1) assms(2) s]]
  obtain t where "?step\<^sup>*\<^sup>* s t" "returned t" by blast
  moreover have "registerChan s = [''w'']" by (simp add: s_def)
  ultimately show ?thesis using s0(1) s reachable_rtranclp [OF _ s, of t] by blast
qed

definition sampleMr :: Master where
  "sampleMr = (newMaster ''m'')\<lparr>jobName := ''j'', inFiles := [''a'', ''b''], nReduceOf := 3\<rparr>"

lemma sampleMr_simps: "jobName sampleMr = ''j''" "inFiles sampleMr = [''a'', ''b'']" "nReduceOf sampleMr = 3" "\<not> shutdownClosed sampleMr"
  by (simp_all add: sampleMr_def newMaster_def)

lemma sample_phase_ready: "phaseReady sampleMap sampleReduce sampleMr sampleFS mapPhase {} sampleFS"
  by (simp add: phaseReady_def mapCompleted_def sampleMr_simps sample_ready mapDone_start)

theorem schedule_safe_witness:
  "\<exists>s0 s. scheduleStart sampleMr mapPhase sampleFS = Inr s0 \<and> returned s \<and>
    reachable_from (sched_step sampleMap sampleReduce sampleMr mapPhase) s0 s \<and>
    phaseReady sampleMap sampleReduce sampleMr sampleFS mapPhase (taskSet sampleMr mapPhase) (disk s)"
proof -
  from schedule_run_exists [OF _ sample_phase_ready] obtain s0 s where
    s: "scheduleStart sampleMr mapPhase sampleFS = Inr s0" "reachable_from (sched_step sampleMap sampleReduce sampleMr mapPhase) s0 s" "returned s"
    by (auto simp: nTasksOf_def)
  from schedule_safe [OF s(1) sample_phase_ready s(2)] s show ?thesis by blast
qed

theorem schedule_completes_witness:
  "\<exists>s0 s t. scheduleStart sampleMr mapPhase sampleFS = Inr s0 \<and> registerChan s = [''w''] \<and>
    reachable_from (sched_step sampleMap sampleReduce sampleMr mapPhase) s0 s \<and>
    (sched_step sampleMap sampleReduce sampleMr mapPhase)\<^sup>*\<^sup>* s t \<and> returned t"
proof -
  from schedule_run_exists [OF _ sample_phase_ready] obtain s0 s where
    s: "scheduleStart sampleMr mapPhase sampleFS = Inr s0" "reachable_from (sched_step sampleMap sampleReduce sampleMr mapPhase) s0 s"
      "registerChan s = [''w'']"
    by (auto simp: nTasksOf_def)
  then have "busyWorkers s \<noteq> []" by (simp add: busyWorkers_def)
  from schedule_completes [OF s(1) sample_phase_ready s(2) this] s show ?thesis by blast
qed

theorem Distributed_output_witness:
  "\<exists>(s1 :: Sched) (s3 :: Sched) mr' fs'. returned s1 \<and> returned s3 \<and>
    bindE (finishDistributed (\<lambda>_. Some 5) True (sampleMr, disk s3)) (\<lambda>(mr, fs). bindE (merge rev mr fs) (\<lambda>fs. Inr (mr, fs))) = Inr (mr', fs') \<and>
    files fs' ''mrtmp.j'' = Some (Text (''w: ab'' @ [CHR 0x0A]))"
proof -
  from schedule_run_exists [OF _ sample_phase_ready] obtain s0 s1 where
    s1: "scheduleStart sampleMr mapPhase sampleFS = Inr s0" "reachable_from (sched_step sampleMap sampleReduce sampleMr mapPhase) s0 s1" "returned s1"
    by (auto simp: nTasksOf_def)
  from schedule_complete [OF schedule_ok [OF s1(1) sample_phase_ready s1(2)] s1(3)]
  have "phaseReady sampleMap sampleReduce sampleMr sampleFS reducePhase {} (disk s1)"
    by (simp add: phaseReady_def mapCompleted_def reduceCompleted_def mapDone_def reduceDone_def taskSet_def nTasksOf_def)
  from schedule_run_exists [OF _ this] obtain s2 s3 where
    s3: "scheduleStart sampleMr reducePhase (disk s1) = Inr s2" "reachable_from (sched_step sampleMap sampleReduce sampleMr reducePhase) s2 s3" "returned s3"
    by (auto simp: nTasksOf_def sampleMr_simps)
  have "jobReady (jobName sampleMr) (inFiles sampleMr) (nReduceOf sampleMr) sampleMap sampleReduce sampleFS"
    by (simp add: sampleMr_simps sample_ready)
  from Distributed_output [OF this any_order_id(2) sampleMr_simps(4) s1 s3, of "\<lambda>_. Some 5" True]
  obtain mr' fs' where
    "bindE (finishDistributed (\<lambda>_. Some 5) True (sampleMr, disk s3)) (\<lambda>(mr, fs). bindE (merge rev mr fs) (\<lambda>fs. Inr (mr, fs))) = Inr (mr', fs')"
    "files fs' ''mrtmp.j'' = Some (Text (''w: ab'' @ [CHR 0x0A]))"
    unfolding sampleMr_simps sample_output outputName_def append_Cons append_Nil by blast
  with s1(3) s3(3) show ?thesis by blast
qed

subsection \<open>The worker\<close>

text \<open>\<open>Distributed\<close> until it starts \<open>run\<close>, and \<open>Wait\<close>, which blocks until \<open>run\<close> has ended.\<close>

definition Distributed :: "bool \<Rightarrow> string \<Rightarrow> Master go" where
  "Distributed listens master = startRPCServer listens (newMaster master)"

definition mrWait :: "Master \<Rightarrow> Master go" where
  "mrWait mr = (if doneSent mr then Inr (mr\<lparr>doneSent := False\<rparr>) else Inl Blocked)"

text \<open>
  A worker that has no task in progress performs the task it is sent, counts it and has
  none in progress afterwards, whether or not the parallelism of the workers is being tracked, and
  the number of workers at work that is tracked is then as before; a worker that is sent a task
  while it has one ends its process.
\<close>

theorem DoTask_contract:
  assumes "0 \<le> concurrent wk"
  shows "(concurrent wk = 0 \<longrightarrow> DoTask rng arg (wk, fs) =
      bindE (performTask rng (MapFun wk) (ReduceFun wk) arg fs) (\<lambda>fs'.
        Inr (wk\<lparr>nTasks := nTasks wk + 1,
          parallelism := map_option (\<lambda>p. p\<lparr>par_max := max (par_max p) (par_now p + 1)\<rparr>) (parallelism wk)\<rparr>, fs'))) \<and>
    (concurrent wk \<noteq> 0 \<longrightarrow> DoTask rng arg (wk, fs) = Inl LogFatal)"
  using assms
  by (cases "parallelism wk"; cases "performTask rng (MapFun wk) (ReduceFun wk) arg fs")
    (auto simp: DoTask_def taskBegin_def taskEnd_def enterParallel_def leaveParallel_def Let_def max_def)

theorem DoTask_contract_witness:
  "\<exists>wk fs. DoTask \<lparr>rangeValues = rev, rangeResult = rev\<rparr>
      \<lparr>JobName = ''j'', File = ''a'', Phase = mapPhase, TaskNumber = 0, NumOtherPhase = 1\<rparr>
      (newWorker ''w'' sampleMap sampleReduce 5 (Some \<lparr>par_now = 0, par_max = 0\<rparr>), sampleFS) = Inr (wk, fs) \<and>
    nTasks wk = 1 \<and> concurrent wk = 0 \<and> parallelism wk = Some \<lparr>par_now = 0, par_max = 1\<rparr>"
proof -
  have "readFile sampleFS ''a'' = Some ''w''" by (simp add: sampleFS_def readFile_def)
  from doMap_result [OF this, of 1 0 "''j''" sampleMap] obtain fs where "doMap ''j'' 0 ''a'' 1 sampleMap sampleFS = Inr fs"
    by (auto simp: sampleFS_def)
  then show ?thesis
    using DoTask_contract [of "newWorker ''w'' sampleMap sampleReduce 5 (Some \<lparr>par_now = 0, par_max = 0\<rparr>)"
      "\<lparr>rangeValues = rev, rangeResult = rev\<rparr>"
      "\<lparr>JobName = ''j'', File = ''a'', Phase = mapPhase, TaskNumber = 0, NumOtherPhase = 1\<rparr>" sampleFS]
    by (simp add: newWorker_def performTask_def)
qed

end
