(* ===== verification/Mr_Apps.thy ===== *)
theory Mr_Apps
  imports Mr_Master
begin

section \<open>mapreduce applications: word count and inverted index\<close>

text \<open>
  \<open>mapF\<close> and \<open>reduceF\<close> of \<open>main/wc.go\<close> and \<open>main/ii.go\<close>. \<open>strings.FieldsFunc\<close> reads a string rune
  by rune: \<open>runes\<close> cuts it into the bytes of one rune each, with a width of one where the bytes are
  not valid UTF-8. Which runes are letters is a table of Go's \<open>unicode\<close> package and a parameter
  (\<open>isLetter\<close>, on the bytes of a rune).
\<close>

subsection \<open>Strings as runes\<close>

definition byteIn :: "nat \<Rightarrow> nat \<Rightarrow> char \<Rightarrow> bool" where
  "byteIn lo hi c \<longleftrightarrow> lo \<le> of_char c \<and> (of_char c :: nat) \<le> hi"

definition leads :: "nat \<Rightarrow> nat \<Rightarrow> nat \<Rightarrow> nat \<Rightarrow> nat \<Rightarrow> string \<Rightarrow> bool" where
  "leads n lo hi lo2 hi2 s \<longleftrightarrow>
     n \<le> length s \<and> byteIn lo hi (s ! 0) \<and> byteIn lo2 hi2 (s ! 1) \<and> list_all (byteIn 128 191) (take (n - 2) (drop 2 s))"

definition runeWidth :: "string \<Rightarrow> nat" where
  "runeWidth s =
     (if leads 2 194 223 128 191 s then 2
      else if leads 3 224 224 160 191 s \<or> leads 3 225 236 128 191 s \<or> leads 3 237 237 128 159 s \<or> leads 3 238 239 128 191 s then 3
      else if leads 4 240 240 144 191 s \<or> leads 4 241 243 128 191 s \<or> leads 4 244 244 128 143 s then 4
      else 1)"

lemma runeWidth_pos: "0 < runeWidth s"
  by (simp add: runeWidth_def)

function runes :: "string \<Rightarrow> string list" where
  "runes s = (if s = [] then [] else take (runeWidth s) s # runes (drop (runeWidth s) s))"
  by pat_completeness auto

termination
  by (relation "measure length") (simp_all add: runeWidth_pos)

declare runes.simps [simp del]

lemma runes_Nil [simp]: "runes [] = []"
  by (subst runes.simps) simp

lemma concat_runes: "concat (runes s) = s"
proof (induction s rule: runes.induct)
  case (1 s)
  then show ?case by (subst runes.simps) simp
qed

fun fieldsLoop :: "(string \<Rightarrow> bool) \<Rightarrow> string \<Rightarrow> string list \<Rightarrow> string list" where
  "fieldsLoop sep cur [] = (if cur = [] then [] else [cur])"
| "fieldsLoop sep cur (r # rs) =
     (if sep r then (if cur = [] then fieldsLoop sep [] rs else cur # fieldsLoop sep [] rs)
      else fieldsLoop sep (cur @ r) rs)"

definition FieldsFunc :: "string \<Rightarrow> (string \<Rightarrow> bool) \<Rightarrow> string list" where
  "FieldsFunc s sep = fieldsLoop sep [] (runes s)"

lemma fieldsLoop_nonempty: "[] \<notin> set (fieldsLoop sep cur rs)"
  by (induction sep cur rs rule: fieldsLoop.induct) auto

subsection \<open>Word count\<close>

definition wcMap :: "(string \<Rightarrow> bool) \<Rightarrow> string \<Rightarrow> string \<Rightarrow> KeyValue list" where
  "wcMap isLetter filename contents =
     map (\<lambda>v. \<lparr>Key = v, Value = ''1''\<rparr>) (filter (\<lambda>v. length v \<noteq> 0) (FieldsFunc contents (\<lambda>c. \<not> isLetter c)))"

definition wrap64 :: "int \<Rightarrow> int" where
  "wrap64 i = (i + 2 ^ 63) mod 2 ^ 64 - 2 ^ 63"

fun sumCounts :: "int \<Rightarrow> string list \<Rightarrow> int go" where
  "sumCounts acc [] = Inr acc"
| "sumCounts acc (cnt # values) =
     (case Atoi cnt of None \<Rightarrow> Inl LogFatal | Some i \<Rightarrow> sumCounts (wrap64 (acc + i)) values)"

definition wcReduce :: "string \<Rightarrow> string list \<Rightarrow> string go" where
  "wcReduce key values = bindE (sumCounts 0 values) (\<lambda>acc. Inr (Itoa acc))"

lemma wrap64_id: "- (2 ^ 63) \<le> i \<Longrightarrow> i < 2 ^ 63 \<Longrightarrow> wrap64 i = i"
  by (simp add: wrap64_def)

lemma Atoi_one: "Atoi ''1'' = Some 1"
  by (simp add: Atoi_def digitsValue_def isDigit_def)

lemma sumCounts_ones:
  assumes "0 \<le> acc" "acc + int n < 2 ^ 63"
  shows "sumCounts acc (replicate n ''1'') = Inr (acc + int n)"
  using assms
proof (induction n arbitrary: acc)
  case (Suc n)
  then have "wrap64 (acc + 1) = acc + 1" by (intro wrap64_id) simp_all
  with Suc show ?case by (simp add: Atoi_one)
qed simp

subsection \<open>Inverted index\<close>

definition iiMap :: "(string \<Rightarrow> bool) \<Rightarrow> string \<Rightarrow> string \<Rightarrow> KeyValue list" where
  "iiMap isLetter document value =
     map (\<lambda>v. \<lparr>Key = v, Value = document\<rparr>) (filter (\<lambda>v. length v \<noteq> 0) (FieldsFunc value (\<lambda>c. \<not> isLetter c)))"

definition iiReduce :: "((string \<times> int) list \<Rightarrow> (string \<times> int) list) \<Rightarrow> string \<Rightarrow> string list \<Rightarrow> string go" where
  "iiReduce rng key values =
     (let txt_sets = fold (\<lambda>txt. AList.update txt 0) values [] in
      Inr (fold (\<lambda>(txt, i) result. result @ (if i = 0 then '' '' else '','') @ txt) (rng txt_sets) (Itoa (int (length txt_sets)))))"

subsection \<open>What the applications compute\<close>

definition fileWords :: "(string \<Rightarrow> bool) \<Rightarrow> FS \<Rightarrow> string list \<Rightarrow> string list" where
  "fileWords isLetter fs fnames = concat (map (\<lambda>f. FieldsFunc (contentOf fs f) (\<lambda>c. \<not> isLetter c)) fnames)"

lemma wc_pairs: "jobPairs (wcMap isLetter) fs fnames = map (\<lambda>v. \<lparr>Key = v, Value = ''1''\<rparr>) (fileWords isLetter fs fnames)"
proof -
  have "filter (\<lambda>v. length v \<noteq> 0) (FieldsFunc s sep) = FieldsFunc s sep" for s sep
    using fieldsLoop_nonempty [of sep "[]" "runes s"] by (auto simp: FieldsFunc_def filter_id_conv)
  then show ?thesis by (simp add: jobPairs_def wcMap_def fileWords_def map_concat comp_def)
qed

lemma wc_values:
  "keysOf (map (\<lambda>v. \<lparr>Key = v, Value = ''1''\<rparr>) ws) = set ws"
  "valuesOf k (map (\<lambda>v. \<lparr>Key = v, Value = ''1''\<rparr>) ws) = replicate (count_list ws k) ''1''"
  by (auto simp: keysOf_def valuesOf_def filter_map comp_def image_image map_replicate_const count_list_eq_length_filter
    intro: arg_cong [where f = length] filter_cong)

lemma wcReduce_count:
  assumes "int (length ws) < 2 ^ 63"
  shows "wcReduce k (replicate (count_list ws k) ''1'') = Inr (Itoa (int (count_list ws k)))"
  using sumCounts_ones [of 0 "count_list ws k"] assms count_le_length [of ws k] by (simp add: wcReduce_def)

definition wordCounts :: "string list \<Rightarrow> string" where
  "wordCounts ws = concat (map (\<lambda>w. outputLine w (Itoa (int (count_list ws w)))) (sorted_list_of_set (set ws)))"

text \<open>
  Claim C25. The word count program, run sequentially, writes one line per distinct word of the
  input files, in the order of the words, with the number of times the word occurs in all of
  them. (\<open>nreduce\<close> is 3 in \<open>main\<close>; any positive number gives the same output.)
\<close>

theorem word_count_output:
  assumes "0 < nreduce" "int (length (fileWords isLetter fs fnames)) < 2 ^ 63"
    and "\<forall>f\<in>set fnames. readFile fs f \<noteq> None \<and> (\<forall>i r. f \<noteq> reduceName job i r)" "\<forall>name. writable fs name"
    and "\<And>r. fair_ranges (rngs r)" "any_order rng"
  shows "\<exists>mr fs'. Sequential rngs rng job fnames nreduce (wcMap isLetter) wcReduce fs = Inr (mr, fs') \<and>
    files fs' (outputName job) = Some (Text (wordCounts (fileWords isLetter fs fnames)))"
proof -
  let ?ws = "fileWords isLetter fs fnames"
  note reduced = wcReduce_count [OF assms(2)]
  have "jobReady job fnames nreduce (wcMap isLetter) wcReduce fs"
    using assms(1,3,4) reduced by (simp add: jobReady_def wc_pairs wc_values)
  moreover have "jobOutput wcReduce (jobPairs (wcMap isLetter) fs fnames) = wordCounts ?ws"
    by (simp add: jobOutput_def wordCounts_def wc_pairs wc_values reduced)
  ultimately show ?thesis using sequential_run [OF _ assms(5,6)] by fastforce
qed

definition asciiLetter :: "string \<Rightarrow> bool" where
  "asciiLetter r \<longleftrightarrow> r \<noteq> [] \<and> (byteIn 65 90 (hd r) \<or> byteIn 97 122 (hd r))"

definition textFS :: FS where
  "textFS = \<lparr>files = [''t'' \<mapsto> Text ''to be, to''], writable = (\<lambda>_. True), jsonText = (\<lambda>_. ''''), decodeText = (\<lambda>_. ([], False))\<rparr>"

lemma textWords: "fileWords asciiLetter textFS [''t''] = [''to'', ''be'', ''to'']"
  by code_simp

theorem word_count_output_witness:
  "\<exists>mr fs'. Sequential (\<lambda>_. \<lparr>rangeValues = rev, rangeResult = \<lambda>xs. xs\<rparr>) rev ''wcseq'' [''t''] 3 (wcMap asciiLetter) wcReduce textFS = Inr (mr, fs') \<and>
    files fs' ''mrtmp.wcseq'' = Some (Text (''be: 1'' @ [CHR 0x0A] @ ''to: 2'' @ [CHR 0x0A]))"
proof -
  have "wordCounts [''to'', ''be'', ''to''] = ''be: 1'' @ [CHR 0x0A] @ ''to: 2'' @ [CHR 0x0A]"
    by code_simp
  moreover have "\<forall>f\<in>set [''t'']. readFile textFS f \<noteq> None \<and> (\<forall>i r. f \<noteq> reduceName ''wcseq'' i r)" "\<forall>name. writable textFS name"
    by (simp_all add: textFS_def readFile_def reduceName_def)
  ultimately show ?thesis
    using word_count_output [of 3 asciiLetter textFS "[''t'']" "''wcseq''" "\<lambda>_. \<lparr>rangeValues = rev, rangeResult = \<lambda>xs. xs\<rparr>" rev]
    by (simp add: textWords fair_ranges_def any_order_id outputName_def)
qed

lemma ii_sets:
  "distinct (map fst (fold (\<lambda>txt. AList.update txt (0::int)) values [])) \<and>
    set (fold (\<lambda>txt. AList.update txt (0::int)) values []) = (\<lambda>txt. (txt, 0)) ` set values"
proof (induction "values" rule: rev_induct)
  case (snoc v vs)
  let ?m = "fold (\<lambda>txt. AList.update txt (0::int)) vs []"
  have "set (AList.update v 0 ?m) = insert (v, 0) (set ?m)"
  proof (cases "v \<in> fst ` set ?m")
    case True
    with snoc have "map_of ?m v = Some 0" by (force intro: map_of_is_SomeI)
    then show ?thesis using snoc by (auto simp: update_triv)
  next
    case False
    then show ?thesis by (simp add: update_fresh)
  qed
  with snoc show ?case by (simp add: distinct_update)
qed simp

lemma ii_fold: "\<forall>p\<in>set ps. snd p = (0::int) \<Longrightarrow>
    fold (\<lambda>(txt, i) result. result @ (if i = 0 then '' '' else '','') @ txt) ps acc = acc @ concat (map (\<lambda>p. '' '' @ fst p) ps)"
  by (induction ps arbitrary: acc) auto

text \<open>
  Claim C26. The reduction of the inverted index is the number of documents of the word, followed by
  the documents, each once and in the order in which Go visits the map, each with a space before
  it. All entries of \<open>txt_sets\<close> are zero, so the branch that would separate them by a comma is
  never taken, and the result for a word in two documents depends on the order of visits.
\<close>

theorem inverted_index_result:
  "(\<forall>rng key values. any_order rng \<longrightarrow> (\<exists>docs. distinct docs \<and> set docs = set values \<and>
      iiReduce rng key values = Inr (Itoa (int (card (set values))) @ concat (map (\<lambda>doc. '' '' @ doc) docs)))) \<and>
    iiReduce (\<lambda>xs. xs) ''w'' [''a'', ''b''] = Inr ''2 a b'' \<and> iiReduce rev ''w'' [''a'', ''b''] = Inr ''2 b a''"
proof (intro conjI allI impI)
  fix rng :: "(string \<times> int) list \<Rightarrow> (string \<times> int) list" and key and "values" :: "string list"
  assume rng: "any_order rng"
  let ?m = "fold (\<lambda>txt. AList.update txt (0::int)) values []"
  note m = ii_sets [of "values"]
  have "length ?m = card (set values)"
  proof -
    have "length ?m = card (set (map fst ?m))" using m distinct_card [of "map fst ?m"] by simp
    also have "set (map fst ?m) = set values" using m by (simp add: image_image)
    finally show ?thesis .
  qed
  moreover have "\<forall>p\<in>set (rng ?m). snd p = 0" using m any_order_set [OF rng] by auto
  ultimately have "iiReduce rng key values = Inr (Itoa (int (card (set values))) @ concat (map (\<lambda>doc. '' '' @ doc) (map fst (rng ?m))))"
    by (simp add: iiReduce_def ii_fold comp_def)
  moreover have "distinct (map fst (rng ?m))" "set (map fst (rng ?m)) = set values"
    using m any_order_distinct [OF rng, of fst ?m] any_order_set [OF rng, of ?m] by (auto simp: image_image)
  ultimately show "\<exists>docs. distinct docs \<and> set docs = set values \<and>
      iiReduce rng key values = Inr (Itoa (int (card (set values))) @ concat (map (\<lambda>doc. '' '' @ doc) docs))" by blast
qed code_simp+

theorem inverted_index_result_witness:
  "\<exists>docs. distinct docs \<and> set docs = {''a'', ''b''} \<and>
    iiReduce rev ''w'' [''a'', ''b'', ''a''] = Inr (''2'' @ concat (map (\<lambda>doc. '' '' @ doc) docs))"
proof -
  have "Itoa (int (card (set [''a'', ''b'', ''a'']))) = ''2''" by code_simp
  moreover have "set [''a'', ''b'', ''a''] = {''a'', ''b''}" by auto
  ultimately show ?thesis using inverted_index_result any_order_id(2) by metis
qed

end
