(* ===== verification/Lab_Gob.thy ===== *)
theory Lab_Gob
  imports Go_Prelude
begin

section \<open>labgob: the checks around encoding/gob\<close>

text \<open>
  \<open>labgob/labgob.go\<close>: the walk over a type that warns of fields gob will not send
  (\<open>checkType\<close>), and the walk over a value that warns of variables that are not at their
  default (\<open>checkDefault\<close>). Encoding itself is the package \<open>encoding/gob\<close>.

  A \<open>reflect.Type\<close> is a value of a type parameter with a table \<open>kinds\<close> that tells what it is made
  of; types may be recursive, so the table is a graph. \<open>checkType\<close> keeps the types it has seen and
  calls itself on the parts of a new one. The model keeps the calls that are still to be made in a
  list, in the order in which the source makes them. \<open>isUpper\<close> on the first rune of a field name
  is a parameter, as in Go's \<open>unicode\<close> tables.
\<close>

subsection \<open>Types\<close>

datatype 't kind = Struct "(string \<times> 't) list" | Elem 't | MapOf 't 't | Basic

record 't Checker =
  checked :: "'t list"
  errorCount :: int

definition lowerFields :: "(string \<Rightarrow> bool) \<Rightarrow> 't kind \<Rightarrow> nat" where
  "lowerFields isUpper k = (case k of Struct fs \<Rightarrow> length (filter (\<lambda>f. \<not> isUpper (fst f)) fs) | _ \<Rightarrow> 0)"

definition parts :: "'t kind \<Rightarrow> 't list" where
  "parts k = (case k of Struct fs \<Rightarrow> map snd fs | Elem t \<Rightarrow> [t] | MapOf e key \<Rightarrow> [e, key] | Basic \<Rightarrow> [])"

text \<open>The calls of \<open>checkType\<close> still to be made.\<close>

partial_function (option) checkCalls :: "(string \<Rightarrow> bool) \<Rightarrow> ('t \<Rightarrow> 't kind) \<Rightarrow> 't list \<Rightarrow> 't Checker \<Rightarrow> 't Checker option" where
  "checkCalls isUpper kinds ts s =
     (case ts of
        [] \<Rightarrow> Some s
      | t # rest \<Rightarrow>
          if t \<in> set (checked s) then checkCalls isUpper kinds rest s
          else checkCalls isUpper kinds (parts (kinds t) @ rest)
                 (s\<lparr>checked := t # checked s, errorCount := errorCount s + int (lowerFields isUpper (kinds t))\<rparr>))"

definition checkType :: "(string \<Rightarrow> bool) \<Rightarrow> ('t \<Rightarrow> 't kind) \<Rightarrow> 't \<Rightarrow> 't Checker \<Rightarrow> 't Checker option" where
  "checkType isUpper kinds t s = checkCalls isUpper kinds [t] s"

text \<open>\<open>checkValue\<close>: the type of a nil interface is nil, and its method \<open>Kind\<close> panics.\<close>

definition checkValue :: "(string \<Rightarrow> bool) \<Rightarrow> ('t \<Rightarrow> 't kind) \<Rightarrow> 't option \<Rightarrow> 't Checker \<Rightarrow> 't Checker go option" where
  "checkValue isUpper kinds typeOf s =
     (case typeOf of
        None \<Rightarrow> Some (Inl NilPointer)
      | Some t \<Rightarrow> Option.bind (checkType isUpper kinds t s) (\<lambda>s. Some (Inr s)))"

subsection \<open>Values\<close>

text \<open>
  A field of a struct has its name, whether it is embedded, and its value; a basic value comes
  with the answer of \<open>DeepEqual\<close> against the zero value; \<open>VOther\<close> is every kind the walk passes
  over.
\<close>

datatype goval = VStruct "(string \<times> bool \<times> goval) list" | VPtr "goval option" | VBasic bool | VOther

text \<open>
  \<open>checkDefault1\<close>, with the flags that \<open>reflect\<close> keeps in a value: \<open>sticky\<close> for a value found in an
  unexported field, which every part of it inherits, and \<open>embedRO\<close> for an embedded unexported
  field, which the fields of the struct do not inherit. \<open>Interface\<close> panics when one of them is set.
  The result is \<open>errorCount\<close>.
\<close>

fun checkDefault1 :: "(string \<Rightarrow> bool) \<Rightarrow> bool \<Rightarrow> bool \<Rightarrow> goval \<Rightarrow> nat \<Rightarrow> int \<Rightarrow> int go" where
  "checkDefault1 isUpper sticky embedRO (VStruct fs) depth errs =
     (if depth > 3 then Inr errs
      else foldE (\<lambda>f errs.
        checkDefault1 isUpper (sticky \<or> \<not> isUpper (fst f) \<and> \<not> fst (snd f)) (\<not> isUpper (fst f) \<and> fst (snd f)) (snd (snd f)) (depth + 1) errs) fs errs)"
| "checkDefault1 isUpper sticky embedRO (VPtr None) depth errs = Inr errs"
| "checkDefault1 isUpper sticky embedRO (VPtr (Some v)) depth errs =
     (if depth > 3 then Inr errs else checkDefault1 isUpper sticky embedRO v (depth + 1) errs)"
| "checkDefault1 isUpper sticky embedRO (VBasic isZero) depth errs =
     (if depth > 3 then Inr errs
      else if sticky \<or> embedRO then Inl UnexportedField
      else Inr (if isZero then errs else errs + 1))"
| "checkDefault1 isUpper sticky embedRO VOther depth errs = Inr errs"

definition checkDefault :: "(string \<Rightarrow> bool) \<Rightarrow> goval option \<Rightarrow> 't Checker \<Rightarrow> 't Checker go" where
  "checkDefault isUpper value s =
     (case value of
        None \<Rightarrow> Inr s
      | Some v \<Rightarrow> bindE (checkDefault1 isUpper False False v 1 (errorCount s)) (\<lambda>n. Inr (s\<lparr>errorCount := n\<rparr>)))"

subsection \<open>The calls\<close>

text \<open>
  Each operation of the package checks before it calls \<open>encoding/gob\<close>; \<open>gob\<close> is what that
  package does on the argument. A value comes with its dynamic type.
\<close>

definition labEncode :: "(string \<Rightarrow> bool) \<Rightarrow> ('t \<Rightarrow> 't kind) \<Rightarrow> ('v \<Rightarrow> 'r go) \<Rightarrow> 't option \<Rightarrow> 'v \<Rightarrow> 't Checker \<Rightarrow> ('t Checker \<times> 'r) go option" where
  "labEncode isUpper kinds gob t v s =
     Option.bind (checkValue isUpper kinds t s) (\<lambda>r. Some (bindE r (\<lambda>s. bindE (gob v) (\<lambda>e. Inr (s, e)))))"

definition labDecode :: "(string \<Rightarrow> bool) \<Rightarrow> ('t \<Rightarrow> 't kind) \<Rightarrow> (goval option \<Rightarrow> 'r go) \<Rightarrow> 't option \<Rightarrow> goval option \<Rightarrow> 't Checker \<Rightarrow> ('t Checker \<times> 'r) go option" where
  "labDecode isUpper kinds gob t v s =
     Option.bind (checkValue isUpper kinds t s) (\<lambda>r. Some (bindE r (\<lambda>s. bindE (checkDefault isUpper v s) (\<lambda>s.
       bindE (gob v) (\<lambda>e. Inr (s, e))))))"

definition labRegister :: "(string \<Rightarrow> bool) \<Rightarrow> ('t \<Rightarrow> 't kind) \<Rightarrow> ('v \<Rightarrow> unit go) \<Rightarrow> 't option \<Rightarrow> 'v \<Rightarrow> 't Checker \<Rightarrow> 't Checker go option" where
  "labRegister isUpper kinds gob t v s =
     Option.bind (checkValue isUpper kinds t s) (\<lambda>r. Some (bindE r (\<lambda>s. bindE (gob v) (\<lambda>_. Inr s))))"

subsection \<open>The walk over a type ends and counts every type once\<close>

lemma checkCalls_Nil [simp]: "checkCalls isUpper kinds [] s = Some s"
  by (subst checkCalls.simps) simp

lemma checkCalls_seen: "t \<in> set (checked s) \<Longrightarrow> checkCalls isUpper kinds (t # rest) s = checkCalls isUpper kinds rest s"
  by (subst checkCalls.simps) simp

lemma checkCalls_new: "t \<notin> set (checked s) \<Longrightarrow> checkCalls isUpper kinds (t # rest) s =
    checkCalls isUpper kinds (parts (kinds t) @ rest)
      (s\<lparr>checked := t # checked s, errorCount := errorCount s + int (lowerFields isUpper (kinds t))\<rparr>)"
  by (subst checkCalls.simps) simp

text \<open>The types that a type is made of, directly or not.\<close>

inductive reaches :: "('t \<Rightarrow> 't kind) \<Rightarrow> 't \<Rightarrow> 't \<Rightarrow> bool" for kinds :: "'t \<Rightarrow> 't kind" where
  reaches_refl: "reaches kinds t t"
| reaches_part: "reaches kinds t u \<Longrightarrow> v \<in> set (parts (kinds u)) \<Longrightarrow> reaches kinds t v"

definition closed_in :: "('t \<Rightarrow> 't kind) \<Rightarrow> 't set \<Rightarrow> bool" where
  "closed_in kinds U \<longleftrightarrow> (\<forall>t\<in>U. set (parts (kinds t)) \<subseteq> U)"

text \<open>
  The outcome of a walk in a finite closed set of types: the new types form a list without
  repetition, each is counted once, every part of a type seen is seen unless it was still to be
  done before, and nothing else is visited.
\<close>

lemma checkCalls_total:
  assumes "finite U" "closed_in kinds U" "set ts \<subseteq> U"
  shows "\<exists>new. checkCalls isUpper kinds ts s =
      Some (s\<lparr>checked := new @ checked s, errorCount := errorCount s + int (sum_list (map (\<lambda>t. lowerFields isUpper (kinds t)) new))\<rparr>) \<and>
    distinct new \<and> set new \<inter> set (checked s) = {} \<and> set ts \<subseteq> set new \<union> set (checked s) \<and> set new \<subseteq> U \<and>
    (\<forall>t\<in>set new. set (parts (kinds t)) \<subseteq> set new \<union> set (checked s)) \<and>
    (\<forall>u\<in>set new. \<exists>t\<in>set ts. reaches kinds t u)"
  using assms(3)
proof (induction "card (U - set (checked s))" arbitrary: s ts rule: less_induct)
  case outer: less
  from outer.prems show ?case
  proof (induction ts)
    case Nil
    show ?case by (rule exI [of _ "[]"]) simp
  next
    case (Cons t rest)
    show ?case
    proof (cases "t \<in> set (checked s)")
      case True
      with Cons obtain new where "checkCalls isUpper kinds rest s =
          Some (s\<lparr>checked := new @ checked s, errorCount := errorCount s + int (sum_list (map (\<lambda>t. lowerFields isUpper (kinds t)) new))\<rparr>)"
        "distinct new" "set new \<inter> set (checked s) = {}" "set rest \<subseteq> set new \<union> set (checked s)" "set new \<subseteq> U"
        "\<forall>t\<in>set new. set (parts (kinds t)) \<subseteq> set new \<union> set (checked s)" "\<forall>u\<in>set new. \<exists>t\<in>set rest. reaches kinds t u"
        by auto
      with True show ?thesis by (intro exI [of _ new]) (auto simp: checkCalls_seen)
    next
      case False
      let ?s = "s\<lparr>checked := t # checked s, errorCount := errorCount s + int (lowerFields isUpper (kinds t))\<rparr>"
      have t: "t \<in> U" using Cons.prems by simp
      have "U - set (checked ?s) = (U - set (checked s)) - {t}" by auto
      then have "card (U - set (checked ?s)) < card (U - set (checked s))"
        using t False assms(1) card_Diff1_less [of "U - set (checked s)" t] by simp
      moreover have "set (parts (kinds t) @ rest) \<subseteq> U" using assms(2) t Cons.prems by (auto simp: closed_in_def)
      ultimately obtain new where new: "checkCalls isUpper kinds (parts (kinds t) @ rest) ?s =
          Some (?s\<lparr>checked := new @ checked ?s, errorCount := errorCount ?s + int (sum_list (map (\<lambda>t. lowerFields isUpper (kinds t)) new))\<rparr>)"
        "distinct new" "set new \<inter> set (checked ?s) = {}" "set (parts (kinds t) @ rest) \<subseteq> set new \<union> set (checked ?s)" "set new \<subseteq> U"
        "\<forall>t\<in>set new. set (parts (kinds t)) \<subseteq> set new \<union> set (checked ?s)"
        "\<forall>u\<in>set new. \<exists>v\<in>set (parts (kinds t) @ rest). reaches kinds v u"
        using outer.hyps [of ?s "parts (kinds t) @ rest"] by blast
      have reach: "\<exists>v\<in>set (t # rest). reaches kinds v u" if "u \<in> set (new @ [t])" for u
      proof -
        have compose: "reaches kinds t u" if "v \<in> set (parts (kinds t))" "reaches kinds v u" for v u
          using that(2,1) by (induction rule: reaches.induct) (auto intro: reaches.intros)
        from that new(7) show ?thesis by (auto intro: compose reaches_refl)
      qed
      show ?thesis
        by (rule exI [of _ "new @ [t]"]) (use new(1-6) reach False t in \<open>auto simp: checkCalls_new\<close>)
    qed
  qed
qed

lemma reaches_closed: "closed_in kinds S \<Longrightarrow> t \<in> S \<Longrightarrow> reaches kinds t u \<Longrightarrow> u \<in> S"
  by (rotate_tac 2, induction rule: reaches.induct) (auto simp: closed_in_def)

text \<open>
  Claim C31. \<open>checkType\<close> ends on every type that is made of finitely many types, recursive ones
  included. Afterwards exactly the types seen before and the parts of this type are marked, every
  field whose name gob will not send has been counted once for each newly seen type, and a second
  check of the same type changes nothing.
\<close>

theorem checkType_counts:
  assumes "finite {u. reaches kinds t u}" "closed_in kinds (set (checked s))"
  shows "\<exists>s' new. checkType isUpper kinds t s = Some s' \<and> distinct new \<and>
    set new = {u. reaches kinds t u} - set (checked s) \<and> set (checked s') = set (checked s) \<union> {u. reaches kinds t u} \<and>
    errorCount s' = errorCount s + int (sum_list (map (\<lambda>u. lowerFields isUpper (kinds u)) new)) \<and>
    closed_in kinds (set (checked s')) \<and> checkType isUpper kinds t s' = Some s'"
proof -
  let ?U = "{u. reaches kinds t u}"
  have "closed_in kinds ?U" by (auto simp: closed_in_def intro: reaches_part)
  moreover have "set [t] \<subseteq> ?U" by (simp add: reaches_refl)
  ultimately obtain new where new: "checkCalls isUpper kinds [t] s =
      Some (s\<lparr>checked := new @ checked s, errorCount := errorCount s + int (sum_list (map (\<lambda>t. lowerFields isUpper (kinds t)) new))\<rparr>)"
    "distinct new" "set new \<inter> set (checked s) = {}" "set [t] \<subseteq> set new \<union> set (checked s)" "set new \<subseteq> ?U"
    "\<forall>t\<in>set new. set (parts (kinds t)) \<subseteq> set new \<union> set (checked s)"
    using checkCalls_total [OF assms(1), where ts = "[t]" and isUpper = isUpper and s = s] by blast
  have seen: "t \<in> set new \<union> set (checked s)" using new(4) by simp
  let ?s = "s\<lparr>checked := new @ checked s, errorCount := errorCount s + int (sum_list (map (\<lambda>t. lowerFields isUpper (kinds t)) new))\<rparr>"
  have closed: "closed_in kinds (set new \<union> set (checked s))" using new(6) assms(2) by (auto simp: closed_in_def)
  have "?U \<subseteq> set new \<union> set (checked s)" using reaches_closed [OF closed seen] by auto
  with new(3,5) have sets: "set new = ?U - set (checked s)" "set (checked ?s) = set (checked s) \<union> ?U" by auto
  have "checkType isUpper kinds t ?s = Some ?s" using seen by (simp add: checkType_def checkCalls_seen)
  with new(1,2) sets closed show ?thesis
    by (intro exI [of _ ?s] exI [of _ new]) (simp add: checkType_def)
qed

text \<open>A list type: type 0 is a struct with a value, a pointer (1) to itself and a field that is not exported.\<close>

definition listKinds :: "nat \<Rightarrow> nat kind" where
  "listKinds t = (if t = 0 then Struct [(''Value'', 2), (''Next'', 1), (''len'', 2)] else if t = 1 then Elem 0 else Basic)"

definition asciiUpper :: "string \<Rightarrow> bool" where
  "asciiUpper s \<longleftrightarrow> s \<noteq> [] \<and> 65 \<le> (of_char (hd s) :: nat) \<and> (of_char (hd s) :: nat) \<le> 90"

lemma listKinds_reaches: "reaches listKinds 0 u \<Longrightarrow> u \<in> {0, 1, 2}"
  by (rule reaches_closed [of _ _ 0]) (auto simp: closed_in_def listKinds_def parts_def)

lemma listKinds_all: "{u. reaches listKinds 0 u} = {0, 1, 2}"
proof
  show "{u. reaches listKinds 0 u} \<subseteq> {0, 1, 2}" using listKinds_reaches by blast
  have "reaches listKinds 0 1" "reaches listKinds 0 2"
    by (rule reaches_part [OF reaches_refl], simp add: listKinds_def parts_def)+
  then show "{0, 1, 2} \<subseteq> {u. reaches listKinds 0 u}" using reaches_refl by auto
qed

theorem checkType_counts_witness:
  "\<exists>s'. checkType asciiUpper listKinds 0 \<lparr>checked = [], errorCount = 0\<rparr> = Some s' \<and>
    set (checked s') = {0, 1, 2} \<and> errorCount s' = 1 \<and> checkType asciiUpper listKinds 0 s' = Some s'"
proof -
  have fin: "finite {u. reaches listKinds 0 u}" and closed: "closed_in listKinds (set (checked \<lparr>checked = [], errorCount = 0\<rparr>))"
    by (simp_all add: listKinds_all closed_in_def)
  obtain s' new where s': "checkType asciiUpper listKinds 0 \<lparr>checked = [], errorCount = 0\<rparr> = Some s'" "distinct new"
    "set new = {0, 1, 2}" "set (checked s') = {0, 1, 2}"
    "errorCount s' = int (sum_list (map (\<lambda>u. lowerFields asciiUpper (listKinds u)) new))" "checkType asciiUpper listKinds 0 s' = Some s'"
    using checkType_counts [OF fin closed, of asciiUpper] unfolding listKinds_all by auto
  have "sum_list (map (\<lambda>u. lowerFields asciiUpper (listKinds u)) new) = (\<Sum>u\<in>{0, 1, 2}. lowerFields asciiUpper (listKinds u))"
    using s'(2,3) by (simp add: sum_list_distinct_conv_sum_set)
  also have "\<dots> = 1" by (simp add: lowerFields_def listKinds_def asciiUpper_def)
  finally show ?thesis using s' by auto
qed

end
