(* ===== verification/Spec2Isabelle.thy ===== *)
theory Spec2Isabelle
  imports Raft_Loss Kv_Partition Shard_Config Raft_Checks Mr_Schedule Mr_Apps Lab_Gob
begin

text \<open>
  Verification of the Go programs under \<^verbatim>\<open>src/MIT6.824/1st_learning/6.824/src\<close>: the Raft
  implementation, the key/value service on top of it, the skeletons of the sharded service, the
  MapReduce library, the linearizability checker, and the simulated network with the test
  configurations that run the services on it. The other directories of the repository hold notes.

  \<^bold>\<open>The parts and how they interact.\<close> A \<^emph>\<open>Raft server\<close> (\<open>raft/raft.go\<close>) exchanges \<open>RequestVote\<close> and
  \<open>AppendEntry\<close> calls with its peers, keeps its state in a \<^emph>\<open>persister\<close> and hands committed commands to
  the service above it. The \<^emph>\<open>key/value server\<close> (\<open>kvraft\<close>) starts commands on its Raft server and
  applies what comes back; \<^emph>\<open>clerks\<close> look for the leader and repeat their requests. \<^emph>\<open>shardmaster\<close>
  and \<^emph>\<open>shardkv\<close> have clerks and servers whose handlers are still empty. All calls go through
  \<^emph>\<open>labrpc\<close>, a network that loses, delays and reorders messages, and are encoded by \<^emph>\<open>labgob\<close>. The
  \<^emph>\<open>test configurations\<close> (four files \<open>config.go\<close>) start, crash, connect and partition servers and check
  the result; the answers of the key/value service are checked by the \<^emph>\<open>linearizability checker\<close>.
  \<^emph>\<open>MapReduce\<close> stands alone: a master cuts a job into tasks, a schedule hands them to workers.

  \<^bold>\<open>Conventions.\<close> A Go function that can panic, end the process, fail the test or block for ever returns
  a value of \<open>'a go\<close>, an error or a result (theory \<open>Go_Prelude\<close>). Pointers into shared structures are
  addresses in an explicit store, a \<open>nil\<close> pointer is \<open>None\<close>. A critical section is one atomic operation.
  Goroutines are steps of an inductive relation, so that a theorem about reachable states covers
  every interleaving. Loops that may not end are partial functions with the value \<open>None\<close>, or
  \<open>while_option\<close>, and returning is proved where it is claimed. Random numbers, the order in which a map is visited,
  the order in which results arrive, times and the contents of libraries outside of the repository are
  arguments; where a theorem needs something of them it is a hypothesis. \<open>int\<close> stands for Go's
  \<open>int\<close> where values are counters or indices; hashes, bit sets and the 32-bit counters are words.

  \<^bold>\<open>Theories.\<close>
  \<^item> \<open>Go_Prelude\<close>: errors, slices, loops with errors (\<open>foldE\<close> and its invariant rules), quorums
    (locale \<open>quorum_system\<close>), reachability (locale \<open>inductive_invariant\<close>).
  \<^item> \<open>Persister\<close>: \<open>raft/persister.go\<close>; locale \<open>stable_store\<close>.
  \<^item> \<open>Raft_Util\<close>: \<open>raft/util.go\<close>, the selection of the index that a majority has.
  \<^item> \<open>Raft_Node\<close>: the data and every operation of \<open>raft/raft.go\<close>; \<open>Raft_Ops\<close>: what each operation does;
    \<open>Raft_Invariant\<close>: the step relation of one server, its well-formedness invariant, contracts of
    the handlers, absence of panics, monotony and the commit rule.
  \<^item> \<open>Raft_Cluster\<close>: all servers with their vote requests on the way; at most one leader per term.
    \<open>Raft_Loss\<close>: a run in which a delayed message removes a committed entry.
  \<^item> \<open>Bitset\<close>, \<open>Lin_Model\<close>, \<open>Lin_List\<close>, \<open>Lin_Check\<close>, \<open>Lin_Correct\<close>, \<open>Lin_History\<close>: the package
    \<open>linearizability\<close>; the checker ends and decides linearizability, on operations, on events and
    per key.
  \<^item> \<open>Kv_Server\<close>, \<open>Clerks\<close>: \<open>kvraft\<close>, \<open>shardmaster\<close> and \<open>shardkv\<close> without their configurations; the
    database refines the model that the checker uses; the clerk finds the leader.
  \<^item> \<open>Mr_Common\<close>, \<open>Mr_Tasks\<close>, \<open>Mr_Master\<close>, \<open>Mr_Schedule\<close>, \<open>Mr_Apps\<close>: the package \<open>mapreduce\<close> and the
    applications in \<open>main\<close>; the sequential and the distributed run write the same output, with failing
    workers, and the schedule never loses a task (locale \<open>phase_files\<close>).
  \<^item> \<open>Lab_Rpc\<close>, \<open>Lab_Gob\<close>: the network with the life of one request, and the checks of encoded types.
  \<^item> \<open>Config_Net\<close>: what the configurations share, with the locales \<open>switchboard\<close> and \<open>net_holder\<close>;
    \<open>Raft_Config\<close>, \<open>Raft_Tests\<close>, \<open>Raft_Checks\<close>: \<open>raft/config.go\<close>, the invariant of its operations and
    what its checks establish; \<open>Kv_Config\<close>, \<open>Kv_Partition\<close>: \<open>kvraft/config.go\<close> and
    \<open>shardmaster/config.go\<close>; \<open>Shard_Config\<close>: \<open>shardkv/config.go\<close>.

  \<^bold>\<open>What the theorems show.\<close> Election safety without restarts, and the vote that a crash loses; the
  invariant of a server and that its handlers do not panic on well-formed messages; the leader commits
  only entries of its term that a majority has; selection equals the k-th largest element; the
  linearizability checker is total and right; the database of the key/value server behaves as its sequential model; a
  clerk finds a leader that answers; MapReduce output, sequential, distributed and for word count;
  replies of the network are genuine; the configurations isolate exactly the servers they are told to
  isolate, restart a server with what it had persisted, and partition a cluster so that the leader
  is in a minority. Where the code does not do what it means to do, the theorem says what it does instead: the
  key/value server panics on the first commit and would block on the second, two servers can claim a
  term, a delayed heartbeat makes a follower lose a committed entry, an empty history blocks the checker, an even cluster is not partitioned, \<open>shardkv\<close> can only
  be configured with three servers per group, and its clerk never returns.

  \<^bold>\<open>Bounds.\<close> No theorem bounds the number of servers, messages, steps, operations or files. There is
  no fuel: \<open>QuickSort\<close> and the walk of \<open>checkType\<close> have termination proofs, and the search of the
  checker a measure that every turn lowers.

  \<^bold>\<open>Not modelled.\<close> Printing (\<open>DDEBUG\<close>, \<open>DPrintf\<close>, \<open>debug\<close>) and the constants that switch it; the
  seeding of random generators and \<open>nrand\<close>, which only produce numbers that are arguments here; the
  accept loops of \<open>net/rpc\<close> and \<open>call\<close> of MapReduce, which are calls of the library (their outcome is a
  free choice of \<open>sched_step\<close>); the functions \<open>main\<close> that read the command line; the daemons under
  \<open>main\<close> whose code is commented out. Raft elections are proved for clusters whose servers do not
  restart; log matching is not proved, and state machine safety does not hold (\<open>Raft_Loss\<close>). The test files
  (\<open>test_test.go\<close>) are not part of the development.
\<close>

end
